(* ===== verification/IPC_Prelude.thy ===== *)
theory IPC_Prelude
  imports "HOL-Library.Word" "HOL-Library.Multiset"
begin

text \<open>
  Vocabulary shared by every component: the machine types, the ways an operation can fail,
  the address arithmetic of a memory region cut into equal blocks, the "overwrite with the last
  element and pop" idiom, and counting lemmas for a list of threads that is updated by index.
\<close>

section \<open>Machine types and failures\<close>

text \<open>
  \<open>size_t\<close>, \<open>uint8_t *\<close> and \<open>offset_ptr\<close> are 64 bits wide on the platforms the project
  names. Byte counts and addresses are words, so their arithmetic wraps; a number of elements that is
  only counted up and down and compared is a \<^typ>\<open>nat\<close>.
\<close>

type_synonym size_t = "64 word"
type_synonym addr = "64 word"

abbreviation nullptr :: addr where
  "nullptr \<equiv> 0"

text \<open>
  The first three failures and the last are C++ exceptions; the others are undefined behaviour, which the
  model reports as a failure at the point where the code would run into it.
\<close>

datatype fault =
    Bad_alloc
  | Bad_function_call
  | Out_of_range
  | Null_deref
  | Use_after_free
  | Out_of_bounds
  | Div_by_zero
  | Bad_cast
  | System_error

type_synonym 'a result = "fault + 'a"

definition is_ok :: "'a result \<Rightarrow> bool" where
  "is_ok r = (case r of Inl _ \<Rightarrow> False | Inr _ \<Rightarrow> True)"

lemma is_ok_simps [simp]:
  "\<not> is_ok (Inl e)"
  "is_ok (Inr x)"
  by (simp_all add: is_ok_def)

named_theorems op_defs \<open>the definitions of the operations of the components\<close>

section \<open>A region cut into blocks\<close>

definition block_addr :: "addr \<Rightarrow> size_t \<Rightarrow> nat \<Rightarrow> addr" where
  "block_addr base sz i = base + sz * of_nat i"

text \<open>The whole region \<open>[base, base + sz * n)\<close> lies in the address space.\<close>

definition region_fits :: "addr \<Rightarrow> size_t \<Rightarrow> nat \<Rightarrow> bool" where
  "region_fits base sz n \<longleftrightarrow> unat base + unat sz * n \<le> 2 ^ 64"

text \<open>The bytes of block \<open>i\<close>, as plain numbers.\<close>

definition block_bytes :: "addr \<Rightarrow> size_t \<Rightarrow> nat set" where
  "block_bytes p sz = {unat p ..< unat p + unat sz}"

lemma unat_lt_64 [simp]: "unat (x :: 64 word) < 2 ^ 64"
  using unsigned_less [of x] by simp

lemma unat_lt_64_numeral [simp]: "unat (x :: 64 word) < 18446744073709551616"
  using unat_lt_64 [of x] by simp

lemma unat_add_lt:
  assumes "unat a + unat (b :: 64 word) < 2 ^ 64"
  shows "unat (a + b) = unat a + unat b"
  using assms by (simp add: unat_word_ariths)

lemma unat_mult_of_nat:
  assumes "unat (a :: 64 word) * n < 2 ^ 64"
  shows "unat (a * of_nat n) = unat a * n"
proof (cases "a = 0")
  case True
  then show ?thesis by simp
next
  case False
  then have "1 \<le> unat a" by (simp add: Suc_le_eq unat_gt_0)
  then have "n \<le> unat a * n" by simp
  with assms have "n < 2 ^ 64" by linarith
  then have "unat (of_nat n :: 64 word) = n"
    by (simp add: unat_of_nat)
  with assms show ?thesis by (simp add: unat_word_ariths)
qed

lemma unat_block_addr:
  assumes "region_fits base sz n" and "i < n" and "0 < sz"
  shows "unat (block_addr base sz i) = unat base + unat sz * i"
proof -
  have "0 < unat sz" using assms(3) by (simp add: unat_gt_0 word_neq_0_conv)
  moreover from \<open>i < n\<close> have "unat sz * i + unat sz \<le> unat sz * n"
    by (metis Suc_leI mult.commute mult_Suc mult_le_mono2 add.commute)
  ultimately have lt: "unat base + unat sz * i < 2 ^ 64"
    using assms(1) by (simp add: region_fits_def)
  then have "unat (sz * of_nat i) = unat sz * i"
    by (intro unat_mult_of_nat) linarith
  with lt show ?thesis by (simp add: block_addr_def unat_add_lt)
qed

lemma block_addr_0 [simp]: "block_addr base sz 0 = base"
  by (simp add: block_addr_def)

lemma block_addr_inject:
  assumes "region_fits base sz n" and "0 < sz" and "i < n" and "j < n"
  shows "block_addr base sz i = block_addr base sz j \<longleftrightarrow> i = j"
proof
  assume "block_addr base sz i = block_addr base sz j"
  then have "unat sz * i = unat sz * j"
    using unat_block_addr [OF assms(1) \<open>i < n\<close> assms(2)] unat_block_addr [OF assms(1) \<open>j < n\<close> assms(2)]
    by (metis add_left_cancel)
  with assms(2) show "i = j" by (auto simp: unat_eq_zero)
qed simp

lemma block_addr_not_null:
  assumes "region_fits base sz n" and "0 < sz" and "i < n" and "base \<noteq> nullptr"
  shows "block_addr base sz i \<noteq> nullptr"
proof -
  have "0 < unat base" using assms(4) by (simp add: unat_gt_0)
  then have "0 < unat (block_addr base sz i)"
    using unat_block_addr [OF assms(1,3,2)] by simp
  then show ?thesis by (simp add: unat_gt_0)
qed

lemma mult_blocks_disjoint:
  assumes "(i::nat) < j"
  shows "s * i + s \<le> s * j"
  using mult_le_mono2 [of "Suc i" j s] assms by (simp add: algebra_simps)

lemma block_bytes_disjoint:
  assumes "region_fits base sz n" and "0 < sz" and "i < n" and "j < n" and "i \<noteq> j"
  shows "block_bytes (block_addr base sz i) sz \<inter> block_bytes (block_addr base sz j) sz = {}"
proof -
  have "unat sz * i + unat sz \<le> unat sz * j \<or> unat sz * j + unat sz \<le> unat sz * i"
    using assms(5) mult_blocks_disjoint by (metis linorder_neqE_nat)
  then show ?thesis
    using unat_block_addr [OF assms(1,3,2)] unat_block_addr [OF assms(1,4,2)]
    by (auto simp: block_bytes_def)
qed

lemma block_bytes_inside:
  assumes "region_fits base sz n" and "0 < sz" and "i < n"
  shows "block_bytes (block_addr base sz i) sz \<subseteq> {unat base ..< unat base + unat sz * n}"
  using unat_block_addr [OF assms(1,3,2)] mult_blocks_disjoint [OF \<open>i < n\<close>, of "unat sz"]
  by (auto simp: block_bytes_def)

text \<open>From an address inside block \<open>i\<close> back to \<open>i\<close>, by one unsigned division.\<close>

lemma block_index:
  assumes "region_fits base sz n" and "i < n" and "k < sz"
  shows "(block_addr base sz i + k - base) div sz = of_nat i"
proof -
  have pos: "0 < sz" using \<open>k < sz\<close> by (metis word_coorder.not_eq_extremum word_not_simps(1))
  have "unat sz * i + unat sz \<le> unat sz * n"
    using \<open>i < n\<close> by (rule mult_blocks_disjoint)
  moreover have kl: "unat k < unat sz" using \<open>k < sz\<close> by (simp add: word_less_nat_alt)
  ultimately have lt: "unat sz * i + unat k < 2 ^ 64"
    using assms(1) by (simp add: region_fits_def)
  have mul: "unat (sz * of_nat i) = unat sz * i"
    using lt by (intro unat_mult_of_nat) linarith
  have eq: "block_addr base sz i + k - base = sz * of_nat i + k"
    by (simp add: block_addr_def)
  have "unat (block_addr base sz i + k - base) = unat sz * i + unat k"
    unfolding eq using lt mul by (subst unat_add_lt) simp_all
  then have "unat ((block_addr base sz i + k - base) div sz) = i"
    using kl by (simp add: unat_div_distrib)
  then show ?thesis by (metis of_nat_unat ucast_id)
qed

section \<open>Overwrite with the last element and pop\<close>

text \<open>
  Both the router (dead pipes) and the rate tracker (unregistered enforcers) drop a vector element
  by copying the last element over it and shrinking the vector by one.
\<close>

definition swap_pop :: "nat \<Rightarrow> 'a list \<Rightarrow> 'a list" where
  "swap_pop i xs = butlast (xs[i := last xs])"

lemma length_swap_pop [simp]: "length (swap_pop i xs) = length xs - 1"
  by (simp add: swap_pop_def)

lemma nth_swap_pop:
  assumes "j < length xs - 1"
  shows "swap_pop i xs ! j = (if j = i then last xs else xs ! j)"
  using assms by (auto simp: swap_pop_def nth_butlast nth_list_update)

lemma mset_swap_pop:
  assumes "i < length xs"
  shows "add_mset (xs ! i) (mset (swap_pop i xs)) = mset xs"
proof (cases xs rule: rev_cases)
  case Nil
  with assms show ?thesis by simp
next
  case (snoc ys y)
  show ?thesis
  proof (cases "i = length ys")
    case True
    then show ?thesis by (simp add: snoc swap_pop_def)
  next
    case False
    with assms snoc have i: "i < length ys" by simp
    then have "swap_pop i xs = ys[i := y]"
      by (simp add: snoc swap_pop_def list_update_append)
    with i show ?thesis
      by (simp add: snoc nth_append mset_update)
  qed
qed

lemma set_swap_pop_subset: "set (swap_pop i xs) \<subseteq> set xs"
proof (cases "xs = []")
  case True
  then show ?thesis by (simp add: swap_pop_def)
next
  case False
  then have "set (xs[i := last xs]) \<subseteq> set xs"
    using set_update_subset_insert [of xs i "last xs"] by auto
  then show ?thesis by (auto simp: swap_pop_def dest: in_set_butlastD)
qed

section \<open>Counting in a list that is updated by index\<close>

definition count_if :: "('a \<Rightarrow> bool) \<Rightarrow> 'a list \<Rightarrow> nat" where
  "count_if P xs = length (filter P xs)"

lemma count_if_simps [simp]:
  "count_if P [] = 0"
  "count_if P (x # xs) = (if P x then Suc (count_if P xs) else count_if P xs)"
  "count_if P (xs @ ys) = count_if P xs + count_if P ys"
  by (simp_all add: count_if_def)

lemma count_if_pos: "i < length xs \<Longrightarrow> P (xs ! i) \<Longrightarrow> 0 < count_if P xs"
  by (auto simp: count_if_def filter_empty_conv)

text \<open>
  One element changes: the count moves by what the element contributed before and contributes now.
  Stated additively, so that it holds without a subtraction.
\<close>

lemma count_if_update:
  "i < length xs \<Longrightarrow>
   count_if P (xs[i := y]) + (if P (xs ! i) then 1 else 0) = count_if P xs + (if P y then 1 else 0)"
proof (induction xs arbitrary: i)
  case Nil
  then show ?case by simp
next
  case (Cons x xs)
  then show ?case by (cases i) auto
qed

lemma count_if_zero: "count_if P xs = 0 \<longleftrightarrow> (\<forall>x \<in> set xs. \<not> P x)"
  by (auto simp: count_if_def filter_empty_conv)

lemma count_if_le_length: "count_if P xs \<le> length xs"
  by (simp add: count_if_def)

lemma count_if_replicate: "count_if P (replicate n x) = (if P x then n else 0)"
  by (induction n) auto

lemma count_if_mset: "mset xs = mset ys \<Longrightarrow> count_if P xs = count_if P ys"
  unfolding count_if_def by (metis mset_filter size_mset)

section \<open>Dropping one element\<close>

definition drop_nth :: "nat \<Rightarrow> 'a list \<Rightarrow> 'a list" where
  "drop_nth k xs = take k xs @ drop (Suc k) xs"

lemma set_drop_nth:
  assumes "distinct xs" and "k < length xs"
  shows "set (drop_nth k xs) = set xs - {xs ! k}"
proof -
  have xs: "xs = take k xs @ xs ! k # drop (Suc k) xs"
    using assms(2) by (rule id_take_nth_drop)
  then have "distinct (take k xs @ xs ! k # drop (Suc k) xs)" using assms(1) by simp
  moreover have "set xs = set (take k xs @ xs ! k # drop (Suc k) xs)" using xs by simp
  ultimately show ?thesis by (auto simp: drop_nth_def)
qed

lemma length_drop_nth: "k < length xs \<Longrightarrow> length (drop_nth k xs) = length xs - 1"
  by (simp add: drop_nth_def)

lemma distinct_drop_nth:
  assumes "distinct xs"
  shows "distinct (drop_nth k xs)"
proof (cases "k < length xs")
  case True
  then have "xs = take k xs @ xs ! k # drop (Suc k) xs" by (rule id_take_nth_drop)
  then have "distinct (take k xs @ xs ! k # drop (Suc k) xs)" using assms by simp
  then show ?thesis by (auto simp: drop_nth_def)
next
  case False
  with assms show ?thesis by (simp add: drop_nth_def)
qed

lemma mset_drop_nth:
  assumes "k < length xs"
  shows "add_mset (xs ! k) (mset (drop_nth k xs)) = mset xs"
proof -
  have "mset xs = mset (take k xs @ xs ! k # drop (Suc k) xs)"
    using id_take_nth_drop [OF assms] by simp
  then show ?thesis by (simp add: drop_nth_def)
qed

lemma count_if_drop_nth:
  assumes "k < length xs"
  shows "count_if P (drop_nth k xs) + (if P (xs ! k) then 1 else 0) = count_if P xs"
proof -
  have "count_if P (xs ! k # drop_nth k xs) = count_if P xs"
    by (rule count_if_mset) (simp add: mset_drop_nth [OF assms])
  then show ?thesis by (simp split: if_splits)
qed

lemma set_drop_nth_subset: "set (drop_nth k xs) \<subseteq> set xs"
  by (auto simp: drop_nth_def dest: in_set_takeD in_set_dropD)

end
