(* ===== verification/Pool_Interface.thy ===== *)
theory Pool_Interface
  imports IPC_Prelude
begin

text \<open>
  The contract between a memory pool (\<open>AllocatorState\<close>, in its heap and its
  interprocess version) and the allocators and smart pointers built on it. A pool hands out one block
  per call of \<open>loan\<close> and takes it back with \<open>accept\<close>. \<open>good out s\<close> says that the pool
  \<open>s\<close> is well formed when exactly the blocks \<open>out\<close> are held by its clients; the code does
  not record \<open>out\<close>, which is why it is a parameter of the invariant and not of the state.

  The clients are a list of requests: take a block, or give back the \<open>k\<close>-th block held. Everything
  proved here about them holds for both pools.
\<close>

datatype pool_op = Take | Give nat

text \<open>A request that names a block the clients do not hold is no request: it is skipped.\<close>

fun run_clients ::
  "('s \<Rightarrow> ('b \<times> 's) option) \<Rightarrow> ('b \<Rightarrow> 's \<Rightarrow> 's option)
   \<Rightarrow> pool_op list \<Rightarrow> 'b list \<Rightarrow> 's \<Rightarrow> ('b list \<times> 's) option" where
  "run_clients loan accept [] held s = Some (held, s)"
| "run_clients loan accept (Take # os) held s =
     (case loan s of
        None \<Rightarrow> run_clients loan accept os held s
      | Some (b, s') \<Rightarrow> run_clients loan accept os (held @ [b]) s')"
| "run_clients loan accept (Give k # os) held s =
     (if k < length held
      then (case accept (held ! k) s of
              None \<Rightarrow> None
            | Some s' \<Rightarrow> run_clients loan accept os (drop_nth k held) s')
      else run_clients loan accept os held s)"

text \<open>The largest number of blocks held at any point of a run.\<close>

fun peak_held ::
  "('s \<Rightarrow> ('b \<times> 's) option) \<Rightarrow> ('b \<Rightarrow> 's \<Rightarrow> 's option)
   \<Rightarrow> pool_op list \<Rightarrow> 'b list \<Rightarrow> 's \<Rightarrow> nat" where
  "peak_held loan accept [] held s = length held"
| "peak_held loan accept (Take # os) held s =
     (case loan s of
        None \<Rightarrow> peak_held loan accept os held s
      | Some (b, s') \<Rightarrow> max (length held) (peak_held loan accept os (held @ [b]) s'))"
| "peak_held loan accept (Give k # os) held s =
     (if k < length held
      then (case accept (held ! k) s of
              None \<Rightarrow> length held
            | Some s' \<Rightarrow> max (length held) (peak_held loan accept os (drop_nth k held) s'))
      else peak_held loan accept os held s)"

lemma peak_held_ge: "length held \<le> peak_held loan accept os held s"
proof (induction os arbitrary: held s)
  case Nil
  then show ?case by simp
next
  case (Cons a os)
  then show ?case by (cases a) (auto split: option.splits)
qed

locale block_pool =
  fixes loan :: "'s \<Rightarrow> ('b \<times> 's) option"
    and accept :: "'b \<Rightarrow> 's \<Rightarrow> 's option"
    and good :: "'b set \<Rightarrow> 's \<Rightarrow> bool"
    and blocks :: "'s \<Rightarrow> 'b set"
  assumes finite_blocks: "good out s \<Longrightarrow> finite (blocks s)"
    and out_blocks: "good out s \<Longrightarrow> out \<subseteq> blocks s"
    and loan_some: "good out s \<Longrightarrow> out \<noteq> blocks s \<Longrightarrow>
      \<exists>b s'. loan s = Some (b, s') \<and> b \<in> blocks s \<and> b \<notin> out
           \<and> good (insert b out) s' \<and> blocks s' = blocks s"
    and loan_none: "good (blocks s) s \<Longrightarrow> loan s = None"
    and accept_ok: "good out s \<Longrightarrow> b \<in> out \<Longrightarrow>
      \<exists>s'. accept b s = Some s' \<and> good (out - {b}) s' \<and> blocks s' = blocks s"
begin

lemma loan_cases:
  assumes "good out s"
  obtains (empty) "out = blocks s" "loan s = None"
  | (lent) b s' where "loan s = Some (b, s')" "b \<in> blocks s" "b \<notin> out"
      "good (insert b out) s'" "blocks s' = blocks s"
  using loan_some [OF assms] loan_none [of s] assms by metis

text \<open>
  Whatever the clients do, no request runs into a failure, the blocks held at the end are pairwise
  different blocks of the pool, and the pool is well formed for exactly these blocks.
\<close>

lemma run_good:
  assumes "good (set held) s" and "distinct held"
  shows "\<exists>held' s'. run_clients loan accept os held s = Some (held', s')
           \<and> distinct held' \<and> good (set held') s' \<and> blocks s' = blocks s"
  using assms
proof (induction os arbitrary: held s)
  case Nil
  then show ?case by simp
next
  case (Cons a os)
  show ?case
  proof (cases a)
    case Take
    from Cons.prems(1) show ?thesis
    proof (cases rule: loan_cases)
      case empty
      then show ?thesis using Take Cons.IH [OF Cons.prems] by simp
    next
      case (lent b s')
      then have "good (set (held @ [b])) s'" and "distinct (held @ [b])"
        using Cons.prems(2) by simp_all
      from Cons.IH [OF this] show ?thesis using Take lent by auto
    qed
  next
    case (Give k)
    show ?thesis
    proof (cases "k < length held")
      case True
      then have "held ! k \<in> set held" by simp
      then obtain s' where s': "accept (held ! k) s = Some s'"
        "good (set held - {held ! k}) s'" "blocks s' = blocks s"
        using accept_ok [OF Cons.prems(1)] by blast
      then have "good (set (drop_nth k held)) s'"
        using set_drop_nth [OF Cons.prems(2) True] by simp
      from Cons.IH [OF this distinct_drop_nth [OF Cons.prems(2)]] show ?thesis
        using Give True s' by auto
    next
      case False
      then show ?thesis using Give Cons.IH [OF Cons.prems] by simp
    qed
  qed
qed

lemma run_held_bounded:
  assumes "good (set held) s" and "distinct held"
    and "run_clients loan accept os held s = Some (held', s')"
  shows "length held' \<le> card (blocks s)"
proof -
  from run_good [OF assms(1,2), of os] assms(3)
  have "distinct held'" "good (set held') s'" "blocks s' = blocks s" by auto
  then have "card (set held') \<le> card (blocks s)"
    using finite_blocks out_blocks by (metis card_mono)
  with \<open>distinct held'\<close> show ?thesis by (simp add: distinct_card)
qed

text \<open>The pool refuses exactly when every block is held.\<close>

lemma loan_none_iff: "good out s \<Longrightarrow> loan s = None \<longleftrightarrow> out = blocks s"
  by (erule loan_cases) auto

lemma good_card_out:
  assumes "good out s"
  shows "card out \<le> card (blocks s)"
  using finite_blocks [OF assms] out_blocks [OF assms] by (rule card_mono)

text \<open>As many blocks as are free can be taken in a row, and then no more.\<close>

lemma take_many:
  assumes "good out s" and "n + card out = card (blocks s)"
  shows "\<exists>bs s'. run_clients loan accept (replicate n Take) held s = Some (held @ bs, s')
           \<and> length bs = n \<and> good (blocks s) s' \<and> blocks s' = blocks s \<and> loan s' = None"
  using assms
proof (induction n arbitrary: out s held)
  case 0
  then have "card out = card (blocks s)" by simp
  then have "out = blocks s"
    using 0 finite_blocks out_blocks by (metis card_subset_eq)
  then show ?case using 0 loan_none by simp
next
  case (Suc n)
  from Suc.prems(1) show ?case
  proof (cases rule: loan_cases)
    case empty
    then show ?thesis using Suc.prems(2) by simp
  next
    case (lent b s')
    have "finite out"
      using Suc.prems(1) finite_blocks out_blocks by (metis finite_subset)
    then have "n + card (insert b out) = card (blocks s')"
      using lent Suc.prems(2) by simp
    from Suc.IH [OF lent(4) this, of "held @ [b]"] obtain bs s'' where
      "run_clients loan accept (replicate n Take) (held @ [b]) s' = Some (held @ b # bs, s'')"
      "length bs = n" "good (blocks s) s''" "blocks s'' = blocks s" "loan s'' = None"
      using lent(5) by auto
    then show ?thesis using lent(1) by (intro exI [of _ "b # bs"] exI [of _ s'']) simp
  qed
qed

end

end
