(* ===== verification/Heap_Pool.thy ===== *)
theory Heap_Pool
  imports Pool_Interface
begin

text \<open>
  \<^verbatim>\<open>MempoolHeap/src/MemPoolHeap.h\<close>, classes \<open>RawMemory\<close> and \<open>AllocatorState\<close>: raw memory
  from an allocator, aligned by hand, and the pool that lends out its blocks. The byte allocator is
  the template parameter \<open>AllocatorT\<close>, so it is an argument of the model: a request either throws
  \<open>std::bad_alloc\<close> (\<^const>\<open>None\<close>) or returns an address.
\<close>

section \<open>RawMemory\<close>

record 'h byte_allocator =
  allocate_bytes :: "size_t \<Rightarrow> 'h \<Rightarrow> addr option \<times> 'h"
  deallocate_bytes :: "addr \<Rightarrow> size_t \<Rightarrow> 'h \<Rightarrow> 'h"

record raw_memory =
  rm_raw :: addr
  rm_rawSize :: size_t
  rm_nElementsTotal :: size_t
  rm_rawAligned :: addr

definition RawMemory_new :: "size_t \<Rightarrow> raw_memory" where
  "RawMemory_new n =
     \<lparr>rm_raw = nullptr, rm_rawSize = 0, rm_nElementsTotal = n, rm_rawAligned = nullptr\<rparr>"

text \<open>\<open>alignof(std::max_align_t)\<close> of the x86-64 System V ABI.\<close>

definition alignof_max_align_t :: size_t where
  "alignof_max_align_t = 16"

text \<open>
  \<open>std::align (alignment, size, ptr, space)\<close>: the first aligned address at or after \<open>ptr\<close> and
  the space left from it, or null (and nothing changed) when \<open>size\<close> bytes do not fit.
\<close>

definition std_align :: "size_t \<Rightarrow> size_t \<Rightarrow> addr \<Rightarrow> size_t \<Rightarrow> addr \<times> size_t" where
  "std_align al sz p space =
     (let off = (al - p mod al) mod al in
      if space < sz \<or> space - sz < off then (nullptr, space) else (p + off, space - off))"

definition RawMemory_Allocate ::
  "'h byte_allocator \<Rightarrow> size_t \<Rightarrow> size_t \<Rightarrow> raw_memory \<Rightarrow> 'h \<Rightarrow> addr \<times> raw_memory \<times> 'h" where
  "RawMemory_Allocate A sizeT alignT m h =
     (let nBytesTotal = sizeT * rm_nElementsTotal m + alignof_max_align_t;
          (got, h') = allocate_bytes A nBytesTotal h;
          m1 = (case got of None \<Rightarrow> m | Some p \<Rightarrow> m\<lparr>rm_raw := p\<rparr>)
      in if rm_raw m1 = nullptr then (nullptr, m1\<lparr>rm_rawSize := 0\<rparr>, h')
         else
           let m2 = m1\<lparr>rm_rawSize := nBytesTotal\<rparr>;
               (q, space) = std_align alignT (rm_nElementsTotal m2 * sizeT) (rm_raw m2) (rm_rawSize m2);
               m3 = m2\<lparr>rm_rawAligned := q\<rparr>
           in if q = nullptr \<or> space < sizeT * rm_nElementsTotal m3 then (nullptr, m3, h')
              else (q, m3, h'))"

definition RawMemory_destroy :: "'h byte_allocator \<Rightarrow> raw_memory \<Rightarrow> 'h \<Rightarrow> raw_memory \<times> 'h" where
  "RawMemory_destroy A m h =
     (if rm_raw m \<noteq> nullptr
      then (m\<lparr>rm_rawSize := 0\<rparr>, deallocate_bytes A (rm_raw m) (rm_rawSize m) h)
      else (m, h))"

text \<open>
  What the C++ allocator requirements promise: memory that was handed out is not at address 0 and
  does not run past the end of the address space.
\<close>

definition allocator_ok :: "'h byte_allocator \<Rightarrow> bool" where
  "allocator_ok A \<longleftrightarrow>
     (\<forall>b h p h'. allocate_bytes A b h = (Some p, h') \<longrightarrow> p \<noteq> nullptr \<and> unat p + unat b \<le> 2 ^ 64)"

text \<open>The byte count the code computes did not wrap.\<close>

definition size_fits :: "size_t \<Rightarrow> size_t \<Rightarrow> bool" where
  "size_fits sz n \<longleftrightarrow> unat sz * unat n + 16 < 2 ^ 64"

lemma std_align_Some:
  assumes "std_align al sz p space = (q, space')" and "q \<noteq> nullptr"
    and "unat p + unat space \<le> 2 ^ 64" and "0 < al"
  shows "unat q + unat sz \<le> unat p + unat space"
    and "unat p \<le> unat q" and "unat al dvd unat q" and "unat q < unat p + unat al"
proof -
  define off where "off = (al - p mod al) mod al"
  have cond: "\<not> space < sz" "\<not> space - sz < off" and q: "q = p + off"
    using assms(1,2) by (auto simp: std_align_def Let_def off_def split: if_splits)
  have sub: "unat (space - sz) = unat space - unat sz"
    using cond(1) by (simp add: unat_sub linorder_not_less)
  have off_le: "unat off \<le> unat space - unat sz"
    using cond(2) sub by (simp add: word_less_nat_alt not_less)
  have "unat sz \<le> unat space" using cond(1) by (simp add: word_less_nat_alt not_less)
  then have le: "unat p + unat off \<le> 2 ^ 64" using assms(3) off_le by linarith
  have "unat p + unat off \<noteq> 2 ^ 64"
  proof
    assume "unat p + unat off = 2 ^ 64"
    then have "unat q = 0" by (simp add: q unat_word_ariths)
    with assms(2) show False by (simp add: unat_eq_zero)
  qed
  with le have "unat p + unat off < 2 ^ 64" by linarith
  then have uq: "unat q = unat p + unat off" by (simp add: q unat_add_lt)
  show "unat q + unat sz \<le> unat p + unat space"
    using uq off_le \<open>unat sz \<le> unat space\<close> by linarith
  show "unat p \<le> unat q" using uq by simp
  have al: "0 < unat al" using assms(4) by (simp add: word_less_nat_alt)
  have pm: "p mod al < al" using assms(4) by (simp add: word_less_nat_alt unat_mod_distrib al)
  then have "unat (al - p mod al) = unat al - unat p mod unat al"
    by (simp add: unat_sub less_imp_le unat_mod_distrib)
  then have uo: "unat off = (unat al - unat p mod unat al) mod unat al"
    by (simp add: off_def unat_mod_distrib)
  then show "unat q < unat p + unat al" using uq al by simp
  show "unat al dvd unat q"
    unfolding uq uo using al
    by (metis add_diff_inverse_nat dvd_eq_mod_eq_0 mod_add_left_eq mod_add_right_eq
        mod_less_divisor mod_self not_less_iff_gr_or_eq)
qed

lemma size_fits_unat:
  assumes "size_fits sz n"
  shows "unat (sz * n) = unat sz * unat n"
    and "unat (sz * n + alignof_max_align_t) = unat sz * unat n + 16"
proof -
  show m: "unat (sz * n) = unat sz * unat n"
    using assms by (simp add: size_fits_def unat_word_ariths)
  show "unat (sz * n + alignof_max_align_t) = unat sz * unat n + 16"
    using assms m by (subst unat_add_lt) (simp_all add: size_fits_def alignof_max_align_t_def)
qed

lemma RawMemory_Allocate_region:
  assumes "allocator_ok A" and "size_fits sz (rm_nElementsTotal m)" and "0 < al"
    and "rm_raw m = nullptr"
    and run: "RawMemory_Allocate A sz al m h = (q, m', h')" and "q \<noteq> nullptr"
  shows "region_fits q sz (unat (rm_nElementsTotal m)) \<and> unat al dvd unat q
       \<and> unat (rm_raw m') \<le> unat q
       \<and> unat q + unat sz * unat (rm_nElementsTotal m) \<le> unat (rm_raw m') + unat (rm_rawSize m')"
proof -
  let ?n = "rm_nElementsTotal m"
  let ?b = "sz * ?n + alignof_max_align_t"
  obtain got h1 where got: "allocate_bytes A ?b h = (got, h1)" by fastforce
  with run assms(4,6) obtain p where p: "got = Some p"
    by (cases got) (auto simp: RawMemory_Allocate_def)
  from assms(1) got p have ok: "p \<noteq> nullptr" "unat p + unat ?b \<le> 2 ^ 64"
    by (auto simp: allocator_ok_def)
  obtain q' sp where al: "std_align al (?n * sz) p ?b = (q', sp)" by fastforce
  with run got p ok(1) assms(6) have q: "q' = q" "rm_raw m' = p" "rm_rawSize m' = ?b"
    by (auto simp: RawMemory_Allocate_def Let_def split: if_splits)
  note fits = std_align_Some [OF al [unfolded q] assms(6) ok(2) assms(3)]
  have "unat (?n * sz) = unat sz * unat ?n"
    using size_fits_unat(1) [OF assms(2)] by (simp add: mult.commute)
  with fits(1-3) ok(2) q show ?thesis by (simp add: region_fits_def)
qed

text \<open>
  The 16 spare bytes are always enough for the alignments of ordinary types, so the only way to get
  null is the allocator throwing.
\<close>

lemma RawMemory_Allocate_succeeds:
  assumes "allocator_ok A" and "size_fits sz (rm_nElementsTotal m)" and "0 < al" and "al \<le> 16"
    and got: "allocate_bytes A (sz * rm_nElementsTotal m + alignof_max_align_t) h = (Some p, h1)"
  shows "fst (RawMemory_Allocate A sz al m h) \<noteq> nullptr"
proof -
  let ?n = "rm_nElementsTotal m"
  let ?b = "sz * ?n + alignof_max_align_t"
  define off where "off = (al - p mod al) mod al"
  have ok: "p \<noteq> nullptr" "unat p + unat ?b \<le> 2 ^ 64"
    using assms(1) got by (auto simp: allocator_ok_def)
  have uns: "unat (sz * ?n) = unat sz * unat ?n" "unat ?b = unat sz * unat ?n + 16"
    using size_fits_unat [OF assms(2)] by simp_all
  have "0 < unat al" using assms(3) by (simp add: word_less_nat_alt)
  moreover have "unat al \<le> 16" using assms(4) by (simp add: word_le_nat_alt)
  ultimately have off: "unat off < 16"
    by (simp add: off_def unat_mod_distrib) (meson less_le_trans mod_less_divisor)
  have sp: "unat (?b - sz * ?n) = 16" by (simp add: alignof_max_align_t_def)
  have a1: "\<not> ?b < sz * ?n" using uns by (simp add: word_less_nat_alt)
  have a2: "\<not> ?b - sz * ?n < off" using off sp by (simp add: word_less_nat_alt)
  have pb: "0 < unat p" using ok(1) by (simp add: unat_gt_0)
  have po: "unat (p + off) = unat p + unat off"
    using ok(2) uns(2) off by (intro unat_add_lt) linarith
  then have nz: "p + off \<noteq> nullptr" using pb by (metis add_is_0 less_irrefl unat_0)
  have bo: "unat (?b - off) = unat ?b - unat off"
    using uns(2) off by (intro unat_sub) (simp add: word_le_nat_alt)
  have a3: "\<not> ?b - off < sz * ?n" using bo uns off by (simp add: word_less_nat_alt)
  show ?thesis
    using got ok(1) nz a1 a2 a3
    by (simp add: RawMemory_Allocate_def std_align_def Let_def off_def [symmetric] mult.commute)
qed

section \<open>AllocatorState\<close>

text \<open>
  \<open>ptrs\<close> is the contents of the pointer array at \<open>ptrsAligned\<close>: empty until \<open>Allocate\<close> has
  filled it, \<open>nElementsTotal\<close> slots afterwards. The destructor callback is an effect on the world
  \<open>'w\<close> outside the pool.
\<close>

record 'w alloc_state =
  memoryRaw :: raw_memory
  memoryPtrsToRaw :: raw_memory
  rawAligned :: addr
  ptrsAligned :: addr
  ptrs :: "addr list"
  nElementsTotal :: nat
  nAvailable :: nat
  historic_min_available :: nat
  initialized :: bool
  sizeSharedT :: size_t
  alignSharedT :: size_t
  destructorCallback :: "(size_t \<Rightarrow> 'w \<Rightarrow> 'w) option"

definition AllocatorState_new :: "size_t \<Rightarrow> 'w alloc_state" where
  "AllocatorState_new nElements_in =
     \<lparr>memoryRaw = RawMemory_new nElements_in, memoryPtrsToRaw = RawMemory_new nElements_in,
      rawAligned = nullptr, ptrsAligned = nullptr, ptrs = [],
      nElementsTotal = unat nElements_in, nAvailable = unat nElements_in,
      historic_min_available = unat nElements_in, initialized = False,
      sizeSharedT = 0, alignSharedT = 0, destructorCallback = None\<rparr>"

definition AllocatorState_Allocate ::
  "'h byte_allocator \<Rightarrow> size_t \<Rightarrow> size_t \<Rightarrow> 'w alloc_state \<Rightarrow> 'h \<Rightarrow> 'w alloc_state \<times> 'h" where
  "AllocatorState_Allocate A sizeSharedT_in alignSharedT_in s h =
     (if initialized s then (s, h)
      else
        let (r, mr, h1) = RawMemory_Allocate A sizeSharedT_in alignSharedT_in (memoryRaw s) h;
            (q, mp, h2) = RawMemory_Allocate A 8 8 (memoryPtrsToRaw s) h1;
            s1 = s\<lparr>sizeSharedT := sizeSharedT_in, alignSharedT := alignSharedT_in,
                   memoryRaw := mr, memoryPtrsToRaw := mp, rawAligned := r, ptrsAligned := q\<rparr>
        in if r \<noteq> nullptr \<and> q \<noteq> nullptr
           then (s1\<lparr>ptrs := map (block_addr r sizeSharedT_in) [0 ..< nElementsTotal s],
                    initialized := True\<rparr>, h2)
           else (s1\<lparr>nAvailable := 0, initialized := False\<rparr>, h2))"

definition Loan :: "'w alloc_state \<Rightarrow> (addr \<times> 'w alloc_state) result" where
  "Loan s =
     (if 0 < nAvailable s
      then
        let k = nAvailable s - 1;
            s' = s\<lparr>nAvailable := k, historic_min_available := min (historic_min_available s) k\<rparr>
        in if ptrsAligned s' = nullptr then Inl Null_deref
           else if k < length (ptrs s') then Inr (ptrs s' ! k, s')
           else Inl Out_of_bounds
      else Inl Bad_alloc)"

definition GetElementNumber :: "'w alloc_state \<Rightarrow> addr \<Rightarrow> size_t result" where
  "GetElementNumber s p =
     (if sizeSharedT s = 0 then Inl Div_by_zero else Inr ((p - rawAligned s) div sizeSharedT s))"

text \<open>The callback runs before the lock is taken, with the index of the block that comes back.\<close>

definition run_destructor :: "addr \<Rightarrow> 'w alloc_state \<Rightarrow> 'w \<Rightarrow> 'w result" where
  "run_destructor p s w =
     (case destructorCallback s of
        None \<Rightarrow> Inr w
      | Some f \<Rightarrow> (case GetElementNumber s p of Inl e \<Rightarrow> Inl e | Inr i \<Rightarrow> Inr (f i w)))"

definition Accept :: "addr \<Rightarrow> 'w alloc_state \<times> 'w \<Rightarrow> ('w alloc_state \<times> 'w) result" where
  "Accept p sw =
     (case sw of (s, w) \<Rightarrow>
        if p = nullptr then Inr (s, w)
        else (case run_destructor p s w of
                Inl e \<Rightarrow> Inl e
              | Inr w' \<Rightarrow>
                  if ptrsAligned s = nullptr then Inl Null_deref
                  else if nAvailable s < length (ptrs s)
                  then Inr (s\<lparr>ptrs := (ptrs s)[nAvailable s := p], nAvailable := nAvailable s + 1\<rparr>, w')
                  else Inl Out_of_bounds))"

definition SetDestructor :: "(size_t \<Rightarrow> 'w \<Rightarrow> 'w) option \<Rightarrow> 'w alloc_state \<Rightarrow> 'w alloc_state" where
  "SetDestructor func s = s\<lparr>destructorCallback := func\<rparr>"

definition GetSizeAndAlignment :: "'w alloc_state \<Rightarrow> size_t \<times> size_t" where
  "GetSizeAndAlignment s = (sizeSharedT s, alignSharedT s)"

definition Initialized :: "'w alloc_state \<Rightarrow> bool" where
  "Initialized s = initialized s"

definition TotalElementSize :: "'w alloc_state \<Rightarrow> size_t" where
  "TotalElementSize s = sizeSharedT s"

definition Capacity :: "'w alloc_state \<Rightarrow> nat" where
  "Capacity s = nElementsTotal s"

text \<open>\<open>(nOutstanding, nAvailable, historic_min_available)\<close>\<close>

definition Statistics :: "'w alloc_state \<Rightarrow> nat \<times> nat \<times> nat" where
  "Statistics s = (nElementsTotal s - nAvailable s, nAvailable s, historic_min_available s)"

section \<open>The invariant of the pool\<close>

definition pool_free :: "'w alloc_state \<Rightarrow> addr list" where
  "pool_free s = take (nAvailable s) (ptrs s)"

definition pool_blocks :: "'w alloc_state \<Rightarrow> addr set" where
  "pool_blocks s = block_addr (rawAligned s) (sizeSharedT s) ` {..< nElementsTotal s}"

definition pool_wf :: "'w alloc_state \<Rightarrow> bool" where
  "pool_wf s \<longleftrightarrow> initialized s \<and> rawAligned s \<noteq> nullptr \<and> ptrsAligned s \<noteq> nullptr
     \<and> 0 < sizeSharedT s \<and> region_fits (rawAligned s) (sizeSharedT s) (nElementsTotal s)
     \<and> length (ptrs s) = nElementsTotal s \<and> nAvailable s \<le> nElementsTotal s
     \<and> historic_min_available s \<le> nAvailable s"

definition pool_good :: "addr set \<Rightarrow> 'w alloc_state \<Rightarrow> bool" where
  "pool_good out s \<longleftrightarrow> pool_wf s \<and> distinct (pool_free s)
     \<and> set (pool_free s) \<inter> out = {} \<and> set (pool_free s) \<union> out = pool_blocks s"

lemma card_pool_blocks:
  assumes "pool_wf s"
  shows "card (pool_blocks s) = nElementsTotal s"
proof -
  have "inj_on (block_addr (rawAligned s) (sizeSharedT s)) {..< nElementsTotal s}"
    using assms block_addr_inject by (fastforce simp: pool_wf_def inj_on_def)
  then show ?thesis by (simp add: pool_blocks_def card_image)
qed

lemma pool_free_length: "pool_wf s \<Longrightarrow> length (pool_free s) = nAvailable s"
  by (simp add: pool_free_def pool_wf_def)

lemma pool_good_card:
  assumes "pool_good out s"
  shows "card out + nAvailable s = nElementsTotal s"
proof -
  have wf: "pool_wf s" and d: "distinct (pool_free s)"
    and i: "set (pool_free s) \<inter> out = {}" and u: "set (pool_free s) \<union> out = pool_blocks s"
    using assms by (simp_all add: pool_good_def)
  have "finite (pool_blocks s)" by (simp add: pool_blocks_def)
  then have "finite out" using u by (metis finite_Un)
  then have "card (pool_blocks s) = card (set (pool_free s)) + card out"
    using i u by (metis card_Un_disjoint finite_set)
  then show ?thesis
    using card_pool_blocks [OF wf] distinct_card [OF d] pool_free_length [OF wf] by simp
qed

lemma pool_good_full:
  assumes "pool_good out s"
  shows "nAvailable s = 0 \<longleftrightarrow> out = pool_blocks s"
proof
  assume "nAvailable s = 0"
  then have "pool_free s = []" by (simp add: pool_free_def)
  with assms show "out = pool_blocks s" by (simp add: pool_good_def)
next
  assume "out = pool_blocks s"
  moreover have "card (pool_blocks s) = nElementsTotal s"
    using assms by (intro card_pool_blocks) (simp add: pool_good_def)
  ultimately show "nAvailable s = 0" using pool_good_card [OF assms] by simp
qed

lemma pool_blocks_not_null:
  assumes "pool_wf s" and "p \<in> pool_blocks s"
  shows "p \<noteq> nullptr"
  using assms block_addr_not_null by (fastforce simp: pool_wf_def pool_blocks_def)

lemma pool_blocks_cong:
  "rawAligned s' = rawAligned s \<Longrightarrow> sizeSharedT s' = sizeSharedT s \<Longrightarrow>
   nElementsTotal s' = nElementsTotal s \<Longrightarrow> pool_blocks s' = pool_blocks s"
  by (simp add: pool_blocks_def)

lemma run_destructor_ok:
  assumes "pool_wf s"
  shows "\<exists>w'. run_destructor p s w = Inr w'"
proof (cases "destructorCallback s")
  case None
  then show ?thesis by (simp add: run_destructor_def)
next
  case (Some f)
  moreover have "sizeSharedT s \<noteq> 0" using assms by (simp add: pool_wf_def word_neq_0_conv)
  ultimately show ?thesis by (simp add: run_destructor_def GetElementNumber_def)
qed

lemma Loan_empty: "nAvailable s = 0 \<Longrightarrow> Loan s = Inl Bad_alloc"
  by (simp add: Loan_def)

lemma Loan_good:
  assumes good: "pool_good out s" and "0 < nAvailable s"
  defines "p \<equiv> ptrs s ! (nAvailable s - 1)"
  defines "s' \<equiv> s\<lparr>nAvailable := nAvailable s - 1,
                 historic_min_available := min (historic_min_available s) (nAvailable s - 1)\<rparr>"
  shows "Loan s = Inr (p, s') \<and> p \<in> pool_blocks s \<and> p \<notin> out \<and> pool_good (insert p out) s'
       \<and> pool_blocks s' = pool_blocks s"
proof -
  have wf: "pool_wf s" and len: "nAvailable s - 1 < length (ptrs s)"
    using good assms(2) by (auto simp: pool_good_def pool_wf_def)
  have "take (Suc (nAvailable s - 1)) (ptrs s) = take (nAvailable s - 1) (ptrs s) @ [p]"
    unfolding p_def using len by (rule take_Suc_conv_app_nth)
  then have free: "pool_free s = pool_free s' @ [p]"
    using assms(2) by (simp add: pool_free_def s'_def)
  have "pool_wf s'" using wf assms(2) by (auto simp: pool_wf_def s'_def)
  moreover have "pool_blocks s' = pool_blocks s"
    by (rule pool_blocks_cong) (simp_all add: s'_def)
  moreover have "Loan s = Inr (p, s')"
    using wf len assms(2) by (simp add: Loan_def Let_def p_def s'_def pool_wf_def)
  ultimately show ?thesis
    using good free by (auto simp: pool_good_def)
qed

lemma Accept_good:
  assumes good: "pool_good out s" and "p \<in> out"
  defines "s' \<equiv> s\<lparr>ptrs := (ptrs s)[nAvailable s := p], nAvailable := nAvailable s + 1\<rparr>"
  shows "\<exists>w'. run_destructor p s w = Inr w' \<and> Accept p (s, w) = Inr (s', w')"
    and "pool_good (out - {p}) s' \<and> pool_blocks s' = pool_blocks s"
proof -
  have wf: "pool_wf s" and "p \<in> pool_blocks s" and dist: "distinct (pool_free s)"
    using good assms(2) by (auto simp: pool_good_def)
  then have nn: "p \<noteq> nullptr" using pool_blocks_not_null by blast
  have "finite out" using good by (metis finite_Un finite_imageI finite_lessThan pool_blocks_def pool_good_def)
  then have "0 < card out" using assms(2) by (auto simp: card_gt_0_iff)
  then have room: "nAvailable s < nElementsTotal s" using pool_good_card [OF good] by linarith
  have len: "length (ptrs s) = nElementsTotal s" using wf by (simp add: pool_wf_def)
  obtain w' where w': "run_destructor p s w = Inr w'"
    using run_destructor_ok [OF wf] by blast
  then show "\<exists>w'. run_destructor p s w = Inr w' \<and> Accept p (s, w) = Inr (s', w')"
    using nn wf room len by (simp add: Accept_def s'_def pool_wf_def)
  have "pool_free s' = pool_free s @ [p]"
    using room len by (simp add: pool_free_def s'_def take_Suc_conv_app_nth)
  moreover have "pool_wf s'" using wf room by (simp add: pool_wf_def s'_def)
  moreover have blocks: "pool_blocks s' = pool_blocks s"
    by (rule pool_blocks_cong) (simp_all add: s'_def)
  ultimately show "pool_good (out - {p}) s' \<and> pool_blocks s' = pool_blocks s"
    using good assms(2) by (auto simp: pool_good_def)
qed

lemma Allocate_good:
  assumes "allocator_ok A" and "size_fits sz n" and "0 < sz" and "0 < al"
    and "AllocatorState_Allocate A sz al (AllocatorState_new n) h = (s, h')"
    and "initialized s"
  shows "pool_good {} s \<and> nElementsTotal s = unat n \<and> nAvailable s = unat n
       \<and> historic_min_available s = unat n \<and> sizeSharedT s = sz \<and> alignSharedT s = al
       \<and> unat al dvd unat (rawAligned s)
       \<and> unat (rm_raw (memoryRaw s)) \<le> unat (rawAligned s)
       \<and> unat (rawAligned s) + unat sz * unat n
           \<le> unat (rm_raw (memoryRaw s)) + unat (rm_rawSize (memoryRaw s))"
proof -
  obtain r mr h1 where raw: "RawMemory_Allocate A sz al (RawMemory_new n) h = (r, mr, h1)"
    by (metis prod_cases3)
  obtain q mp h2 where arr: "RawMemory_Allocate A 8 8 (RawMemory_new n) h1 = (q, mp, h2)"
    by (metis prod_cases3)
  from assms(5,6) raw arr have nn: "r \<noteq> nullptr" "q \<noteq> nullptr"
    and s: "s = (AllocatorState_new n)\<lparr>sizeSharedT := sz, alignSharedT := al, memoryRaw := mr,
        memoryPtrsToRaw := mp, rawAligned := r, ptrsAligned := q,
        ptrs := map (block_addr r sz) [0 ..< unat n], initialized := True\<rparr>"
    by (auto simp: AllocatorState_Allocate_def AllocatorState_new_def Let_def split: if_splits)
  from RawMemory_Allocate_region [OF assms(1) _ assms(4) _ raw nn(1)] assms(2)
  have fits: "region_fits r sz (unat n)" and dv: "unat al dvd unat r"
    and raw_le: "unat (rm_raw mr) \<le> unat r"
    and in_raw: "unat r + unat sz * unat n \<le> unat (rm_raw mr) + unat (rm_rawSize mr)"
    by (simp_all add: RawMemory_new_def)
  have wf: "pool_wf s"
    using nn fits assms(3) by (simp add: pool_wf_def s AllocatorState_new_def)
  have "pool_free s = map (block_addr r sz) [0 ..< unat n]"
    by (simp add: pool_free_def s AllocatorState_new_def)
  moreover have "distinct (map (block_addr r sz) [0 ..< unat n])"
    using block_addr_inject [OF fits assms(3)] by (auto simp: distinct_map inj_on_def)
  moreover have "pool_blocks s = block_addr r sz ` {..< unat n}"
    by (simp add: pool_blocks_def s AllocatorState_new_def)
  ultimately have "pool_good {} s"
    using wf by (auto simp: pool_good_def)
  then show ?thesis using dv raw_le in_raw by (simp add: s AllocatorState_new_def)
qed

lemma Allocate_failed:
  assumes "AllocatorState_Allocate A sz al (AllocatorState_new n) h = (s, h')"
    and "\<not> initialized s"
  shows "nAvailable s = 0 \<and> nElementsTotal s = unat n \<and> ptrs s = []"
proof -
  obtain r mr h1 where raw: "RawMemory_Allocate A sz al (RawMemory_new n) h = (r, mr, h1)"
    by (metis prod_cases3)
  obtain q mp h2 where arr: "RawMemory_Allocate A 8 8 (RawMemory_new n) h1 = (q, mp, h2)"
    by (metis prod_cases3)
  from assms raw arr show ?thesis
    by (auto simp: AllocatorState_Allocate_def AllocatorState_new_def Let_def split: if_splits)
qed

section \<open>The heap pool is a block pool\<close>

definition heap_loan :: "'w alloc_state \<times> 'w \<Rightarrow> (addr \<times> 'w alloc_state \<times> 'w) option" where
  "heap_loan sw =
     (case Loan (fst sw) of Inl _ \<Rightarrow> None | Inr (p, s') \<Rightarrow> Some (p, s', snd sw))"

definition heap_accept :: "addr \<Rightarrow> 'w alloc_state \<times> 'w \<Rightarrow> ('w alloc_state \<times> 'w) option" where
  "heap_accept p sw = (case Accept p sw of Inl _ \<Rightarrow> None | Inr sw' \<Rightarrow> Some sw')"

interpretation hp: block_pool heap_loan heap_accept
  "\<lambda>out sw. pool_good out (fst sw)" "\<lambda>sw. pool_blocks (fst sw)"
proof (unfold_locales, goal_cases)
  case (1 out s)
  then show ?case by (simp add: pool_blocks_def)
next
  case (2 out s)
  then show ?case by (auto simp: pool_good_def)
next
  case (3 out sw)
  then have "0 < nAvailable (fst sw)" using pool_good_full by blast
  from Loan_good [OF 3(1) this] show ?case by (auto simp: heap_loan_def)
next
  case (4 sw)
  then have "nAvailable (fst sw) = 0" using pool_good_full by blast
  then show ?case by (simp add: heap_loan_def Loan_empty)
next
  case (5 out sw b)
  obtain s w where sw: "sw = (s, w)" by fastforce
  with 5 have g: "pool_good out s" "b \<in> out" by simp_all
  from Accept_good(1) [OF g, of w] Accept_good(2) [OF g] show ?case
    by (auto simp: heap_accept_def sw)
qed

section \<open>What the statistics report\<close>

text \<open>
  Along a run the recorded minimum follows the peak: with \<open>pk\<close> blocks held at the worst moment so
  far, \<open>historic_min_available + pk\<close> is the size of the pool.
\<close>

lemma heap_run_historic:
  assumes "pool_good (set held) s" and "distinct held"
    and "historic_min_available s + pk = nElementsTotal s" and "length held \<le> pk"
    and "run_clients heap_loan heap_accept os held (s, w) = Some (held', s', w')"
  shows "historic_min_available s' + max pk (peak_held heap_loan heap_accept os held (s, w))
       = nElementsTotal s \<and> nElementsTotal s' = nElementsTotal s"
  using assms
proof (induction os arbitrary: held s w pk)
  case Nil
  then show ?case by (simp add: max_absorb1)
next
  case (Cons a os)
  have card: "length held + nAvailable s = nElementsTotal s"
    using pool_good_card [OF Cons.prems(1)] distinct_card [OF Cons.prems(2)] by simp
  show ?case
  proof (cases a)
    case Take
    show ?thesis
    proof (cases "nAvailable s")
      case 0
      then have "heap_loan (s, w) = None" by (simp add: heap_loan_def Loan_empty)
      with Cons Take show ?thesis by simp
    next
      case (Suc k)
      let ?p = "ptrs s ! k"
      let ?s1 = "s\<lparr>nAvailable := k, historic_min_available := min (historic_min_available s) k\<rparr>"
      let ?P = "peak_held heap_loan heap_accept os (held @ [?p]) (?s1, w)"
      have L: "Loan s = Inr (?p, ?s1)" "?p \<notin> set held" "pool_good (set (held @ [?p])) ?s1"
        using Loan_good [OF Cons.prems(1)] Suc by simp_all
      then have step: "heap_loan (s, w) = Some (?p, ?s1, w)" by (simp add: heap_loan_def)
      have "historic_min_available ?s1 + max pk (length held + 1) = nElementsTotal ?s1"
        using Cons.prems(3,4) card Suc by simp
      from Cons.IH [OF L(3) _ this _] L(2) Cons.prems(2,5) Take step
      have ih: "historic_min_available s' + max (max pk (length held + 1)) ?P = nElementsTotal s
          \<and> nElementsTotal s' = nElementsTotal s" by simp
      have "length held + 1 \<le> ?P"
        using peak_held_ge [of "held @ [?p]" heap_loan heap_accept os "(?s1, w)"] by simp
      then have "max (max pk (length held + 1)) ?P = max pk (max (length held) ?P)"
        by (simp add: max_def)
      with ih Take step show ?thesis by simp
    qed
  next
    case (Give k)
    show ?thesis
    proof (cases "k < length held")
      case False
      with Cons Give show ?thesis by simp
    next
      case True
      let ?s1 = "s\<lparr>ptrs := (ptrs s)[nAvailable s := held ! k], nAvailable := nAvailable s + 1\<rparr>"
      from Accept_good(1) [OF Cons.prems(1) nth_mem [OF True], of w] obtain w1 where
        step: "heap_accept (held ! k) (s, w) = Some (?s1, w1)" by (auto simp: heap_accept_def)
      let ?P = "peak_held heap_loan heap_accept os (drop_nth k held) (?s1, w1)"
      have g: "pool_good (set (drop_nth k held)) ?s1"
        using Accept_good(2) [OF Cons.prems(1) nth_mem [OF True]]
        by (simp add: set_drop_nth [OF Cons.prems(2) True])
      have "historic_min_available ?s1 + pk = nElementsTotal ?s1" using Cons.prems(3) by simp
      from Cons.IH [OF g distinct_drop_nth [OF Cons.prems(2)] this] Cons.prems(4,5) Give True step
      have ih: "historic_min_available s' + max pk ?P = nElementsTotal s
          \<and> nElementsTotal s' = nElementsTotal s" by (simp add: length_drop_nth [OF True])
      have "max pk (max (length held) ?P) = max pk ?P" using Cons.prems(4) by (simp add: max_def)
      with ih Give True step show ?thesis by simp
    qed
  qed
qed

section \<open>A concrete byte allocator\<close>

text \<open>A bump allocator, for the examples: it hands out the next address until the space is used up.\<close>

definition bump_allocator :: "addr byte_allocator" where
  "bump_allocator =
     \<lparr>allocate_bytes = (\<lambda>b next. if next \<noteq> nullptr \<and> unat next + unat b \<le> 2 ^ 64
                               then (Some next, next + b) else (None, next)),
      deallocate_bytes = (\<lambda>p b next. next)\<rparr>"

lemma bump_allocator_ok: "allocator_ok bump_allocator"
  by (simp add: allocator_ok_def bump_allocator_def)

definition example_pool :: "unit alloc_state" where
  "example_pool = fst (AllocatorState_Allocate bump_allocator 24 8 (AllocatorState_new 3) 4100)"

lemma example_pool_initialized: "initialized example_pool"
  by (simp add: example_pool_def AllocatorState_Allocate_def RawMemory_Allocate_def
      AllocatorState_new_def RawMemory_new_def bump_allocator_def alignof_max_align_t_def
      std_align_def Let_def)

section \<open>Properties of the heap pool\<close>

text \<open>Blocks of one pool: where they lie, and that two of them share no byte.\<close>

lemma pool_block_bytes:
  assumes "pool_wf s" and "p \<in> pool_blocks s"
  shows "block_bytes p (sizeSharedT s)
       \<subseteq> {unat (rawAligned s) ..< unat (rawAligned s) + unat (sizeSharedT s) * nElementsTotal s}"
  using assms block_bytes_inside by (fastforce simp: pool_wf_def pool_blocks_def)

lemma pool_block_disjoint:
  assumes "pool_wf s" and "p \<in> pool_blocks s" and "q \<in> pool_blocks s" and "p \<noteq> q"
  shows "block_bytes p (sizeSharedT s) \<inter> block_bytes q (sizeSharedT s) = {}"
proof -
  from assms obtain i j where "p = block_addr (rawAligned s) (sizeSharedT s) i"
    "q = block_addr (rawAligned s) (sizeSharedT s) j" "i < nElementsTotal s" "j < nElementsTotal s" "i \<noteq> j"
    by (auto simp: pool_blocks_def)
  with assms(1) show ?thesis 
    using block_bytes_disjoint [of "rawAligned s" "sizeSharedT s" "nElementsTotal s" i j]
    by (simp add: pool_wf_def)
qed

lemma pool_block_aligned:
  assumes "pool_wf s" and "p \<in> pool_blocks s" and "al dvd unat (rawAligned s)" and "al dvd unat (sizeSharedT s)"
  shows "al dvd unat p"
proof -
  from assms(2) obtain i where "i < nElementsTotal s" "p = block_addr (rawAligned s) (sizeSharedT s) i"
    by (auto simp: pool_blocks_def)
  with assms(1) have "unat p = unat (rawAligned s) + unat (sizeSharedT s) * i"
    by (auto simp: pool_wf_def intro!: unat_block_addr)
  with assms(3,4) show ?thesis by simp
qed


lemma example_pool_eq:
  "AllocatorState_Allocate bump_allocator 24 8 (AllocatorState_new 3) 4100 =
   (example_pool, snd (AllocatorState_Allocate bump_allocator 24 8
      (AllocatorState_new 3 :: unit alloc_state) 4100))"
  by (simp add: example_pool_def)


text \<open>
  The statistics tell the truth about every history: after any sequence of loans and returns,
  \<open>nOutstanding\<close> is the number of blocks held, \<open>nAvailable\<close> the rest, and
  \<open>historic_min_available\<close> the pool size less the largest number of blocks that were ever held
  together.
\<close>

lemma heap_pool_statistics:
  assumes "allocator_ok A" and "size_fits sz n" and "0 < sz" and "0 < al"
    and "AllocatorState_Allocate A sz al (AllocatorState_new n) h = (s, h')" and "initialized s"
    and "run_clients heap_loan heap_accept os [] (s, w) = Some (held, s', w')"
  shows "Statistics s' =
     (length held, unat n - length held, unat n - peak_held heap_loan heap_accept os [] (s, w))"
proof -
  note new = Allocate_good [OF assms(1-6)]
  from hp.run_good [of "[]" "(s, w)" os] new assms(7) have
    d: "distinct held" and good: "pool_good (set held) s'" by auto
  have hist: "historic_min_available s' + peak_held heap_loan heap_accept os [] (s, w) = unat n"
    "nElementsTotal s' = unat n"
    using heap_run_historic [OF _ _ _ _ assms(7), of 0] new by simp_all
  then show ?thesis
    using pool_good_card [OF good] distinct_card [OF d] by (simp add: Statistics_def) linarith
qed

lemma heap_pool_statistics_witness:
  "\<exists>held s' w'. run_clients heap_loan heap_accept [Take, Take, Give 0] [] (example_pool, ()) =
     Some (held, s', w') \<and> Statistics s' = (1, 2, 1)"
proof -
  have fits: "size_fits 24 3" by (simp add: size_fits_def)
  note new = Allocate_good [OF bump_allocator_ok fits _ _ example_pool_eq example_pool_initialized]
  then have good: "pool_good {} example_pool" by simp
  obtain p s1 where p: "heap_loan (example_pool, ()) = Some (p, s1, ())"
    "pool_good {p} s1" "pool_blocks s1 = pool_blocks example_pool" "nAvailable s1 = 2"
    using Loan_good [OF good] new by (auto simp: heap_loan_def)
  then have "0 < nAvailable s1" by simp
  from Loan_good [OF p(2) this] obtain q s2 where q: "heap_loan (s1, ()) = Some (q, s2, ())"
    "q \<noteq> p" "pool_good {q, p} s2"
    by (auto simp: heap_loan_def)
  from Accept_good [OF q(3), of p] obtain s3 where r: "heap_accept p (s2, ()) = Some (s3, ())"
    by (auto simp: heap_accept_def)
  have run: "run_clients heap_loan heap_accept [Take, Take, Give 0] [] (example_pool, ()) =
      Some ([q], s3, ())"
    using p(1) q(1) r by (simp add: drop_nth_def)
  have "peak_held heap_loan heap_accept [Take, Take, Give 0] [] (example_pool, ()) = 2"
    using p(1) q(1) r by (simp add: drop_nth_def)
  with heap_pool_statistics [OF bump_allocator_ok fits _ _ example_pool_eq
      example_pool_initialized run] run show ?thesis by simp
qed

text \<open>
  \<open>RawMemory::Allocate\<close> does not notice that its size computation wraps: asked for
  \<open>2 ^ 61 + 1\<close> elements of 16 bytes it requests 32 bytes, gets them, and reports success. The
  memory it owns is then far smaller than the one it promises.
\<close>

lemma RawMemory_Allocate_overflow:
  "\<exists>q m h. RawMemory_Allocate bump_allocator 16 8 (RawMemory_new (2 ^ 61 + 1)) 4096 = (q, m, h)
     \<and> q \<noteq> nullptr \<and> unat (rm_rawSize m) = 32
     \<and> unat (16 :: size_t) * unat (rm_nElementsTotal m) = 2 ^ 65 + 16"
  by (simp add: RawMemory_Allocate_def RawMemory_new_def bump_allocator_def
      alignof_max_align_t_def std_align_def Let_def)

end
