(* ===== verification/Heap_Shared.thy ===== *)
theory Heap_Shared
  imports Heap_Pool
begin

text \<open>
  \<^verbatim>\<open>MempoolHeap/src/MemPoolHeap.h\<close>, class \<open>SharedPointerAllocator\<close>: the allocator that
  \<open>std::allocate_shared\<close> draws control blocks from, how it finds out the size of a control block, and
  how long the pool lives. A \<open>std::shared_ptr\<close> to the pool is \<^const>\<open>None\<close> when it is null.

  The sizes that the compiler and the standard library fix are in \<open>layout\<close>: of the pool's state
  object, and of the block that holds a control block, a copy of the allocator and the object, with
  the offset of the object in it.
\<close>

record layout =
  sizeof_state :: size_t
  sizeof_cb :: size_t
  alignof_cb :: size_t
  object_offset :: size_t

definition layout_ok :: "layout \<Rightarrow> bool" where
  "layout_ok L \<longleftrightarrow> 0 < sizeof_cb L \<and> 0 < alignof_cb L \<and> alignof_cb L \<le> 16
     \<and> unat (alignof_cb L) dvd unat (sizeof_cb L) \<and> object_offset L < sizeof_cb L
     \<and> unat (sizeof_cb L) + 16 < 2 ^ 64"

section \<open>SharedPointerAllocator\<close>

text \<open>\<open>std::allocate_shared<StateT>\<close> of a new, unallocated pool.\<close>

definition make_state ::
  "'h byte_allocator \<Rightarrow> layout \<Rightarrow> size_t \<Rightarrow> 'h \<Rightarrow> ('w alloc_state \<times> 'h) result" where
  "make_state A L n h =
     (case allocate_bytes A (sizeof_state L) h of
        (None, _) \<Rightarrow> Inl Bad_alloc
      | (Some _, h') \<Rightarrow> Inr (AllocatorState_new n, h'))"

text \<open>
  The converting copy constructor, for a value type of \<open>sizeT\<close> bytes. The first component of the
  result tells whether the copy still refers to the pool. A null state is reported and then
  dereferenced all the same.
\<close>

definition rebind_copy ::
  "'h byte_allocator \<Rightarrow> size_t \<Rightarrow> size_t \<Rightarrow> 'w alloc_state option \<Rightarrow> 'h
   \<Rightarrow> (bool \<times> 'w alloc_state \<times> 'h) result" where
  "rebind_copy A sizeT alignT st h =
     (case st of
        None \<Rightarrow> Inl Null_deref
      | Some s \<Rightarrow>
          if Initialized s
          then (if TotalElementSize s < sizeT then Inr (False, s, h) else Inr (True, s, h))
          else (let (s', h') = AllocatorState_Allocate A sizeT alignT s h in Inr (True, s', h')))"

definition sp_allocate :: "'w alloc_state option \<Rightarrow> nat \<Rightarrow> (addr \<times> 'w alloc_state option) result" where
  "sp_allocate st n =
     (case st of
        None \<Rightarrow> Inr (nullptr, None)
      | Some s \<Rightarrow>
          if 1 < n then Inr (nullptr, Some s)
          else (case Loan s of Inl e \<Rightarrow> Inl e | Inr (p, s') \<Rightarrow> Inr (p, Some s')))"

definition sp_deallocate ::
  "addr \<Rightarrow> 'w alloc_state option \<times> 'w \<Rightarrow> ('w alloc_state option \<times> 'w) result" where
  "sp_deallocate p sw =
     (case sw of
        (None, w) \<Rightarrow> Inr (None, w)
      | (Some s, w) \<Rightarrow>
          (case Accept p (s, w) of Inl e \<Rightarrow> Inl e | Inr (s', w') \<Rightarrow> Inr (Some s', w')))"

text \<open>
  \<open>std::allocate_shared<T> (allocator)\<close>: copy the allocator, rebound to the block type, ask the copy
  for one block and construct in it. It does not check the block for null.
\<close>

definition std_allocate_shared ::
  "'h byte_allocator \<Rightarrow> layout \<Rightarrow> 'w alloc_state option \<Rightarrow> 'h \<Rightarrow> (addr \<times> 'w alloc_state \<times> 'h) result" where
  "std_allocate_shared A L st h =
     (case rebind_copy A (sizeof_cb L) (alignof_cb L) st h of
        Inl e \<Rightarrow> Inl e
      | Inr (keeps, s, h') \<Rightarrow>
          (case sp_allocate (if keeps then Some s else None) 1 of
             Inl e \<Rightarrow> Inl e
           | Inr (p, None) \<Rightarrow> Inl Null_deref
           | Inr (p, Some s') \<Rightarrow> if p = nullptr then Inl Null_deref else Inr (p, s', h')))"

text \<open>\<open>~AllocatorState\<close>: the members go in the reverse of their order of declaration.\<close>

definition AllocatorState_destroy :: "'h byte_allocator \<Rightarrow> 'w alloc_state \<Rightarrow> 'h \<Rightarrow> 'h" where
  "AllocatorState_destroy A s h =
     snd (RawMemory_destroy A (memoryRaw s) (snd (RawMemory_destroy A (memoryPtrsToRaw s) h)))"

text \<open>
  The constructor: a throw-away shared pointer from a pool of one block reveals the size and alignment
  of the blocks. If the real pool cannot be set up with them, the allocator keeps no pool.
\<close>

definition SharedPointerAllocator_new ::
  "'h byte_allocator \<Rightarrow> layout \<Rightarrow> size_t \<Rightarrow> 'w \<Rightarrow> 'h \<Rightarrow> ('w alloc_state option \<times> 'w \<times> 'h) result" where
  "SharedPointerAllocator_new A L nElements w h =
     (case make_state A L nElements h of
        Inl e \<Rightarrow> Inl e
      | Inr (state, h1) \<Rightarrow>
     (case make_state A L 1 h1 of
        Inl e \<Rightarrow> Inl e
      | Inr (oneOff, h2) \<Rightarrow>
     (case std_allocate_shared A L (Some oneOff) h2 of
        Inl e \<Rightarrow> Inl e
      | Inr (p, oneOff1, h3) \<Rightarrow>
     (case sp_deallocate p (Some oneOff1, w) of
        Inl e \<Rightarrow> Inl e
      | Inr (None, _) \<Rightarrow> Inl Null_deref
      | Inr (Some oneOff2, w1) \<Rightarrow>
          let (sizeT, alignT) = GetSizeAndAlignment oneOff2;
              (state1, h4) = AllocatorState_Allocate A sizeT alignT state h3;
              h5 = AllocatorState_destroy A oneOff2 h4
          in if Initialized state1 then Inr (Some state1, w1, h5)
             else Inr (None, w1, AllocatorState_destroy A state1 h5)))))"

text \<open>The member \<open>allocate_shared\<close>: null without a pool, and null in place of \<open>std::bad_alloc\<close>.\<close>

definition sp_allocate_shared ::
  "'h byte_allocator \<Rightarrow> layout \<Rightarrow> 'w alloc_state option \<Rightarrow> 'h
   \<Rightarrow> (addr \<times> 'w alloc_state option \<times> 'h) result" where
  "sp_allocate_shared A L st h =
     (case st of
        None \<Rightarrow> Inr (nullptr, None, h)
      | Some s \<Rightarrow>
          (case std_allocate_shared A L st h of
             Inr (p, s', h') \<Rightarrow> Inr (p, Some s', h')
           | Inl Bad_alloc \<Rightarrow>
               (case rebind_copy A (sizeof_cb L) (alignof_cb L) st h of
                  Inl e \<Rightarrow> Inl e
                | Inr (_, s', h') \<Rightarrow> Inr (nullptr, Some s', h'))
           | Inl e \<Rightarrow> Inl e))"

definition sp_SetDestructor ::
  "(size_t \<Rightarrow> 'w \<Rightarrow> 'w) option \<Rightarrow> 'w alloc_state option \<Rightarrow> 'w alloc_state option" where
  "sp_SetDestructor func st = (case st of None \<Rightarrow> None | Some s \<Rightarrow> Some (SetDestructor func s))"

definition sp_statistics :: "'w alloc_state option \<Rightarrow> nat \<times> nat \<times> nat" where
  "sp_statistics st = (case st of None \<Rightarrow> (0, 0, 0) | Some s \<Rightarrow> Statistics s)"

text \<open>As in the source, \<open>element_size\<close> reports the number of blocks, not their size.\<close>

definition element_size :: "'w alloc_state option \<Rightarrow> nat" where
  "element_size st = (case st of None \<Rightarrow> 0 | Some s \<Rightarrow> Capacity s)"

definition capacity :: "'w alloc_state option \<Rightarrow> nat" where
  "capacity st = (case st of None \<Rightarrow> 0 | Some s \<Rightarrow> Capacity s)"

section \<open>A pool that the constructor has set up\<close>

text \<open>What the constructor establishes and every operation keeps: a good pool of \<open>layout\<close> blocks.\<close>

definition sp_good :: "layout \<Rightarrow> addr set \<Rightarrow> 'w alloc_state \<Rightarrow> bool" where
  "sp_good L out s \<longleftrightarrow> pool_good out s \<and> sizeSharedT s = sizeof_cb L"

lemma SetDestructor_simps [simp]:
  "pool_wf (SetDestructor f s) = pool_wf s"
  "pool_free (SetDestructor f s) = pool_free s"
  "pool_blocks (SetDestructor f s) = pool_blocks s"
  "sizeSharedT (SetDestructor f s) = sizeSharedT s"
  by (simp_all add: pool_wf_def pool_free_def pool_blocks_def SetDestructor_def)

lemma sp_good_SetDestructor: "sp_good L out (SetDestructor f s) = sp_good L out s"
  by (simp add: sp_good_def pool_good_def)

lemma std_allocate_shared_good:
  assumes "sp_good L out s"
  shows "std_allocate_shared A L (Some s) h =
     (case Loan s of Inl e \<Rightarrow> Inl e | Inr (p, s') \<Rightarrow> Inr (p, s', h))"
proof (cases "nAvailable s")
  case 0
  then show ?thesis
    using assms by (simp add: std_allocate_shared_def rebind_copy_def sp_allocate_def Loan_empty
        sp_good_def pool_good_def pool_wf_def Initialized_def TotalElementSize_def)
next
  case (Suc k)
  then have "pool_good out s" "0 < nAvailable s" using assms by (simp_all add: sp_good_def)
  from Loan_good [OF this] have L: "\<exists>p s'. Loan s = Inr (p, s') \<and> p \<in> pool_blocks s" by blast
  then obtain p s' where p: "Loan s = Inr (p, s')" "p \<in> pool_blocks s" by blast
  moreover have "p \<noteq> nullptr"
    using p(2) pool_blocks_not_null assms by (auto simp: sp_good_def pool_good_def)
  ultimately show ?thesis
    using assms by (simp add: std_allocate_shared_def rebind_copy_def sp_allocate_def
        sp_good_def pool_good_def pool_wf_def Initialized_def TotalElementSize_def)
qed

lemma sp_allocate_shared_empty:
  assumes "sp_good L out s" and "nAvailable s = 0"
  shows "sp_allocate_shared A L (Some s) h = Inr (nullptr, Some s, h)"
proof -
  have "Initialized s" "TotalElementSize s = sizeof_cb L"
    using assms(1) by (simp_all add: sp_good_def pool_good_def pool_wf_def Initialized_def
        TotalElementSize_def)
  then show ?thesis
    using std_allocate_shared_good [OF assms(1), of A h] Loan_empty [OF assms(2)]
    by (simp add: sp_allocate_shared_def rebind_copy_def)
qed

lemma sp_allocate_shared_good:
  assumes "sp_good L out s" and "0 < nAvailable s"
  shows "\<exists>p s'. sp_allocate_shared A L (Some s) h = Inr (p, Some s', h) \<and> Loan s = Inr (p, s')
      \<and> p \<noteq> nullptr \<and> p \<in> pool_blocks s \<and> p \<notin> out \<and> sp_good L (insert p out) s'
      \<and> pool_blocks s' = pool_blocks s \<and> nAvailable s' = nAvailable s - 1
      \<and> nElementsTotal s' = nElementsTotal s \<and> rawAligned s' = rawAligned s
      \<and> destructorCallback s' = destructorCallback s"
proof -
  have g: "pool_good out s" using assms(1) by (simp add: sp_good_def)
  note L = Loan_good [OF g assms(2)]
  show ?thesis
    using L assms pool_blocks_not_null [of s] std_allocate_shared_good [OF assms(1), of A h]
    by (auto simp: sp_allocate_shared_def sp_good_def pool_good_def)
qed

lemma Accept_sp_good:
  assumes "sp_good L out s" and "p \<in> out"
  shows "\<exists>s' w'. run_destructor p s w = Inr w' \<and> Accept p (s, w) = Inr (s', w')
      \<and> sp_good L (out - {p}) s' \<and> pool_blocks s' = pool_blocks s
      \<and> nAvailable s' = nAvailable s + 1 \<and> nElementsTotal s' = nElementsTotal s
      \<and> rawAligned s' = rawAligned s \<and> destructorCallback s' = destructorCallback s"
proof -
  have g: "pool_good out s" using assms(1) by (simp add: sp_good_def)
  show ?thesis
    using Accept_good(1) [OF g assms(2), of w] Accept_good(2) [OF g assms(2)] assms(1)
    by (auto simp: sp_good_def)
qed

section \<open>The constructor\<close>

lemma AllocatorState_Allocate_callback:
  "destructorCallback (fst (AllocatorState_Allocate A sz al s h)) = destructorCallback s"
  by (simp add: AllocatorState_Allocate_def Let_def split: prod.splits)

lemma size_fits_1: "unat sz + 16 < 2 ^ 64 \<Longrightarrow> size_fits sz 1"
  by (simp add: size_fits_def)

text \<open>The throw-away pool of one block either reveals the block size or lets \<open>std::bad_alloc\<close> out.\<close>

lemma one_off_shared:
  assumes "allocator_ok A" and "layout_ok L"
  shows "std_allocate_shared A L (Some (AllocatorState_new 1 :: 'w alloc_state)) h = Inl Bad_alloc \<or>
     (\<exists>p s h'. std_allocate_shared A L (Some (AllocatorState_new 1 :: 'w alloc_state)) h = Inr (p, s, h')
        \<and> pool_good {p} s \<and> sizeSharedT s = sizeof_cb L \<and> alignSharedT s = alignof_cb L
        \<and> destructorCallback s = None)"
proof -
  obtain s1 :: "'w alloc_state" and h1 where all: "AllocatorState_Allocate A (sizeof_cb L) (alignof_cb L)
      (AllocatorState_new 1) h = (s1, h1)" by fastforce
  have cb: "destructorCallback s1 = None"
    using AllocatorState_Allocate_callback [of A "sizeof_cb L" "alignof_cb L" "AllocatorState_new 1 :: 'w alloc_state" h]
    by (simp add: all) (simp add: AllocatorState_new_def)
  have run: "std_allocate_shared A L (Some (AllocatorState_new 1)) h =
      (case Loan s1 of Inl e \<Rightarrow> Inl e
       | Inr (p, s') \<Rightarrow> if p = nullptr then Inl Null_deref else Inr (p, s', h1))"
    using all by (simp add: std_allocate_shared_def rebind_copy_def sp_allocate_def Initialized_def
        AllocatorState_new_def split: sum.split)
  show ?thesis
  proof (cases "initialized s1")
    case False
    with Allocate_failed [OF all] run show ?thesis by (simp add: Loan_empty)
  next
    case True
    have "pool_good {} s1" "nAvailable s1 = 1" "sizeSharedT s1 = sizeof_cb L"
      "alignSharedT s1 = alignof_cb L"
      using Allocate_good [OF assms(1) size_fits_1 _ _ all True] assms(2)
      by (simp_all add: layout_ok_def)
    moreover from Loan_good [OF this(1)] \<open>nAvailable s1 = 1\<close> obtain p s' where
      L: "Loan s1 = Inr (p, s')" "p \<in> pool_blocks s1" "pool_good {p} s'"
      "sizeSharedT s' = sizeSharedT s1" "alignSharedT s' = alignSharedT s1"
      "destructorCallback s' = destructorCallback s1" by auto
    moreover have "p \<noteq> nullptr"
      using \<open>pool_good {} s1\<close> L(2) pool_blocks_not_null by (auto simp: pool_good_def)
    then have "std_allocate_shared A L (Some (AllocatorState_new 1)) h = Inr (p, s', h1)"
      using run L(1) by simp
    ultimately show ?thesis using cb by fastforce
  qed
qed

definition new_ok :: "layout \<Rightarrow> size_t \<Rightarrow> 'w alloc_state \<Rightarrow> bool" where
  "new_ok L n s \<longleftrightarrow> sp_good L {} s \<and> nElementsTotal s = unat n \<and> nAvailable s = unat n
     \<and> historic_min_available s = unat n \<and> destructorCallback s = None
     \<and> unat (alignof_cb L) dvd unat (rawAligned s)"

lemma SharedPointerAllocator_new_cases:
  fixes w :: 'w
  assumes "allocator_ok A" and "layout_ok L" and "size_fits (sizeof_cb L) n"
  obtains (throws) "SharedPointerAllocator_new A L n w h = Inl Bad_alloc"
  | (no_pool) h' where "SharedPointerAllocator_new A L n w h = Inr (None, w, h')"
  | (pool) s h' where "SharedPointerAllocator_new A L n w h = Inr (Some s, w, h')" "new_ok L n s"
proof -
  note defs = SharedPointerAllocator_new_def make_state_def
  obtain g1 h1 where g1: "allocate_bytes A (sizeof_state L) h = (g1, h1)" by fastforce
  obtain g2 h2 where g2: "allocate_bytes A (sizeof_state L) h1 = (g2, h2)" by fastforce
  consider "g1 = None \<or> g2 = None" | a b where "g1 = Some a" "g2 = Some b"
    by (cases g1; cases g2) auto
  then show thesis
  proof cases
    case 1
    then show ?thesis using g1 g2 by (intro throws) (cases g1; auto simp: defs)
  next
    case 2
    note got = g1 [unfolded 2] g2 [unfolded 2]
    from one_off_shared [OF assms(1,2), where h = h2] show ?thesis
    proof (elim disjE exE conjE)
      assume "std_allocate_shared A L (Some (AllocatorState_new 1 :: 'w alloc_state)) h2 = Inl Bad_alloc"
      then show ?thesis using got by (intro throws) (simp add: defs)
    next
      fix p and s :: "'w alloc_state" and h3
      assume one: "std_allocate_shared A L (Some (AllocatorState_new 1)) h2 = Inr (p, s, h3)"
        and good: "pool_good {p} s" and cb: "destructorCallback s = None"
        and szs: "sizeSharedT s = sizeof_cb L" "alignSharedT s = alignof_cb L"
      obtain s' where acc: "Accept p (s, w) = Inr (s', w)"
        and sz: "sizeSharedT s' = sizeof_cb L" "alignSharedT s' = alignof_cb L"
        using Accept_good(1) [OF good, of p w] szs cb by (auto simp: run_destructor_def)
      obtain s1 h4 where all: "AllocatorState_Allocate A (sizeof_cb L) (alignof_cb L)
          (AllocatorState_new n :: 'w alloc_state) h3 = (s1, h4)" by fastforce
      have new: "SharedPointerAllocator_new A L n w h =
          (let h5 = AllocatorState_destroy A s' h4
           in if Initialized s1 then Inr (Some s1, w, h5)
              else Inr (None, w, AllocatorState_destroy A s1 h5))"
        using got one acc sz all
        by (simp add: defs sp_deallocate_def GetSizeAndAlignment_def Let_def)
      have cb1: "destructorCallback s1 = None"
        using AllocatorState_Allocate_callback [of A "sizeof_cb L" "alignof_cb L" "AllocatorState_new n :: 'w alloc_state" h3]
        by (simp add: all) (simp add: AllocatorState_new_def)
      show ?thesis
      proof (cases "initialized s1")
        case True
        with Allocate_good [OF assms(1,3) _ _ all True] assms(2) cb1 have "new_ok L n s1"
          by (simp add: new_ok_def sp_good_def layout_ok_def)
        with True new show ?thesis by (intro pool) (simp_all add: Initialized_def Let_def)
      next
        case False
        with new show ?thesis by (intro no_pool) (simp add: Initialized_def Let_def)
      qed
    qed
  qed
qed

section \<open>How long the pool lives\<close>

text \<open>
  Every control block carries a copy of the allocator, so the pool's \<open>use_count\<close> is one for the
  allocator the program holds and one for each live shared pointer. The last of them to go destroys the
  pool, wherever that happens. The clients' live pointers are \<open>sys_held\<close>.
\<close>

record ('w, 'h) sp_sys =
  sys_pool :: "'w alloc_state"
  sys_world :: 'w
  sys_heap :: 'h
  sys_uses :: nat
  sys_owner :: bool
  sys_freed :: bool
  sys_held :: "addr list"

datatype sp_op = Make_shared | Reset nat | Drop_allocator

definition sp_start :: "'w alloc_state \<Rightarrow> 'w \<Rightarrow> 'h \<Rightarrow> ('w, 'h) sp_sys" where
  "sp_start s w h =
     \<lparr>sys_pool = s, sys_world = w, sys_heap = h, sys_uses = 1, sys_owner = True,
      sys_freed = False, sys_held = []\<rparr>"

definition drop_use :: "'h byte_allocator \<Rightarrow> ('w, 'h) sp_sys \<Rightarrow> ('w, 'h) sp_sys" where
  "drop_use A y =
     (if sys_uses y = 1
      then y\<lparr>sys_uses := 0, sys_freed := True,
             sys_heap := AllocatorState_destroy A (sys_pool y) (sys_heap y)\<rparr>
      else y\<lparr>sys_uses := sys_uses y - 1\<rparr>)"

fun sp_step :: "'h byte_allocator \<Rightarrow> layout \<Rightarrow> sp_op \<Rightarrow> ('w, 'h) sp_sys \<Rightarrow> ('w, 'h) sp_sys result" where
  "sp_step A L Make_shared y =
     (if \<not> sys_owner y then Inr y
      else if sys_freed y then Inl Use_after_free
      else (case sp_allocate_shared A L (Some (sys_pool y)) (sys_heap y) of
              Inl e \<Rightarrow> Inl e
            | Inr (p, None, h) \<Rightarrow> Inl Null_deref
            | Inr (p, Some s, h) \<Rightarrow>
                if p = nullptr then Inr (y\<lparr>sys_pool := s, sys_heap := h\<rparr>)
                else Inr (y\<lparr>sys_pool := s, sys_heap := h, sys_uses := sys_uses y + 1,
                           sys_held := sys_held y @ [p]\<rparr>)))"
| "sp_step A L (Reset k) y =
     (if length (sys_held y) \<le> k then Inr y
      else if sys_freed y then Inl Use_after_free
      else (case Accept (sys_held y ! k) (sys_pool y, sys_world y) of
              Inl e \<Rightarrow> Inl e
            | Inr (s, w) \<Rightarrow>
                Inr (drop_use A (y\<lparr>sys_pool := s, sys_world := w,
                                   sys_held := drop_nth k (sys_held y)\<rparr>))))"
| "sp_step A L Drop_allocator y =
     (if sys_owner y then Inr (drop_use A (y\<lparr>sys_owner := False\<rparr>)) else Inr y)"

fun sp_run :: "'h byte_allocator \<Rightarrow> layout \<Rightarrow> sp_op list \<Rightarrow> ('w, 'h) sp_sys \<Rightarrow> ('w, 'h) sp_sys result" where
  "sp_run A L [] y = Inr y"
| "sp_run A L (a # as) y = (case sp_step A L a y of Inl e \<Rightarrow> Inl e | Inr y' \<Rightarrow> sp_run A L as y')"

definition sys_inv :: "layout \<Rightarrow> ('w, 'h) sp_sys \<Rightarrow> bool" where
  "sys_inv L y \<longleftrightarrow> sys_uses y = length (sys_held y) + (if sys_owner y then 1 else 0)
     \<and> (sys_freed y \<longleftrightarrow> sys_uses y = 0) \<and> distinct (sys_held y)
     \<and> (\<not> sys_freed y \<longrightarrow> sp_good L (set (sys_held y)) (sys_pool y))"

lemma sp_step_inv:
  assumes "sys_inv L y"
  shows "\<exists>y'. sp_step A L a y = Inr y' \<and> sys_inv L y'"
proof (cases a)
  case Make_shared
  show ?thesis
  proof (cases "sys_owner y")
    case False
    with assms show ?thesis by (simp add: Make_shared)
  next
    case True
    with assms have nf: "\<not> sys_freed y" and good: "sp_good L (set (sys_held y)) (sys_pool y)"
      by (auto simp: sys_inv_def)
    show ?thesis
    proof (cases "nAvailable (sys_pool y)")
      case 0
      from sp_allocate_shared_empty [OF good 0, of A "sys_heap y"] True nf assms show ?thesis
        by (simp add: Make_shared sys_inv_def)
    next
      case (Suc n)
      then have "0 < nAvailable (sys_pool y)" by simp
      from sp_allocate_shared_good [OF good this, of A "sys_heap y"] True nf assms show ?thesis
        by (auto simp: Make_shared sys_inv_def)
    qed
  qed
next
  case (Reset k)
  show ?thesis
  proof (cases "k < length (sys_held y)")
    case False
    with assms show ?thesis by (simp add: Reset)
  next
    case True
    with assms have nf: "\<not> sys_freed y" and good: "sp_good L (set (sys_held y)) (sys_pool y)"
      and d: "distinct (sys_held y)" and u: "0 < sys_uses y"
      by (auto simp: sys_inv_def)
    from Accept_sp_good [OF good nth_mem [OF True], of "sys_world y"] obtain s w where
      "Accept (sys_held y ! k) (sys_pool y, sys_world y) = Inr (s, w)"
      "sp_good L (set (drop_nth k (sys_held y))) s"
      by (auto simp: set_drop_nth [OF d True])
    then show ?thesis
      using True nf u assms length_drop_nth [OF True] distinct_drop_nth [OF d, of k]
      by (auto simp: Reset sys_inv_def drop_use_def Suc_le_eq split: if_splits)
  qed
next
  case Drop_allocator
  with assms show ?thesis by (auto simp: sys_inv_def drop_use_def)
qed

lemma sp_run_inv:
  "sys_inv L y \<Longrightarrow> \<exists>y'. sp_run A L as y = Inr y' \<and> sys_inv L y'"
proof (induction as arbitrary: y)
  case Nil
  then show ?case by simp
next
  case (Cons a as)
  then show ?case using sp_step_inv [OF Cons.prems, of A a] by fastforce
qed

section \<open>Properties of the shared-pointer allocator\<close>

lemma takes_sizeSharedT:
  "run_clients heap_loan heap_accept (replicate k Take) held (s, w) = Some (held', y) \<Longrightarrow>
   sizeSharedT (fst y) = sizeSharedT s"
proof (induction k arbitrary: held s w)
  case 0
  then show ?case by auto
next
  case (Suc k)
  then show ?case
    by (auto simp: heap_loan_def Loan_def Let_def split: option.splits sum.splits if_splits)
qed

definition example_layout :: layout where
  "example_layout = \<lparr>sizeof_state = 200, sizeof_cb = 48, alignof_cb = 8, object_offset = 16\<rparr>"

lemma example_layout_ok: "layout_ok example_layout"
  by (simp add: layout_ok_def example_layout_def)

text \<open>
  C22. The constructor, whatever the allocator does: it throws \<open>std::bad_alloc\<close>, or it leaves the
  allocator without a pool, or it sets up a pool of \<open>nElements\<close> free blocks that each fit exactly the
  control block, the object and the allocator copy that \<open>std::allocate_shared\<close> asks for. Then exactly
  \<open>nElements\<close> shared pointers can be made in a row, and the next one is null. It never runs into
  undefined behaviour.
\<close>

theorem SharedPointerAllocator_new_correct:
  assumes "allocator_ok A" and "layout_ok L" and "size_fits (sizeof_cb L) n"
  shows "(case SharedPointerAllocator_new A L n w h of
            Inl e \<Rightarrow> e = Bad_alloc
          | Inr (None, w', h') \<Rightarrow> w' = w
          | Inr (Some s, w', h') \<Rightarrow> w' = w \<and> TotalElementSize s = sizeof_cb L
              \<and> capacity (Some s) = unat n
              \<and> (\<exists>held y. run_clients heap_loan heap_accept (replicate (unat n) Take) [] (s, w) = Some (held, y)
                   \<and> length held = unat n \<and> distinct held
                   \<and> sp_allocate_shared A L (Some (fst y)) h' = Inr (nullptr, Some (fst y), h')))"
  using assms
proof (cases rule: SharedPointerAllocator_new_cases [where w = w and h = h])
  case throws
  then show ?thesis by simp
next
  case (no_pool h')
  then show ?thesis by simp
next
  case (pool s h')
  then have good: "pool_good {} s" and new: "nElementsTotal s = unat n" "sizeSharedT s = sizeof_cb L"
    and hist: "historic_min_available s = unat n"
    by (simp_all add: new_ok_def sp_good_def)
  have card: "card (pool_blocks s) = unat n"
    using card_pool_blocks [of s] good new by (simp add: pool_good_def)
  from hp.take_many [of "{}" "(s, w)" "unat n" "[]"] good card obtain bs y where
    run: "run_clients heap_loan heap_accept (replicate (unat n) Take) [] (s, w) = Some (bs, y)"
    and len: "length bs = unat n" and full: "pool_good (pool_blocks s) (fst y)"
      "pool_blocks (fst y) = pool_blocks s" by auto
  from hp.run_good [of "[]" "(s, w)" "replicate (unat n) Take"] good run have d: "distinct bs" by auto
  from run have sz: "sizeSharedT (fst y) = sizeSharedT s"
    by (rule takes_sizeSharedT)
  have "sp_good L (pool_blocks s) (fst y)" using full(1) sz new(2) by (simp add: sp_good_def)
  moreover have "nAvailable (fst y) = 0" using pool_good_full [OF full(1)] full(2) by simp
  ultimately show ?thesis
    using pool(1) new run len d sp_allocate_shared_empty
    by (auto simp: TotalElementSize_def capacity_def Capacity_def)
qed

lemmas construction_defs = SharedPointerAllocator_new_def make_state_def std_allocate_shared_def
  rebind_copy_def sp_allocate_def sp_deallocate_def AllocatorState_Allocate_def RawMemory_Allocate_def
  AllocatorState_new_def RawMemory_new_def bump_allocator_def alignof_max_align_t_def std_align_def
  Loan_def Accept_def run_destructor_def GetSizeAndAlignment_def Initialized_def
  AllocatorState_destroy_def RawMemory_destroy_def block_addr_def Let_def

lemma example_sp:
  "\<exists>s h'. SharedPointerAllocator_new bump_allocator example_layout 2 () 4096 = Inr (Some s, (), h')
     \<and> new_ok example_layout 2 s"
proof -
  have fits: "size_fits (sizeof_cb example_layout) 2" by (simp add: size_fits_def example_layout_def)
  have "\<exists>s h'. SharedPointerAllocator_new bump_allocator example_layout 2 () 4096 = Inr (Some s, (), h')"
    by (simp add: construction_defs example_layout_def upt_rec)
  with bump_allocator_ok example_layout_ok fits show ?thesis
    by (cases rule: SharedPointerAllocator_new_cases [where w = "()" and h = 4096]) auto
qed

lemma SharedPointerAllocator_new_correct_witness:
  "\<exists>s h'. SharedPointerAllocator_new bump_allocator example_layout 2 () 4096 = Inr (Some s, (), h')
     \<and> capacity (Some s) = 2"
proof -
  have fits: "size_fits (sizeof_cb example_layout) 2" by (simp add: size_fits_def example_layout_def)
  from example_sp obtain s h' where
    "SharedPointerAllocator_new bump_allocator example_layout 2 () 4096 = Inr (Some s, (), h')" by blast
  with SharedPointerAllocator_new_correct [OF bump_allocator_ok example_layout_ok fits, of "()" 4096]
  show ?thesis by simp
qed

text \<open>
  C21. The pool outlives its elements and no longer: for any sequence of making shared pointers,
  releasing them and dropping the allocator, nothing fails and nothing touches a destroyed pool; the
  pool's memory is released exactly when the allocator is gone and the last element has been released.
\<close>

theorem pool_lives_as_long_as_its_elements:
  assumes "new_ok L n s"
  shows "\<exists>y. sp_run A L ops (sp_start s w h) = Inr y
     \<and> (sys_freed y \<longleftrightarrow> \<not> sys_owner y \<and> sys_held y = [])
     \<and> sys_uses y = length (sys_held y) + (if sys_owner y then 1 else 0)
     \<and> (sys_held y \<noteq> [] \<longrightarrow> distinct (sys_held y) \<and> set (sys_held y) \<subseteq> pool_blocks (sys_pool y))"
proof -
  have "sys_inv L (sp_start s w h)"
    using assms by (simp add: sys_inv_def sp_start_def new_ok_def)
  from sp_run_inv [OF this, of A ops] obtain y where
    y: "sp_run A L ops (sp_start s w h) = Inr y" "sys_inv L y" by blast
  then have "sys_held y \<noteq> [] \<Longrightarrow> set (sys_held y) \<subseteq> pool_blocks (sys_pool y)"
    by (auto simp: sys_inv_def sp_good_def pool_good_def)
  with y show ?thesis by (auto simp: sys_inv_def)
qed

lemma pool_lives_as_long_as_its_elements_witness:
  "\<exists>s y. sp_run bump_allocator example_layout [Make_shared, Drop_allocator, Reset 0]
      (sp_start s () 0) = Inr y \<and> (sys_freed y \<longleftrightarrow> \<not> sys_owner y \<and> sys_held y = [])"
proof -
  from example_sp obtain s :: "unit alloc_state" where "new_ok example_layout 2 s" by blast
  from pool_lives_as_long_as_its_elements [OF this,
      of bump_allocator "[Make_shared, Drop_allocator, Reset 0]" "()" 0]
  show ?thesis by blast
qed

end
