(* ===== verification/Heap_Array.thy ===== *)
theory Heap_Array
  imports Heap_Shared
begin

text \<open>
  \<^verbatim>\<open>MempoolHeap/src/MemPoolHeap.h\<close>, class \<open>SharedPointerArrayAllocator\<close>: a pool of pointers,
  each to its own slice of one big memory block. The objects of a slice are constructed when its shared
  pointer is made and destroyed by the pool's destructor callback when it is released; the world of the
  pool is the log of these constructions and destructions.
\<close>

section \<open>Object lifetimes\<close>

datatype lifetime = Ctor addr | Dtor addr | Assign addr

text \<open>
  Constructing over a live object, or destroying a dead one, is an error of the log. \<open>Assign\<close> is the
  initialisation of an arithmetic value, which has no lifetime of its own.
\<close>

fun lifetime_step :: "lifetime \<Rightarrow> addr set option \<Rightarrow> addr set option" where
  "lifetime_step _ None = None"
| "lifetime_step (Ctor p) (Some S) = (if p \<in> S then None else Some (insert p S))"
| "lifetime_step (Dtor p) (Some S) = (if p \<in> S then Some (S - {p}) else None)"
| "lifetime_step (Assign p) (Some S) = Some S"

definition live :: "lifetime list \<Rightarrow> addr set option" where
  "live log = fold lifetime_step log (Some {})"

lemma fold_Ctor:
  "distinct xs \<Longrightarrow> set xs \<inter> S = {} \<Longrightarrow>
   fold lifetime_step (map Ctor xs) (Some S) = Some (S \<union> set xs)"
  by (induction xs arbitrary: S) auto

lemma fold_Dtor:
  "distinct xs \<Longrightarrow> set xs \<subseteq> S \<Longrightarrow> fold lifetime_step (map Dtor xs) (Some S) = Some (S - set xs)"
proof (induction xs arbitrary: S)
  case Nil
  then show ?case by simp
next
  case (Cons x xs)
  then have "set xs \<subseteq> S - {x}" by auto
  with Cons show ?case by auto
qed

lemma fold_Assign: "fold lifetime_step (map Assign xs) (Some S) = Some S"
  by (induction xs) auto

lemma live_append: "live (log @ ls) = fold lifetime_step ls (live log)"
  by (simp add: live_def)

section \<open>SharedPointerArrayAllocator\<close>

text \<open>What the code asks about \<open>T\<close>: \<open>sizeof\<close>, \<open>alignof\<close>, \<open>std::is_arithmetic\<close>.\<close>

record elem_type =
  et_size :: size_t
  et_align :: size_t
  et_arithmetic :: bool

record array_alloc =
  aa_state :: "lifetime list alloc_state option"
  aa_rawObjects :: raw_memory
  aa_count :: size_t
  aa_rawAligned :: addr

text \<open>The addresses \<open>first, ..., last - 1\<close> of slice \<open>elementIndex\<close>.\<close>

definition slice :: "elem_type \<Rightarrow> addr \<Rightarrow> size_t \<Rightarrow> size_t \<Rightarrow> addr list" where
  "slice E base per elementIndex =
     (let first = block_addr base (et_size E) (unat (elementIndex * per))
      in map (block_addr first (et_size E)) [0 ..< unat per])"

definition destructor_callback ::
  "elem_type \<Rightarrow> addr \<Rightarrow> size_t \<Rightarrow> size_t \<Rightarrow> lifetime list \<Rightarrow> lifetime list" where
  "destructor_callback E base per elementIndex log =
     (if et_arithmetic E then log else log @ map Dtor (slice E base per elementIndex))"

definition SharedPointerArrayAllocator_new ::
  "'h byte_allocator \<Rightarrow> layout \<Rightarrow> elem_type \<Rightarrow> size_t \<Rightarrow> size_t \<Rightarrow> size_t \<Rightarrow> 'h
   \<Rightarrow> (array_alloc \<times> lifetime list \<times> 'h) result" where
  "SharedPointerArrayAllocator_new A L E sizeof_raw nElements count_in h =
     (case SharedPointerAllocator_new A L nElements [] h of
        Inl e \<Rightarrow> Inl e
      | Inr (st, log, h1) \<Rightarrow>
     (case allocate_bytes A sizeof_raw h1 of
        (None, _) \<Rightarrow> Inl Bad_alloc
      | (Some _, h2) \<Rightarrow>
          let (r, m, h3) = RawMemory_Allocate A (et_size E) (et_align E)
                             (RawMemory_new (nElements * count_in)) h2;
              st' = sp_SetDestructor (Some (destructor_callback E r count_in)) st
          in Inr (\<lparr>aa_state = st', aa_rawObjects = m, aa_count = count_in, aa_rawAligned = r\<rparr>, log, h3)))"

text \<open>
  \<open>allocate_raw\<close> returns the block of the shared pointer and the slice it points to. The object
  inside the block lies \<open>object_offset\<close> bytes after its start, which the division in
  \<open>GetElementNumber\<close> rounds away. The code does not check \<open>rawAligned\<close>: with a null slice memory it
  constructs at a null address.
\<close>

definition allocate_raw ::
  "'h byte_allocator \<Rightarrow> layout \<Rightarrow> elem_type \<Rightarrow> 'h \<Rightarrow> array_alloc \<times> lifetime list
   \<Rightarrow> ((addr \<times> addr) option \<times> (array_alloc \<times> lifetime list) \<times> 'h) result" where
  "allocate_raw A L E h al =
     (case al of (a, log) \<Rightarrow>
     (case sp_allocate_shared A L (aa_state a) h of
        Inl e \<Rightarrow> Inl e
      | Inr (p, st, h') \<Rightarrow>
          let a' = a\<lparr>aa_state := st\<rparr> in
          (case st of
             None \<Rightarrow> Inr (None, (a', log), h')
           | Some s \<Rightarrow>
               if p = nullptr then Inr (None, (a', log), h')
               else (case GetElementNumber s (p + object_offset L) of
                       Inl e \<Rightarrow> Inl e
                     | Inr index \<Rightarrow>
                         let objs = slice E (aa_rawAligned a) (aa_count a) index;
                             first = block_addr (aa_rawAligned a) (et_size E) (unat (index * aa_count a))
                         in if et_arithmetic E then Inr (Some (p, first), (a', log), h')
                            else if aa_rawAligned a = nullptr \<and> objs \<noteq> [] then Inl Null_deref
                            else Inr (Some (p, first), (a', log @ map Ctor objs), h')))))"

definition release_raw ::
  "addr \<Rightarrow> array_alloc \<times> lifetime list \<Rightarrow> (array_alloc \<times> lifetime list) result" where
  "release_raw p al =
     (case al of (a, log) \<Rightarrow>
     (case sp_deallocate p (aa_state a, log) of
        Inl e \<Rightarrow> Inl e
      | Inr (st, log') \<Rightarrow> Inr (a\<lparr>aa_state := st\<rparr>, log')))"

definition array_Statistics :: "array_alloc \<Rightarrow> nat \<times> nat \<times> nat" where
  "array_Statistics a = sp_statistics (aa_state a)"

section \<open>Slices of different blocks are disjoint\<close>

lemma block_addr_add: "block_addr (block_addr b sz m) sz k = block_addr b sz (m + k)"
  by (simp add: block_addr_def algebra_simps)

lemma slice_eq:
  assumes "i < n" and "region_fits base (et_size E) (n * unat per)" and "0 < et_size E"
  shows "slice E base per (of_nat i) =
         map (block_addr base (et_size E)) [i * unat per ..< i * unat per + unat per]"
proof -
  have "0 < unat (et_size E)" using assms(3) by (simp add: word_less_nat_alt)
  then have "1 * (n * unat per) \<le> unat (et_size E) * (n * unat per)"
    by (intro mult_le_mono1) simp
  moreover have "unat (et_size E) * (n * unat per) \<le> 2 ^ 64"
    using assms(2) by (simp add: region_fits_def)
  ultimately have lt: "n * unat per \<le> 2 ^ 64" by linarith
  have i: "unat (of_nat i * per) = i * unat per"
  proof (cases "per = 0")
    case False
    then have "0 < unat per" by (simp add: unat_gt_0)
    then have "i * unat per < n * unat per" using assms(1) by simp
    from less_le_trans [OF this lt] have "unat per * i < 2 ^ 64" by (simp only: mult.commute)
    then have "unat (per * of_nat i) = unat per * i" by (rule unat_mult_of_nat)
    then show ?thesis by (simp add: mult.commute)
  qed simp
  have "map (block_addr (block_addr base (et_size E) (i * unat per)) (et_size E)) [0 ..< unat per]
      = map (block_addr base (et_size E)) (map (\<lambda>k. k + i * unat per) [0 ..< unat per])"
    by (simp add: block_addr_add add.commute)
  also have "map (\<lambda>k. k + i * unat per) [0 ..< unat per] = [i * unat per ..< i * unat per + unat per]"
    using map_add_upt [of "i * unat per" "unat per"] by (simp add: add.commute)
  finally show ?thesis by (simp add: slice_def i)
qed

lemma slice_bound:
  assumes "i < (n::nat)" and "x \<in> {i * per ..< i * per + per}"
  shows "x < n * per"
proof -
  have "x < Suc i * per" using assms(2) by simp
  also have "\<dots> \<le> n * per" using assms(1) by (intro mult_le_mono1) simp
  finally show ?thesis .
qed

lemma slice_distinct:
  assumes "i < n" and "region_fits base (et_size E) (n * unat per)" and "0 < et_size E"
  shows "distinct (slice E base per (of_nat i))"
proof -
  have "inj_on (block_addr base (et_size E)) {i * unat per ..< i * unat per + unat per}"
  proof (rule inj_onI)
    fix x y
    assume xy: "x \<in> {i * unat per ..< i * unat per + unat per}"
      "y \<in> {i * unat per ..< i * unat per + unat per}"
      and eq: "block_addr base (et_size E) x = block_addr base (et_size E) y"
    have "x < n * unat per" "y < n * unat per"
      using slice_bound [OF assms(1) xy(1)] slice_bound [OF assms(1) xy(2)] .
    with eq show "x = y" using block_addr_inject [OF assms(2,3)] by blast
  qed
  then show ?thesis using slice_eq [OF assms] by (simp add: distinct_map)
qed

lemma slice_disjoint:
  assumes "i < n" and "j < n" and "i \<noteq> j"
    and "region_fits base (et_size E) (n * unat per)" and "0 < et_size E"
  shows "set (slice E base per (of_nat i)) \<inter> set (slice E base per (of_nat j)) = {}"
proof -
  let ?m = "unat per"
  have ne: "x \<noteq> y" if "x \<in> {i * ?m ..< i * ?m + ?m}" "y \<in> {j * ?m ..< j * ?m + ?m}" for x y
  proof -
    have "i * ?m + ?m \<le> j * ?m \<or> j * ?m + ?m \<le> i * ?m"
      using assms(3) mult_blocks_disjoint [of i j ?m] mult_blocks_disjoint [of j i ?m]
      by (metis linorder_neqE_nat mult.commute)
    with that show ?thesis by auto
  qed
  have lt: "x < n * ?m" if "x \<in> {i * ?m ..< i * ?m + ?m} \<union> {j * ?m ..< j * ?m + ?m}" for x
    using that slice_bound [OF assms(1)] slice_bound [OF assms(2)] by blast
  show ?thesis
  proof (rule equals0I)
    fix q
    assume "q \<in> set (slice E base per (of_nat i)) \<inter> set (slice E base per (of_nat j))"
    then obtain x y where "x \<in> {i * ?m ..< i * ?m + ?m}" "y \<in> {j * ?m ..< j * ?m + ?m}"
      "block_addr base (et_size E) x = block_addr base (et_size E) y"
      unfolding slice_eq [OF assms(1,4,5)] slice_eq [OF assms(2,4,5)] by auto
    with ne lt block_addr_inject [OF assms(4,5)] show False by blast
  qed
qed

section \<open>The array pool is a block pool\<close>

text \<open>
  \<open>owned E a s p\<close> are the objects that belong to the block at \<open>p\<close>. The invariant says that the log
  of lifetimes is in order and that the live objects are exactly those of the blocks held.
\<close>

definition owned :: "elem_type \<Rightarrow> array_alloc \<Rightarrow> 'w alloc_state \<Rightarrow> addr \<Rightarrow> addr set" where
  "owned E a s p =
     (if et_arithmetic E then {}
      else set (slice E (aa_rawAligned a) (aa_count a) ((p - rawAligned s) div sizeSharedT s)))"

definition array_good ::
  "layout \<Rightarrow> elem_type \<Rightarrow> addr set \<Rightarrow> array_alloc \<times> lifetime list \<Rightarrow> bool" where
  "array_good L E out al \<longleftrightarrow> (case al of (a, log) \<Rightarrow>
     (\<exists>s. aa_state a = Some s \<and> sp_good L out s \<and> object_offset L < sizeof_cb L
        \<and> destructorCallback s = Some (destructor_callback E (aa_rawAligned a) (aa_count a))
        \<and> aa_rawAligned a \<noteq> nullptr \<and> 0 < et_size E
        \<and> region_fits (aa_rawAligned a) (et_size E) (nElementsTotal s * unat (aa_count a))
        \<and> live log = Some (\<Union>p \<in> out. owned E a s p)))"

definition array_blocks :: "array_alloc \<times> lifetime list \<Rightarrow> addr set" where
  "array_blocks al = (case aa_state (fst al) of None \<Rightarrow> {} | Some s \<Rightarrow> pool_blocks s)"

definition array_loan ::
  "'h byte_allocator \<Rightarrow> layout \<Rightarrow> elem_type \<Rightarrow> 'h \<Rightarrow> array_alloc \<times> lifetime list
   \<Rightarrow> (addr \<times> array_alloc \<times> lifetime list) option" where
  "array_loan A L E h al =
     (case allocate_raw A L E h al of
        Inr (Some (p, first), al', _) \<Rightarrow> Some (p, al')
      | _ \<Rightarrow> None)"

definition array_accept ::
  "addr \<Rightarrow> array_alloc \<times> lifetime list \<Rightarrow> (array_alloc \<times> lifetime list) option" where
  "array_accept p al = (case release_raw p al of Inl _ \<Rightarrow> None | Inr al' \<Rightarrow> Some al')"

lemma pool_block_index:
  assumes "pool_wf s" and "p \<in> pool_blocks s"
  obtains i where "i < nElementsTotal s" "p = block_addr (rawAligned s) (sizeSharedT s) i"
    "\<And>k. k < sizeSharedT s \<Longrightarrow> (p + k - rawAligned s) div sizeSharedT s = of_nat i"
proof -
  from assms(2) obtain i where i: "i < nElementsTotal s"
    "p = block_addr (rawAligned s) (sizeSharedT s) i"
    by (auto simp: pool_blocks_def)
  have fits: "region_fits (rawAligned s) (sizeSharedT s) (nElementsTotal s)"
    using assms(1) by (simp add: pool_wf_def)
  from that [OF i] block_index [OF fits i(1)] i(2) show thesis by blast
qed

text \<open>The offset of the object inside its block does not change the block's number.\<close>

lemma GetElementNumber_block:
  assumes "pool_wf s" and "p \<in> pool_blocks s" and "k < sizeSharedT s"
  shows "GetElementNumber s (p + k) = Inr ((p - rawAligned s) div sizeSharedT s)"
proof -
  have pos: "0 < sizeSharedT s" using assms(1) by (simp add: pool_wf_def)
  obtain i where "(p + k - rawAligned s) div sizeSharedT s = of_nat i"
    "(p + 0 - rawAligned s) div sizeSharedT s = of_nat i"
    using pool_block_index [OF assms(1,2)] assms(3) pos by metis
  then show ?thesis using pos by (simp add: GetElementNumber_def word_neq_0_conv)
qed

lemma owned_disjoint:
  assumes "pool_wf s" and "p \<in> pool_blocks s" and "q \<in> pool_blocks s" and "p \<noteq> q"
    and "region_fits (aa_rawAligned a) (et_size E) (nElementsTotal s * unat (aa_count a))"
    and "0 < et_size E"
  shows "owned E a s p \<inter> owned E a s q = {}"
proof -
  have pos: "0 < sizeSharedT s" using assms(1) by (simp add: pool_wf_def)
  obtain i where i: "i < nElementsTotal s" "p = block_addr (rawAligned s) (sizeSharedT s) i"
    "(p + 0 - rawAligned s) div sizeSharedT s = of_nat i"
    using pool_block_index [OF assms(1,2)] pos by metis
  obtain j where j: "j < nElementsTotal s" "q = block_addr (rawAligned s) (sizeSharedT s) j"
    "(q + 0 - rawAligned s) div sizeSharedT s = of_nat j"
    using pool_block_index [OF assms(1,3)] pos by metis
  have "i \<noteq> j" using i(2) j(2) assms(4) by blast
  from slice_disjoint [OF i(1) j(1) this assms(5,6)] i(3) j(3) show ?thesis
    by (simp add: owned_def)
qed

lemma owned_slice:
  assumes "pool_wf s" and "p \<in> pool_blocks s"
    and "region_fits (aa_rawAligned a) (et_size E) (nElementsTotal s * unat (aa_count a))"
    and "0 < et_size E"
  shows "distinct (slice E (aa_rawAligned a) (aa_count a) ((p - rawAligned s) div sizeSharedT s))"
proof -
  have pos: "0 < sizeSharedT s" using assms(1) by (simp add: pool_wf_def)
  obtain i where i: "i < nElementsTotal s" "(p + 0 - rawAligned s) div sizeSharedT s = of_nat i"
    using pool_block_index [OF assms(1,2)] pos by metis
  from slice_distinct [OF i(1) assms(3,4)] i(2) show ?thesis by simp
qed

lemma owned_cong:
  "rawAligned s' = rawAligned s \<Longrightarrow> sizeSharedT s' = sizeSharedT s \<Longrightarrow>
   owned E (a\<lparr>aa_state := st\<rparr>) s' = owned E a s"
  by (simp add: owned_def fun_eq_iff)

lemma array_goodE:
  assumes "array_good L E out (a, log)"
  obtains s where "aa_state a = Some s" "sp_good L out s" "object_offset L < sizeof_cb L"
    "destructorCallback s = Some (destructor_callback E (aa_rawAligned a) (aa_count a))"
    "aa_rawAligned a \<noteq> nullptr" "0 < et_size E"
    "region_fits (aa_rawAligned a) (et_size E) (nElementsTotal s * unat (aa_count a))"
    "live log = Some (\<Union>p \<in> out. owned E a s p)" "pool_wf s" "out \<subseteq> pool_blocks s"
  using assms by (auto simp: array_good_def sp_good_def pool_good_def)

lemma allocate_raw_good:
  assumes good: "array_good L E out (a, log)" and st: "aa_state a = Some s" and "0 < nAvailable s"
  shows "\<exists>p first a' log'. allocate_raw A L E h (a, log) = Inr (Some (p, first), (a', log'), h)
       \<and> p \<in> pool_blocks s \<and> p \<notin> out \<and> array_good L E (insert p out) (a', log')
       \<and> array_blocks (a', log') = pool_blocks s"
proof -
  from good st have s: "sp_good L out s" "object_offset L < sizeof_cb L"
    "destructorCallback s = Some (destructor_callback E (aa_rawAligned a) (aa_count a))"
    "aa_rawAligned a \<noteq> nullptr" "0 < et_size E"
    "region_fits (aa_rawAligned a) (et_size E) (nElementsTotal s * unat (aa_count a))"
    "live log = Some (\<Union>p \<in> out. owned E a s p)" "pool_wf s" "out \<subseteq> pool_blocks s"
    by (auto elim!: array_goodE)
  from sp_allocate_shared_good [OF s(1) assms(3), of A h] obtain p s' where
    p: "sp_allocate_shared A L (Some s) h = Inr (p, Some s', h)" "p \<noteq> nullptr"
      "p \<in> pool_blocks s" "p \<notin> out" "sp_good L (insert p out) s'" "pool_blocks s' = pool_blocks s"
      "nElementsTotal s' = nElementsTotal s" "rawAligned s' = rawAligned s"
      "destructorCallback s' = destructorCallback s" by blast
  have sz: "sizeSharedT s' = sizeSharedT s" "sizeSharedT s = sizeof_cb L"
    using p(5) s(1) by (simp_all add: sp_good_def)
  define index where "index = (p - rawAligned s) div sizeSharedT s"
  define objs where "objs = slice E (aa_rawAligned a) (aa_count a) index"
  have "pool_wf s'" using p(5) by (simp add: sp_good_def pool_good_def)
  then have ix: "GetElementNumber s' (p + object_offset L) = Inr index"
    using GetElementNumber_block [of s' p "object_offset L"] p(3,6,8) s(2) sz by (simp add: index_def)
  let ?log' = "if et_arithmetic E then log else log @ map Ctor objs"
  let ?a' = "a\<lparr>aa_state := Some s'\<rparr>"
  have own: "owned E ?a' s' = owned E a s" using p(8) sz by (intro owned_cong) simp_all
  have ownp: "owned E a s p = (if et_arithmetic E then {} else set objs)"
    by (simp add: owned_def objs_def index_def)
  have "live ?log' = Some (\<Union>q \<in> insert p out. owned E a s q)"
  proof (cases "et_arithmetic E")
    case True
    then show ?thesis using s(7) ownp by simp
  next
    case False
    have "owned E a s p \<inter> owned E a s q = {}" if "q \<in> out" for q
      using owned_disjoint [OF s(8) p(3) _ _ s(6,5)] that s(9) p(4) by blast
    then have "set objs \<inter> (\<Union>q \<in> out. owned E a s q) = {}" using ownp False by auto
    moreover have "distinct objs"
      using owned_slice [OF s(8) p(3) s(6,5)] by (simp add: objs_def index_def)
    ultimately show ?thesis
      using False s(7) ownp by (simp add: live_append fold_Ctor Un_commute)
  qed
  then have "array_good L E (insert p out) (?a', ?log')"
    using p s own by (simp add: array_good_def del: UN_insert)
  moreover have "\<exists>first. allocate_raw A L E h (a, log) = Inr (Some (p, first), (?a', ?log'), h)"
    using p(1,2) ix st s(4) by (simp add: allocate_raw_def Let_def objs_def)
  ultimately show ?thesis using p(3,4,6) by (auto simp: array_blocks_def)
qed

lemma allocate_raw_empty:
  assumes good: "array_good L E out (a, log)" and st: "aa_state a = Some s" and "nAvailable s = 0"
  shows "allocate_raw A L E h (a, log) = Inr (None, (a, log), h)"
proof -
  have s: "sp_good L out s" using good st by (auto elim!: array_goodE)
  then show ?thesis
    using sp_allocate_shared_empty [OF s assms(3), of A h] st
    by (cases a) (simp add: allocate_raw_def Let_def)
qed

lemma release_raw_good:
  assumes good: "array_good L E out (a, log)" and "p \<in> out"
  shows "\<exists>a' log'. release_raw p (a, log) = Inr (a', log')
       \<and> array_good L E (out - {p}) (a', log') \<and> array_blocks (a', log') = array_blocks (a, log)"
proof -
  from good obtain s where st: "aa_state a = Some s" and s: "sp_good L out s" "object_offset L < sizeof_cb L"
    "destructorCallback s = Some (destructor_callback E (aa_rawAligned a) (aa_count a))"
    "aa_rawAligned a \<noteq> nullptr" "0 < et_size E"
    "region_fits (aa_rawAligned a) (et_size E) (nElementsTotal s * unat (aa_count a))"
    "live log = Some (\<Union>p \<in> out. owned E a s p)" "pool_wf s" "out \<subseteq> pool_blocks s"
    by (rule array_goodE)
  have pb: "p \<in> pool_blocks s" using s(9) assms(2) by blast
  have pos: "0 < sizeSharedT s" using s(8) by (simp add: pool_wf_def)
  define objs where
    "objs = slice E (aa_rawAligned a) (aa_count a) ((p - rawAligned s) div sizeSharedT s)"
  let ?log' = "if et_arithmetic E then log else log @ map Dtor objs"
  from Accept_sp_good [OF s(1) assms(2), of log] obtain s' w' where
    acc: "run_destructor p s log = Inr w'" "Accept p (s, log) = Inr (s', w')"
      "sp_good L (out - {p}) s'" "pool_blocks s' = pool_blocks s"
      "nElementsTotal s' = nElementsTotal s" "rawAligned s' = rawAligned s"
      "destructorCallback s' = destructorCallback s" by blast
  have w': "w' = ?log'"
    using acc(1) s(3) GetElementNumber_block [OF s(8) pb pos]
    by (simp add: run_destructor_def destructor_callback_def GetElementNumber_def objs_def split: if_splits)
  have sz: "sizeSharedT s' = sizeSharedT s" using acc(3) s(1) by (simp add: sp_good_def)
  let ?a' = "a\<lparr>aa_state := Some s'\<rparr>"
  have own: "owned E ?a' s' = owned E a s" using acc(6) sz by (intro owned_cong) simp_all
  have ownp: "owned E a s p = (if et_arithmetic E then {} else set objs)"
    by (simp add: owned_def objs_def)
  have disj: "owned E a s p \<inter> owned E a s q = {}" if "q \<in> out - {p}" for q
    using owned_disjoint [OF s(8) pb _ _ s(6,5)] that s(9) by blast
  have "(\<Union>q \<in> out. owned E a s q) - owned E a s p = (\<Union>q \<in> out - {p}. owned E a s q)"
    using disj by auto
  moreover have "distinct objs" using owned_slice [OF s(8) pb s(6,5)] by (simp add: objs_def)
  moreover have "owned E a s p \<subseteq> (\<Union>q \<in> out. owned E a s q)" using assms(2) by blast
  ultimately have "live ?log' = Some (\<Union>q \<in> out - {p}. owned E a s q)"
    using s(7) ownp by (auto simp: live_append fold_Dtor)
  then have "array_good L E (out - {p}) (?a', ?log')"
    using acc s own by (simp add: array_good_def)
  moreover have "release_raw p (a, log) = Inr (?a', ?log')"
    using acc(2) w' st by (simp add: release_raw_def sp_deallocate_def)
  ultimately show ?thesis using acc(4) st by (auto simp: array_blocks_def)
qed

interpretation ap: block_pool "array_loan A L E h" array_accept "array_good L E" array_blocks
  for A :: "'h byte_allocator" and L E and h :: 'h
proof (unfold_locales, goal_cases)
  case (1 out al)
  then show ?case by (cases al) (auto simp: array_blocks_def pool_blocks_def elim!: array_goodE)
next
  case (2 out al)
  then show ?case by (cases al) (auto simp: array_blocks_def elim!: array_goodE)
next
  case (3 out al)
  obtain a lg where al: "al = (a, lg)" by fastforce
  with 3(1) obtain s where st: "aa_state a = Some s" "sp_good L out s" by (auto elim!: array_goodE)
  then have pg: "pool_good out s" by (simp add: sp_good_def)
  have "out \<noteq> pool_blocks s" using 3(2) st(1) by (simp add: al array_blocks_def)
  then have "0 < nAvailable s" using pool_good_full [OF pg] by simp
  from allocate_raw_good [OF 3(1) [unfolded al] st(1) this, of A h] show ?case
    using st(1) by (auto simp: al array_loan_def array_blocks_def)
next
  case (4 al)
  obtain a lg where al: "al = (a, lg)" by fastforce
  with 4 obtain s where st: "aa_state a = Some s" "sp_good L (pool_blocks s) s"
    by (auto simp: array_blocks_def elim!: array_goodE)
  then have "nAvailable s = 0" using pool_good_full [of "pool_blocks s" s] by (simp add: sp_good_def)
  from allocate_raw_empty [OF 4 [unfolded al] st(1) this, of A h] show ?case by (simp add: al array_loan_def)
next
  case (5 out al p)
  obtain a lg where al: "al = (a, lg)" by fastforce
  from release_raw_good [OF 5(1) [unfolded al] 5(2)] show ?case
    by (auto simp: al array_accept_def)
qed

section \<open>Properties of the array pool\<close>

lemma SharedPointerArrayAllocator_new_good:
  assumes "allocator_ok A" and "layout_ok L" and "size_fits (sizeof_cb L) n"
    and "unat n * unat per < 2 ^ 64" and "size_fits (et_size E) (n * per)"
    and "0 < et_size E" and "0 < et_align E"
    and run: "SharedPointerArrayAllocator_new A L E sr n per h = Inr (a, lg, h')"
    and "aa_state a \<noteq> None" and "aa_rawAligned a \<noteq> nullptr"
  shows "array_good L E {} (a, lg) \<and> aa_count a = per"
  using assms(1-3)
proof (cases rule: SharedPointerAllocator_new_cases [where w = "[] :: lifetime list" and h = h])
  case throws
  with run show ?thesis by (simp add: SharedPointerArrayAllocator_new_def)
next
  case (no_pool h1)
  with run assms(9) show ?thesis
    by (auto simp: SharedPointerArrayAllocator_new_def sp_SetDestructor_def split: option.splits prod.splits)
next
  case (pool s h1)
  from run pool(1) obtain h2 m h3 where
    mem: "RawMemory_Allocate A (et_size E) (et_align E) (RawMemory_new (n * per)) h2 =
            (aa_rawAligned a, m, h3)"
    and a: "aa_state a = Some (SetDestructor (Some (destructor_callback E (aa_rawAligned a) per)) s)"
      "aa_count a = per" "lg = []"
    by (auto simp: SharedPointerArrayAllocator_new_def sp_SetDestructor_def split: option.splits prod.splits)
  have "region_fits (aa_rawAligned a) (et_size E) (unat (n * per))"
    using RawMemory_Allocate_region [OF assms(1) _ assms(7) _ mem assms(10)] assms(5)
    by (simp add: RawMemory_new_def)
  moreover have "unat (n * per) = unat n * unat per"
    using assms(4) by (simp add: unat_word_ariths)
  moreover have "sp_good L {} (SetDestructor f s)" for f
    using pool(2) by (simp add: new_ok_def sp_good_SetDestructor)
  ultimately show ?thesis
    using a pool(2) assms(2,6,10)
    by (simp add: array_good_def new_ok_def layout_ok_def live_def SetDestructor_def)
qed

text \<open>The objects that belong to a block of an array pool.\<close>

definition array_objects :: "elem_type \<Rightarrow> array_alloc \<Rightarrow> addr \<Rightarrow> addr set" where
  "array_objects E a p = (case aa_state a of None \<Rightarrow> {} | Some s \<Rightarrow> owned E a s p)"

text \<open>
  Arrays from the pool: whatever sequence of arrays is allocated and released, no object is
  constructed twice, destroyed twice or left behind - the objects alive are at every moment exactly
  those of the arrays held, and two arrays share no object.
\<close>

lemma array_pool_lifetimes:
  assumes "allocator_ok A" and "layout_ok L" and "size_fits (sizeof_cb L) n"
    and "unat n * unat per < 2 ^ 64" and "size_fits (et_size E) (n * per)"
    and "0 < et_size E" and "0 < et_align E"
    and "SharedPointerArrayAllocator_new A L E sr n per h = Inr (a, lg, h')"
    and "aa_state a \<noteq> None" and "aa_rawAligned a \<noteq> nullptr"
  shows "\<exists>held a' lg'. run_clients (array_loan A L E h'') array_accept ops [] (a, lg) = Some (held, a', lg')
     \<and> distinct held
     \<and> live lg' = Some (\<Union>p \<in> set held. array_objects E a' p)
     \<and> (\<forall>p \<in> set held. \<forall>q \<in> set held. p \<noteq> q \<longrightarrow>
          array_objects E a' p \<inter> array_objects E a' q = {})"
proof -
  have "array_good L E (set []) (a, lg)"
    using SharedPointerArrayAllocator_new_good [OF assms] by simp
  from ap.run_good [OF this, where os = ops and A = A and h = h''] obtain held al where
    al: "run_clients (array_loan A L E h'') array_accept ops [] (a, lg) = Some (held, al)"
    "distinct held" "array_good L E (set held) al"
    by auto
  obtain a' lg' where "al = (a', lg')" by (cases al)
  with al have run: "run_clients (array_loan A L E h'') array_accept ops [] (a, lg) = Some (held, a', lg')"
    and d: "distinct held" and good: "array_good L E (set held) (a', lg')"
    by simp_all
  from good obtain s where st: "aa_state a' = Some s" and s: "sp_good L (set held) s"
    "object_offset L < sizeof_cb L"
    "destructorCallback s = Some (destructor_callback E (aa_rawAligned a') (aa_count a'))"
    "aa_rawAligned a' \<noteq> nullptr" "0 < et_size E"
    "region_fits (aa_rawAligned a') (et_size E) (nElementsTotal s * unat (aa_count a'))"
    "live lg' = Some (\<Union>p \<in> set held. owned E a' s p)" "pool_wf s" "set held \<subseteq> pool_blocks s"
    by (rule array_goodE)
  have obj: "array_objects E a' = owned E a' s" using st by (simp add: array_objects_def fun_eq_iff)
  have "\<forall>p \<in> set held. \<forall>q \<in> set held. p \<noteq> q \<longrightarrow>
      array_objects E a' p \<inter> array_objects E a' q = {}"
    using owned_disjoint [OF s(8) _ _ _ s(6,5)] s(9) by (simp add: obj subset_iff)
  with run d s(7) obj show ?thesis by auto
qed

definition example_elem :: elem_type where
  "example_elem = \<lparr>et_size = 4, et_align = 4, et_arithmetic = False\<rparr>"

lemma example_array:
  "\<exists>a lg h'. SharedPointerArrayAllocator_new bump_allocator example_layout example_elem 32 2 3 4096 =
     Inr (a, lg, h') \<and> aa_state a \<noteq> None \<and> aa_rawAligned a \<noteq> nullptr"
  by (simp add: SharedPointerArrayAllocator_new_def construction_defs example_layout_def
      example_elem_def sp_SetDestructor_def upt_rec)

lemma array_pool_lifetimes_witness:
  "\<exists>a lg held a' lg'. run_clients (array_loan bump_allocator example_layout example_elem 0) array_accept
      [Take, Take, Give 0] [] (a, lg) = Some (held, a', lg')
     \<and> live lg' = Some (\<Union>p \<in> set held. array_objects example_elem a' p)"
proof -
  from example_array obtain a lg h' where a:
    "SharedPointerArrayAllocator_new bump_allocator example_layout example_elem 32 2 3 4096 = Inr (a, lg, h')"
    "aa_state a \<noteq> None" "aa_rawAligned a \<noteq> nullptr" by blast
  have h: "size_fits (sizeof_cb example_layout) 2" "unat (2 :: size_t) * unat (3 :: size_t) < 2 ^ 64"
    "size_fits (et_size example_elem) (2 * 3)" "0 < et_size example_elem" "0 < et_align example_elem"
    by (simp_all add: size_fits_def example_layout_def example_elem_def)
  from array_pool_lifetimes [OF bump_allocator_ok example_layout_ok h a,
      of 0 "[Take, Take, Give 0]"] show ?thesis by blast
qed

end
