(* ===== verification/Heap_Example.thy ===== *)
theory Heap_Example
  imports Heap_Array
begin

text \<open>
  How long the memory of an array pool lives (\<^verbatim>\<open>MempoolHeap/src/MemPoolHeap.h\<close>, \<open>SharedPointerArrayAllocator\<close>), and the
  program \<^verbatim>\<open>MempoolHeap/examples/ExampleMempoolHeap.cpp\<close>, which uses both kinds of pool.
\<close>

section \<open>Who holds the memory of the arrays\<close>

text \<open>
  The allocator holds the state of the pool and the memory of the objects; the pool's destructor callback holds the memory too;
  every array holds the pool, in the allocator of its control block. \<open>ar_state_uses\<close> and \<open>ar_raw_uses\<close> are the two use counts.
\<close>

record 'h array_sys =
  ar_alloc :: "array_alloc \<times> lifetime list"
  ar_heap :: 'h
  ar_owner :: bool
  ar_state_uses :: nat
  ar_raw_uses :: nat
  ar_held :: "(addr \<times> addr) list"

definition array_start :: "array_alloc \<Rightarrow> lifetime list \<Rightarrow> 'h \<Rightarrow> 'h array_sys" where
  "array_start a lg h =
     \<lparr>ar_alloc = (a, lg), ar_heap = h, ar_owner = True, ar_state_uses = 1, ar_raw_uses = 2, ar_held = []\<rparr>"

definition drop_raw :: "'h array_sys \<Rightarrow> 'h array_sys" where
  "drop_raw y = y\<lparr>ar_raw_uses := ar_raw_uses y - 1\<rparr>"

definition drop_state :: "'h array_sys \<Rightarrow> 'h array_sys" where
  "drop_state y =
     (let y' = y\<lparr>ar_state_uses := ar_state_uses y - 1\<rparr>
      in if ar_state_uses y = 1 then drop_raw y' else y')"

text \<open>An array is made, an array is given back, the allocator is destroyed (its members in the reverse order).\<close>

datatype array_op = Array_make | Array_reset nat | Array_owner_gone

fun array_step :: "'h byte_allocator \<Rightarrow> layout \<Rightarrow> elem_type \<Rightarrow> array_op \<Rightarrow> 'h array_sys \<Rightarrow> 'h array_sys result" where
  "array_step A L E Array_make y =
     (if \<not> ar_owner y then Inr y
      else if ar_state_uses y = 0 \<or> ar_raw_uses y = 0 then Inl Use_after_free
      else (case allocate_raw A L E (ar_heap y) (ar_alloc y) of
              Inl e \<Rightarrow> Inl e
            | Inr (None, al, h) \<Rightarrow> Inr (y\<lparr>ar_alloc := al, ar_heap := h\<rparr>)
            | Inr (Some pf, al, h) \<Rightarrow>
                Inr (y\<lparr>ar_alloc := al, ar_heap := h, ar_state_uses := ar_state_uses y + 1, ar_held := ar_held y @ [pf]\<rparr>)))"
| "array_step A L E (Array_reset k) y =
     (if length (ar_held y) \<le> k then Inr y
      else if ar_state_uses y = 0 \<or> ar_raw_uses y = 0 then Inl Use_after_free
      else (case release_raw (fst (ar_held y ! k)) (ar_alloc y) of
              Inl e \<Rightarrow> Inl e
            | Inr al \<Rightarrow> Inr (drop_state (y\<lparr>ar_alloc := al, ar_held := drop_nth k (ar_held y)\<rparr>))))"
| "array_step A L E Array_owner_gone y =
     (if ar_owner y then Inr (drop_state (drop_raw (y\<lparr>ar_owner := False\<rparr>))) else Inr y)"

fun array_run :: "'h byte_allocator \<Rightarrow> layout \<Rightarrow> elem_type \<Rightarrow> array_op list \<Rightarrow> 'h array_sys \<Rightarrow> 'h array_sys result" where
  "array_run A L E [] y = Inr y"
| "array_run A L E (a # as) y = (case array_step A L E a y of Inl e \<Rightarrow> Inl e | Inr y' \<Rightarrow> array_run A L E as y')"

definition array_sys_ok :: "layout \<Rightarrow> elem_type \<Rightarrow> 'h array_sys \<Rightarrow> bool" where
  "array_sys_ok L E y \<longleftrightarrow>
     distinct (map fst (ar_held y)) \<and> array_good L E (fst ` set (ar_held y)) (ar_alloc y)
     \<and> ar_state_uses y = length (ar_held y) + (if ar_owner y then 1 else 0)
     \<and> ar_raw_uses y = (if ar_owner y then 1 else 0) + (if ar_state_uses y = 0 then 0 else 1)"

lemma allocate_raw_cases:
  assumes "array_good L E out al"
  obtains (none) "allocate_raw A L E h al = Inr (None, al, h)"
  | (some) p first al' where "allocate_raw A L E h al = Inr (Some (p, first), al', h)" "p \<notin> out"
      "array_good L E (insert p out) al'"
proof -
  obtain a lg where al: "al = (a, lg)" by fastforce
  from assms obtain s where s: "aa_state a = Some s" by (auto simp: al elim!: array_goodE)
  show thesis
  proof (cases "nAvailable s")
    case 0
    then show ?thesis using allocate_raw_empty [OF assms [unfolded al] s, of A h] none by (simp add: al)
  next
    case (Suc k)
    then have "0 < nAvailable s" by simp
    from allocate_raw_good [OF assms [unfolded al] s this, of A h] obtain p first a' log' where
      "allocate_raw A L E h (a, lg) = Inr (Some (p, first), (a', log'), h)" "p \<notin> out" "array_good L E (insert p out) (a', log')"
      by blast
    then show ?thesis by (intro some) (simp_all add: al)
  qed
qed

lemma array_step_ok:
  assumes ok: "array_sys_ok L E y"
  shows "\<exists>y'. array_step A L E a y = Inr y' \<and> array_sys_ok L E y'"
proof (cases a)
  case Array_make
  have good: "array_good L E (fst ` set (ar_held y)) (ar_alloc y)" using ok by (simp add: array_sys_ok_def)
  from good show ?thesis
  proof (cases rule: allocate_raw_cases [where A = A and h = "ar_heap y"])
    case none
    with ok show ?thesis by (auto simp: Array_make array_sys_ok_def)
  next
    case (some p first al')
    with ok show ?thesis by (auto simp: Array_make array_sys_ok_def)
  qed
next
  case (Array_reset k)
  show ?thesis
  proof (cases "k < length (ar_held y)")
    case True
    let ?p = "fst (ar_held y ! k)"
    have d: "distinct (map fst (ar_held y))" and good: "array_good L E (fst ` set (ar_held y)) (ar_alloc y)"
      using ok by (simp_all add: array_sys_ok_def)
    obtain b lg where al: "ar_alloc y = (b, lg)" by fastforce
    have "?p \<in> fst ` set (ar_held y)" using True by simp
    from release_raw_good [OF good [unfolded al] this] obtain al' where
      r: "release_raw ?p (ar_alloc y) = Inr al'" "array_good L E (fst ` set (ar_held y) - {?p}) al'"
      by (auto simp: al)
    have m: "map fst (drop_nth k (ar_held y)) = drop_nth k (map fst (ar_held y))"
      by (simp add: drop_nth_def take_map drop_map)
    have s: "fst ` set (drop_nth k (ar_held y)) = fst ` set (ar_held y) - {?p}"
      using set_drop_nth [OF d, of k] True m by (metis length_map list.set_map nth_map)
    have dd: "distinct (map fst (drop_nth k (ar_held y)))"
      unfolding m using d by (simp add: drop_nth_def set_take_disj_set_drop_if_distinct)
    let ?y = "drop_state (y\<lparr>ar_alloc := al', ar_held := drop_nth k (ar_held y)\<rparr>)"
    have "array_step A L E (Array_reset k) y = Inr ?y" using True ok r by (auto simp: array_sys_ok_def)
    moreover have "array_sys_ok L E ?y"
      using ok True r(2) dd by (auto simp: array_sys_ok_def drop_state_def drop_raw_def Let_def s length_drop_nth)
    ultimately show ?thesis by (auto simp: Array_reset)
  qed (use ok in \<open>simp add: Array_reset\<close>)
next
  case Array_owner_gone
  then show ?thesis using ok by (auto simp: array_sys_ok_def drop_state_def drop_raw_def Let_def)
qed

lemma array_run_ok:
  assumes "array_sys_ok L E y"
  shows "\<exists>y'. array_run A L E as y = Inr y' \<and> array_sys_ok L E y'"
  using assms
proof (induction as arbitrary: y)
  case Nil
  then show ?case by simp
next
  case (Cons a as)
  from array_step_ok [OF Cons.prems] obtain y1 where "array_step A L E a y = Inr y1" "array_sys_ok L E y1" by blast
  then show ?case using Cons.IH by simp
qed

text \<open>
  C20. The memory of an array pool lives as long as it is needed: in whatever order arrays are made and given back and the allocator goes,
  nothing that is gone is used; the memory of the objects and the pool are freed exactly when the allocator and all arrays are gone; and
  at that moment every object has been destroyed.
\<close>

theorem arrays_keep_their_memory:
  assumes "allocator_ok A" and "layout_ok L" and "size_fits (sizeof_cb L) n"
    and "unat n * unat per < 2 ^ 64" and "size_fits (et_size E) (n * per)"
    and "0 < et_size E" and "0 < et_align E"
    and "SharedPointerArrayAllocator_new A L E sr n per h = Inr (a, lg, h')"
    and "aa_state a \<noteq> None" and "aa_rawAligned a \<noteq> nullptr"
  shows "\<exists>y. array_run A L E ops (array_start a lg h'') = Inr y
     \<and> (ar_raw_uses y = 0 \<longleftrightarrow> \<not> ar_owner y \<and> ar_held y = []) \<and> (ar_state_uses y = 0 \<longleftrightarrow> ar_raw_uses y = 0)
     \<and> live (snd (ar_alloc y)) = Some (\<Union>p \<in> fst ` set (ar_held y). array_objects E (fst (ar_alloc y)) p)"
proof -
  have "array_sys_ok L E (array_start a lg h'')"
    using SharedPointerArrayAllocator_new_good [OF assms] by (simp add: array_sys_ok_def array_start_def)
  from array_run_ok [OF this] obtain y where y: "array_run A L E ops (array_start a lg h'') = Inr y" "array_sys_ok L E y" by blast
  obtain a' lg' where al: "ar_alloc y = (a', lg')" by fastforce
  have "array_good L E (fst ` set (ar_held y)) (a', lg')" using y(2) by (simp add: array_sys_ok_def al)
  then obtain s where s: "aa_state a' = Some s" "live lg' = Some (\<Union>p \<in> fst ` set (ar_held y). owned E a' s p)"
    by (rule array_goodE)
  then have "live (snd (ar_alloc y)) = Some (\<Union>p \<in> fst ` set (ar_held y). array_objects E (fst (ar_alloc y)) p)"
    by (simp add: al array_objects_def)
  moreover have "(ar_raw_uses y = 0 \<longleftrightarrow> \<not> ar_owner y \<and> ar_held y = []) \<and> (ar_state_uses y = 0 \<longleftrightarrow> ar_raw_uses y = 0)"
    using y(2) by (cases "ar_owner y") (simp_all add: array_sys_ok_def)
  ultimately show ?thesis using y(1) by (intro exI [of _ y]) (elim conjE, intro conjI; assumption)
qed

lemma arrays_keep_their_memory_witness:
  "\<exists>a lg y. array_run bump_allocator example_layout example_elem
       [Array_make, Array_make, Array_owner_gone, Array_reset 0] (array_start a lg 0) = Inr y
     \<and> (ar_raw_uses y = 0 \<longleftrightarrow> \<not> ar_owner y \<and> ar_held y = [])"
proof -
  from example_array obtain a lg h' where a:
    "SharedPointerArrayAllocator_new bump_allocator example_layout example_elem 32 2 3 4096 = Inr (a, lg, h')"
    "aa_state a \<noteq> None" "aa_rawAligned a \<noteq> nullptr" by blast
  have h: "size_fits (sizeof_cb example_layout) 2" "unat (2 :: size_t) * unat (3 :: size_t) < 2 ^ 64"
    "size_fits (et_size example_elem) (2 * 3)" "0 < et_size example_elem" "0 < et_align example_elem"
    by (simp_all add: size_fits_def example_layout_def example_elem_def)
  from arrays_keep_their_memory [OF bump_allocator_ok example_layout_ok h a,
      where ops = "[Array_make, Array_make, Array_owner_gone, Array_reset 0]" and h'' = 0] obtain y where
    "array_run bump_allocator example_layout example_elem [Array_make, Array_make, Array_owner_gone, Array_reset 0]
       (array_start a lg 0) = Inr y" "ar_raw_uses y = 0 \<longleftrightarrow> \<not> ar_owner y \<and> ar_held y = []" by (elim exE conjE)
  then show ?thesis by (intro exI conjI)
qed

section \<open>The example program: shared pointers\<close>

text \<open>\<open>allocate_shared\<close> as often as the program calls it, and the end of its pointers: resetting a null pointer does nothing.\<close>

fun make_each :: "'h byte_allocator \<Rightarrow> layout \<Rightarrow> nat \<Rightarrow> 'w alloc_state option \<Rightarrow> 'h
   \<Rightarrow> (addr list \<times> 'w alloc_state option \<times> 'h) result" where
  "make_each A L 0 st h = Inr ([], st, h)"
| "make_each A L (Suc k) st h =
     (case sp_allocate_shared A L st h of
        Inl e \<Rightarrow> Inl e
      | Inr (p, st1, h1) \<Rightarrow>
          (case make_each A L k st1 h1 of Inl e \<Rightarrow> Inl e | Inr (ps, r) \<Rightarrow> Inr (p # ps, r)))"

fun reset_each :: "addr list \<Rightarrow> 'w alloc_state option \<times> 'w \<Rightarrow> ('w alloc_state option \<times> 'w) result" where
  "reset_each [] sw = Inr sw"
| "reset_each (p # ps) sw =
     (if p = nullptr then reset_each ps sw
      else case sp_deallocate p sw of Inl e \<Rightarrow> Inl e | Inr sw' \<Rightarrow> reset_each ps sw')"

definition test_shared_pointers ::
  "'h byte_allocator \<Rightarrow> layout \<Rightarrow> 'w alloc_state option \<Rightarrow> 'w \<Rightarrow> 'h \<Rightarrow> ((nat \<times> nat \<times> nat) \<times> 'w alloc_state option) result" where
  "test_shared_pointers A L st w h =
     (case make_each A L 3 st h of
        Inl e \<Rightarrow> Inl e
      | Inr (ps, st1, h1) \<Rightarrow>
          (case reset_each ps (st1, w) of
             Inl e \<Rightarrow> Inl e
           | Inr (st2, w') \<Rightarrow> Inr (sp_statistics st2, st2)))"

lemma make_each_good:
  assumes "sp_good L out s" and "k \<le> nAvailable s" and "historic_min_available s \<le> nAvailable s"
  shows "\<exists>ps s'. make_each A L k (Some s) h = Inr (ps, Some s', h) \<and> length ps = k \<and> distinct ps
     \<and> nullptr \<notin> set ps \<and> set ps \<inter> out = {} \<and> sp_good L (out \<union> set ps) s' \<and> nAvailable s' = nAvailable s - k
     \<and> nElementsTotal s' = nElementsTotal s
     \<and> historic_min_available s' = min (historic_min_available s) (nAvailable s - k)"
  using assms
proof (induction k arbitrary: out s)
  case 0
  then show ?case by simp
next
  case (Suc k)
  from sp_allocate_shared_good [OF Suc.prems(1), of A h] Suc.prems(2) obtain p s1 where
    p: "sp_allocate_shared A L (Some s) h = Inr (p, Some s1, h)" "Loan s = Inr (p, s1)" "p \<noteq> nullptr" "p \<notin> out"
      "sp_good L (insert p out) s1" "nAvailable s1 = nAvailable s - 1" "nElementsTotal s1 = nElementsTotal s" by auto
  have hist: "historic_min_available s1 = min (historic_min_available s) (nAvailable s - 1)"
    using p(2) by (auto simp: Loan_def Let_def split: if_splits)
  have "k \<le> nAvailable s1" "historic_min_available s1 \<le> nAvailable s1" using Suc.prems(2) p(6) hist by simp_all
  from Suc.IH [OF p(5) this] obtain ps s' where
    "make_each A L k (Some s1) h = Inr (ps, Some s', h)" "length ps = k" "distinct ps" "nullptr \<notin> set ps"
    "set ps \<inter> insert p out = {}" "sp_good L (insert p out \<union> set ps) s'" "nAvailable s' = nAvailable s1 - k"
    "nElementsTotal s' = nElementsTotal s1" "historic_min_available s' = min (historic_min_available s1) (nAvailable s1 - k)"
    by blast
  with p hist show ?case by (intro exI [of _ "p # ps"] exI [of _ s']) (auto simp: min_def)
qed

lemma reset_each_good:
  assumes "sp_good L out s" and "set ps \<subseteq> out" and "distinct ps" and "nullptr \<notin> set ps"
  shows "\<exists>s' w'. reset_each ps (Some s, w) = Inr (Some s', w') \<and> sp_good L (out - set ps) s'
     \<and> nAvailable s' = nAvailable s + length ps \<and> nElementsTotal s' = nElementsTotal s
     \<and> historic_min_available s' = historic_min_available s"
  using assms
proof (induction ps arbitrary: out s w)
  case Nil
  then show ?case by simp
next
  case (Cons p ps)
  from Accept_sp_good [OF Cons.prems(1), of p w] Cons.prems(2) obtain s1 w1 where
    a: "Accept p (s, w) = Inr (s1, w1)" "sp_good L (out - {p}) s1" "nAvailable s1 = nAvailable s + 1"
      "nElementsTotal s1 = nElementsTotal s" by auto
  have hist: "historic_min_available s1 = historic_min_available s"
    using a(1) by (auto simp: Accept_def Let_def split: if_splits sum.splits)
  have "set ps \<subseteq> out - {p}" "distinct ps" "nullptr \<notin> set ps" using Cons.prems(2-4) by auto
  from Cons.IH [OF a(2) this, of w1] obtain s' w' where
    "reset_each ps (Some s1, w1) = Inr (Some s', w')" "sp_good L (out - {p} - set ps) s'"
    "nAvailable s' = nAvailable s1 + length ps" "nElementsTotal s' = nElementsTotal s1"
    "historic_min_available s' = historic_min_available s1" by blast
  moreover have "out - {p} - set ps = out - set (p # ps)" by auto
  ultimately show ?case using a hist Cons.prems(4) by (simp add: sp_deallocate_def)
qed

text \<open>What the program prints: nothing outstanding, all five available, and two at the lowest.\<close>

lemma example_prints_pool:
  assumes "new_ok L 5 s"
  shows "\<exists>s'. test_shared_pointers A L (Some s) w h = Inr ((0, 5, 2), Some s') \<and> sp_good L {} s'"
proof -
  have n: "sp_good L {} s" "nElementsTotal s = 5" "nAvailable s = 5" "historic_min_available s = 5"
    using assms by (simp_all add: new_ok_def)
  from make_each_good [OF n(1), of 3 A h] n obtain ps s1 where
    m: "make_each A L 3 (Some s) h = Inr (ps, Some s1, h)" "length ps = 3" "distinct ps" "nullptr \<notin> set ps"
      "sp_good L ({} \<union> set ps) s1" "nAvailable s1 = 2" "nElementsTotal s1 = 5" "historic_min_available s1 = 2" by auto
  from reset_each_good [OF m(5) _ m(3,4), of w] obtain s2 w2 where
    "reset_each ps (Some s1, w) = Inr (Some s2, w2)" "sp_good L ({} \<union> set ps - set ps) s2" "nAvailable s2 = nAvailable s1 + length ps"
    "nElementsTotal s2 = nElementsTotal s1" "historic_min_available s2 = historic_min_available s1" by auto
  with m show ?thesis by (simp add: test_shared_pointers_def sp_statistics_def Statistics_def)
qed

section \<open>The example program: arrays\<close>

text \<open>The objects of every array are read; the pointers are not checked for null.\<close>

fun allocate_each :: "'h byte_allocator \<Rightarrow> layout \<Rightarrow> elem_type \<Rightarrow> nat \<Rightarrow> 'h \<Rightarrow> array_alloc \<times> lifetime list
   \<Rightarrow> ((addr \<times> addr) option list \<times> (array_alloc \<times> lifetime list) \<times> 'h) result" where
  "allocate_each A L E 0 h al = Inr ([], al, h)"
| "allocate_each A L E (Suc k) h al =
     (case allocate_raw A L E h al of
        Inl e \<Rightarrow> Inl e
      | Inr (r, al1, h1) \<Rightarrow>
          (case allocate_each A L E k h1 al1 of Inl e \<Rightarrow> Inl e | Inr (rs, x) \<Rightarrow> Inr (r # rs, x)))"

definition frame_readable :: "elem_type \<Rightarrow> nat \<Rightarrow> lifetime list \<Rightarrow> addr \<Rightarrow> bool" where
  "frame_readable E pixels lg first \<longleftrightarrow>
     (case live lg of None \<Rightarrow> False | Some S \<Rightarrow> list_all (\<lambda>k. block_addr first (et_size E) k \<in> S) [0 ..< pixels])"

fun print_frames :: "elem_type \<Rightarrow> nat \<Rightarrow> lifetime list \<Rightarrow> (addr \<times> addr) option list \<Rightarrow> unit result" where
  "print_frames E pixels lg [] = Inr ()"
| "print_frames E pixels lg (None # rs) = (if 0 < pixels then Inl Null_deref else print_frames E pixels lg rs)"
| "print_frames E pixels lg (Some (p, first) # rs) =
     (if frame_readable E pixels lg first then print_frames E pixels lg rs else Inl Use_after_free)"

definition test_arrays :: "'h byte_allocator \<Rightarrow> layout \<Rightarrow> elem_type \<Rightarrow> 'h \<Rightarrow> array_alloc \<times> lifetime list
   \<Rightarrow> ((nat \<times> nat \<times> nat) \<times> (addr \<times> addr) option list) result" where
  "test_arrays A L E h al =
     (case allocate_each A L E 5 h al of
        Inl e \<Rightarrow> Inl e
      | Inr (rs, al', h') \<Rightarrow>
          (case print_frames E 3 (snd al') rs of Inl e \<Rightarrow> Inl e | Inr _ \<Rightarrow> Inr (array_Statistics (fst al'), rs)))"

lemma allocate_raw_effect:
  assumes good: "array_good L E out (a, lg)" and st: "aa_state a = Some s" and n: "0 < nAvailable s" and ar: "\<not> et_arithmetic E"
  shows "\<exists>p first s1 a1 lg1. allocate_raw A L E h (a, lg) = Inr (Some (p, first), (a1, lg1), h)
     \<and> array_good L E (insert p out) (a1, lg1) \<and> aa_state a1 = Some s1 \<and> aa_count a1 = aa_count a
     \<and> nAvailable s1 = nAvailable s - 1 \<and> nElementsTotal s1 = nElementsTotal s
     \<and> historic_min_available s1 = min (historic_min_available s) (nAvailable s - 1)
     \<and> lg1 = lg @ map Ctor (map (block_addr first (et_size E)) [0 ..< unat (aa_count a)])"
proof -
  from allocate_raw_good [OF good st n, of A h] obtain p first a1 lg1 where
    r: "allocate_raw A L E h (a, lg) = Inr (Some (p, first), (a1, lg1), h)" "array_good L E (insert p out) (a1, lg1)" by blast
  have "sp_good L out s" using good st by (auto elim!: array_goodE)
  from sp_allocate_shared_good [OF this n, of A h] obtain q s1 where
    q: "sp_allocate_shared A L (Some s) h = Inr (q, Some s1, h)" "Loan s = Inr (q, s1)" "nAvailable s1 = nAvailable s - 1"
      "nElementsTotal s1 = nElementsTotal s" by blast
  have "historic_min_available s1 = min (historic_min_available s) (nAvailable s - 1)"
    using q(2) by (auto simp: Loan_def Let_def split: if_splits)
  moreover have "a1 = a\<lparr>aa_state := Some s1\<rparr>"
    "lg1 = lg @ map Ctor (map (block_addr first (et_size E)) [0 ..< unat (aa_count a)])"
    using r(1) q(1) st ar by (auto simp: allocate_raw_def slice_def Let_def split: if_splits sum.splits)
  ultimately show ?thesis using r q(3,4)
    by (intro exI [of _ p] exI [of _ first] exI [of _ s1] exI [of _ a1] exI [of _ lg1]) simp
qed

lemma allocate_each_good:
  assumes "array_good L E out (a, lg)" and "aa_state a = Some s" and "k \<le> nAvailable s" and "\<not> et_arithmetic E"
    and "historic_min_available s \<le> nAvailable s"
  shows "\<exists>pfs s' a' lg' ls. allocate_each A L E k h (a, lg) = Inr (map Some pfs, (a', lg'), h)
     \<and> (\<exists>out'. array_good L E out' (a', lg')) \<and> length pfs = k \<and> aa_state a' = Some s' \<and> nAvailable s' = nAvailable s - k
     \<and> nElementsTotal s' = nElementsTotal s \<and> historic_min_available s' = min (historic_min_available s) (nAvailable s - k)
     \<and> lg' = lg @ ls \<and> (\<forall>x. Dtor x \<notin> set ls)
     \<and> (\<forall>(p, first) \<in> set pfs. \<forall>j < unat (aa_count a). Ctor (block_addr first (et_size E) j) \<in> set ls)"
  using assms
proof (induction k arbitrary: out a lg s)
  case 0
  show ?case
    by (rule exI [of _ "[]"], rule exI [of _ s], rule exI [of _ a], rule exI [of _ lg], rule exI [of _ "[]"]) (use 0 in auto)
next
  case (Suc k)
  have n: "0 < nAvailable s" using Suc.prems(3) by simp
  from allocate_raw_effect [OF Suc.prems(1,2) n Suc.prems(4), of A h] obtain p first s1 a1 lg1 where
    r: "allocate_raw A L E h (a, lg) = Inr (Some (p, first), (a1, lg1), h)" "array_good L E (insert p out) (a1, lg1)"
      "aa_state a1 = Some s1" "aa_count a1 = aa_count a" "nAvailable s1 = nAvailable s - 1" "nElementsTotal s1 = nElementsTotal s"
      "historic_min_available s1 = min (historic_min_available s) (nAvailable s - 1)"
      "lg1 = lg @ map Ctor (map (block_addr first (et_size E)) [0 ..< unat (aa_count a)])" by blast
  have "k \<le> nAvailable s1" "historic_min_available s1 \<le> nAvailable s1" using Suc.prems(3) r(5,7) by simp_all
  from Suc.IH [OF r(2,3) this(1) Suc.prems(4) this(2)] obtain pfs s' a' lg' ls where
    i: "allocate_each A L E k h (a1, lg1) = Inr (map Some pfs, (a', lg'), h)" "\<exists>out'. array_good L E out' (a', lg')"
      "length pfs = k" "aa_state a' = Some s'" "nAvailable s' = nAvailable s1 - k" "nElementsTotal s' = nElementsTotal s1"
      "historic_min_available s' = min (historic_min_available s1) (nAvailable s1 - k)" "lg' = lg1 @ ls" "\<forall>x. Dtor x \<notin> set ls"
      "\<forall>(p, first) \<in> set pfs. \<forall>j < unat (aa_count a1). Ctor (block_addr first (et_size E) j) \<in> set ls"
    by blast
  define new where "new = map Ctor (map (block_addr first (et_size E)) [0 ..< unat (aa_count a)])"
  have lg1: "lg1 = lg @ new" using r(8) by (simp add: new_def)
  have "allocate_each A L E (Suc k) h (a, lg) = Inr (map Some ((p, first) # pfs), (a', lg'), h)" using r(1) i(1) by simp
  moreover have "historic_min_available s' = min (historic_min_available s) (nAvailable s - Suc k)"
    unfolding i(7) r(5,7) by arith
  moreover have "nAvailable s' = nAvailable s - Suc k" "nElementsTotal s' = nElementsTotal s" using i(5,6) r(5,6) by simp_all
  moreover have "lg' = lg @ new @ ls" "\<forall>x. Dtor x \<notin> set (new @ ls)" using i(8,9) lg1 by (auto simp: new_def)
  moreover have "length ((p, first) # pfs) = Suc k" using i(3) by simp
  moreover have "\<forall>(p', first') \<in> set ((p, first) # pfs). \<forall>j < unat (aa_count a). Ctor (block_addr first' (et_size E) j) \<in> set (new @ ls)"
    using i(10) r(4) by (auto simp: new_def)
  ultimately show ?case using i(2,4) by blast
qed

lemma live_ctors:
  assumes "fold lifetime_step ls (Some S0) = Some S" and "\<forall>x. Dtor x \<notin> set ls" and "Ctor x \<in> set ls \<or> x \<in> S0"
  shows "x \<in> S"
  using assms
proof (induction ls arbitrary: S0)
  case Nil
  then show ?case by simp
next
  case (Cons l ls)
  have none: "fold lifetime_step ls None = None" for ls by (induction ls) simp_all
  show ?case
  proof (cases l)
    case (Ctor y)
    then have "fold lifetime_step ls (Some (insert y S0)) = Some S" using Cons.prems(1) none by (auto split: if_splits)
    from Cons.IH [OF this] Cons.prems(2,3) Ctor show ?thesis by auto
  next
    case (Dtor y)
    then show ?thesis using Cons.prems(2) by auto
  next
    case (Assign y)
    then have "fold lifetime_step ls (Some S0) = Some S" using Cons.prems(1) by simp
    from Cons.IH [OF this] Cons.prems(2,3) Assign show ?thesis by auto
  qed
qed

lemma print_frames_ok:
  "\<forall>(p, first) \<in> set pfs. frame_readable E n lg first \<Longrightarrow> print_frames E n lg (map Some pfs) = Inr ()"
  by (induction pfs) auto

text \<open>
  The five arrays are all made, every object that is printed is alive, and the statistics are five outstanding, none available and none
  at the lowest.
\<close>

lemma example_prints_arrays:
  assumes "allocator_ok A" and "layout_ok L" and "size_fits (sizeof_cb L) 5" and "size_fits (et_size E) 15"
    and "0 < et_size E" and "0 < et_align E" and "\<not> et_arithmetic E"
    and new: "SharedPointerArrayAllocator_new A L E sr 5 3 h = Inr (a, lg, h')"
    and "aa_state a = Some s" and "nElementsTotal s = 5" "nAvailable s = 5" "historic_min_available s = 5" and "aa_rawAligned a \<noteq> nullptr"
  shows "\<exists>rs. test_arrays A L E h'' (a, lg) = Inr ((5, 0, 0), rs) \<and> None \<notin> set rs"
proof -
  have g: "array_good L E {} (a, lg) \<and> aa_count a = 3"
    by (rule SharedPointerArrayAllocator_new_good [OF assms(1-3) _ _ assms(5,6) new]) (use assms in simp_all)
  have "5 \<le> nAvailable s" "historic_min_available s \<le> nAvailable s" using assms(11,12) by simp_all
  from allocate_each_good [OF conjunct1 [OF g] assms(9) this(1) assms(7) this(2), of A h''] obtain pfs s' a' lg' ls where
    r: "allocate_each A L E 5 h'' (a, lg) = Inr (map Some pfs, (a', lg'), h'')" "\<exists>out'. array_good L E out' (a', lg')"
      "aa_state a' = Some s'" "nAvailable s' = nAvailable s - 5" "nElementsTotal s' = nElementsTotal s"
      "historic_min_available s' = min (historic_min_available s) (nAvailable s - 5)" "lg' = lg @ ls" "\<forall>x. Dtor x \<notin> set ls"
      "\<forall>(p, first) \<in> set pfs. \<forall>j < unat (aa_count a). Ctor (block_addr first (et_size E) j) \<in> set ls"
    by blast
  obtain S S0 where S: "live lg' = Some S" "live lg = Some S0"
    using r(2) conjunct1 [OF g] by (auto elim!: array_goodE)
  then have "fold lifetime_step ls (Some S0) = Some S" using r(7) by (simp add: live_append)
  then have "\<forall>(p, first) \<in> set pfs. frame_readable E 3 lg' first"
    using r(8,9) g S(1) live_ctors [of ls S0 S] by (fastforce simp: frame_readable_def list_all_iff)
  from print_frames_ok [OF this] r(1,3-6) assms(10-12) show ?thesis
    by (auto simp: test_arrays_def array_Statistics_def sp_statistics_def Statistics_def)
qed

end
