(* ===== verification/IPC_Pool.thy ===== *)
theory IPC_Pool
  imports Heap_Array
begin

text \<open>
  \<^verbatim>\<open>MempoolIPC/src/MemPoolIPC.h\<close>, classes \<open>RawMemoryIPC\<close> and \<open>AllocatorState\<close>: the pool
  whose state, blocks and free list live in a shared memory segment. Each process maps the segment at
  its own base address \<open>B\<close>. An \<open>ipc::offset_ptr\<close> into the segment is the distance from the
  segment's start (0 for null), the only form of an address that two processes share; \<open>abs_ptr B\<close> is
  \<open>offset_ptr::get\<close> in the process that has mapped the segment at \<open>B\<close> and \<open>seg_off B\<close> the
  conversion of a plain pointer back to an \<open>offset_ptr\<close>.
\<close>

type_synonym seg_ptr = "64 word"

definition abs_ptr :: "addr \<Rightarrow> seg_ptr \<Rightarrow> addr" where
  "abs_ptr B q = (if q = nullptr then nullptr else B + q)"

definition seg_off :: "addr \<Rightarrow> addr \<Rightarrow> seg_ptr" where
  "seg_off B p = (if p = nullptr then nullptr else p - B)"

text \<open>The boost segment manager: \<open>allocate_aligned\<close> with \<open>std::nothrow\<close>, and \<open>deallocate\<close>.\<close>

record 'h segment =
  allocate_aligned :: "size_t \<Rightarrow> size_t \<Rightarrow> 'h \<Rightarrow> seg_ptr \<times> 'h"
  seg_deallocate :: "seg_ptr \<Rightarrow> 'h \<Rightarrow> 'h"

text \<open>What boost documents: a block that was handed out lies in the segment, of \<open>Z\<close> bytes.\<close>

definition segment_ok :: "nat \<Rightarrow> 'h segment \<Rightarrow> bool" where
  "segment_ok Z S \<longleftrightarrow> Z \<le> 2 ^ 64 \<and> (\<forall>b al h p h'. allocate_aligned S b al h = (p, h') \<longrightarrow>
     p \<noteq> nullptr \<longrightarrow> unat p + unat b \<le> Z)"

section \<open>RawMemoryIPC\<close>

record raw_ipc =
  ir_raw :: seg_ptr
  ir_rawSize :: size_t
  ir_nElementsTotal :: size_t

definition RawMemoryIPC_new :: "size_t \<Rightarrow> raw_ipc" where
  "RawMemoryIPC_new n = \<lparr>ir_raw = nullptr, ir_rawSize = 0, ir_nElementsTotal = n\<rparr>"

text \<open>The result after an exception is the exception: the object under construction is abandoned.\<close>

definition RawMemoryIPC_Allocate ::
  "'h segment \<Rightarrow> size_t \<Rightarrow> size_t \<Rightarrow> raw_ipc \<Rightarrow> 'h \<Rightarrow> (seg_ptr \<times> raw_ipc \<times> 'h) result" where
  "RawMemoryIPC_Allocate S sizeT alignT m h =
     (let nBytesTotal = sizeT * ir_nElementsTotal m;
          (p, h') = allocate_aligned S nBytesTotal alignT h;
          m' = m\<lparr>ir_raw := p\<rparr>
      in if p = nullptr \<and> 0 < nBytesTotal then Inl Bad_alloc
         else Inr (p, m'\<lparr>ir_rawSize := nBytesTotal\<rparr>, h'))"

definition RawMemoryIPC_destroy :: "'h segment \<Rightarrow> raw_ipc \<Rightarrow> 'h \<Rightarrow> 'h" where
  "RawMemoryIPC_destroy S m h = (if ir_raw m \<noteq> nullptr then seg_deallocate S (ir_raw m) h else h)"

section \<open>AllocatorState\<close>

text \<open>\<open>offsets\<close> is the contents of the array at \<open>pointers_alignedPtr\<close>.\<close>

record ipc_state =
  objectsBuffer :: raw_ipc
  pointersBuffer :: raw_ipc
  objects_alignedPtr :: seg_ptr
  pointers_alignedPtr :: seg_ptr
  offsets :: "size_t list"
  ipc_nElementsTotal :: nat
  ipc_nAvailable :: nat
  ipc_initialized :: bool
  ipc_sizeSharedT :: size_t
  ipc_alignSharedT :: size_t
  countPerElement :: size_t

definition ipc_state_new :: "size_t \<Rightarrow> size_t \<Rightarrow> ipc_state" where
  "ipc_state_new nElements_in countPerElement_in =
     \<lparr>objectsBuffer = RawMemoryIPC_new (nElements_in * countPerElement_in),
      pointersBuffer = RawMemoryIPC_new nElements_in,
      objects_alignedPtr = nullptr, pointers_alignedPtr = nullptr, offsets = [],
      ipc_nElementsTotal = unat nElements_in, ipc_nAvailable = unat nElements_in,
      ipc_initialized = False, ipc_sizeSharedT = 0, ipc_alignSharedT = 0,
      countPerElement = countPerElement_in\<rparr>"

definition ipc_Allocate ::
  "'h segment \<Rightarrow> size_t \<Rightarrow> size_t \<Rightarrow> ipc_state \<Rightarrow> 'h \<Rightarrow> (ipc_state \<times> 'h) result" where
  "ipc_Allocate S sizeSharedT_in alignSharedT_in s h =
     (if ipc_initialized s then Inr (s, h)
      else (case RawMemoryIPC_Allocate S sizeSharedT_in alignSharedT_in (objectsBuffer s) h of
              Inl e \<Rightarrow> Inl e
            | Inr (p, ob, h1) \<Rightarrow>
           (case RawMemoryIPC_Allocate S 8 8 (pointersBuffer s) h1 of
              Inl e \<Rightarrow> Inl e
            | Inr (q, pb, h2) \<Rightarrow>
                Inr (s\<lparr>ipc_sizeSharedT := sizeSharedT_in, ipc_alignSharedT := alignSharedT_in,
                       objectsBuffer := ob, pointersBuffer := pb,
                       objects_alignedPtr := p, pointers_alignedPtr := q,
                       offsets := map (\<lambda>i. sizeSharedT_in * countPerElement s * of_nat i)
                                    [0 ..< ipc_nElementsTotal s],
                       ipc_initialized := True\<rparr>, h2))))"

definition ipc_Loan :: "ipc_state \<Rightarrow> (seg_ptr \<times> ipc_state) result" where
  "ipc_Loan s =
     (if 0 < ipc_nAvailable s \<and> 0 < countPerElement s
      then
        let k = ipc_nAvailable s - 1 in
        if pointers_alignedPtr s = nullptr then Inl Null_deref
        else if k < length (offsets s)
        then Inr (objects_alignedPtr s + offsets s ! k, s\<lparr>ipc_nAvailable := k\<rparr>)
        else Inl Out_of_bounds
      else Inr (nullptr, s))"

definition ipc_Accept :: "seg_ptr \<Rightarrow> ipc_state \<Rightarrow> ipc_state result" where
  "ipc_Accept p s =
     (if p = nullptr then Inr s
      else if pointers_alignedPtr s = nullptr then Inl Null_deref
      else if ipc_nAvailable s < length (offsets s)
      then Inr (s\<lparr>offsets := (offsets s)[ipc_nAvailable s := p - objects_alignedPtr s],
                  ipc_nAvailable := ipc_nAvailable s + 1\<rparr>)
      else Inl Out_of_bounds)"

definition ipc_GetSizeAndAlignment :: "ipc_state \<Rightarrow> size_t \<times> size_t" where
  "ipc_GetSizeAndAlignment s = (ipc_sizeSharedT s, ipc_alignSharedT s)"

text \<open>\<open>(nOutstanding, nAvailable)\<close>\<close>

definition ipc_Statistics :: "ipc_state \<Rightarrow> nat \<times> nat" where
  "ipc_Statistics s = (ipc_nElementsTotal s - ipc_nAvailable s, ipc_nAvailable s)"

definition ipc_destroy :: "'h segment \<Rightarrow> ipc_state \<Rightarrow> 'h \<Rightarrow> 'h" where
  "ipc_destroy S s h = RawMemoryIPC_destroy S (objectsBuffer s) (RawMemoryIPC_destroy S (pointersBuffer s) h)"

section \<open>The interprocess pool refines the heap pool\<close>

text \<open>
  The abstraction: read the free list of offsets as a free list of places in the segment. It forgets
  what only the interprocess pool has and leaves out the heap pool's minimum and callback.
\<close>

definition to_heap :: "ipc_state \<Rightarrow> unit alloc_state" where
  "to_heap s =
     \<lparr>memoryRaw = RawMemory_new 0, memoryPtrsToRaw = RawMemory_new 0,
      rawAligned = objects_alignedPtr s, ptrsAligned = pointers_alignedPtr s,
      ptrs = map ((+) (objects_alignedPtr s)) (offsets s),
      nElementsTotal = ipc_nElementsTotal s, nAvailable = ipc_nAvailable s,
      historic_min_available = 0, initialized = ipc_initialized s,
      sizeSharedT = ipc_sizeSharedT s * countPerElement s, alignSharedT = ipc_alignSharedT s,
      destructorCallback = None\<rparr>"

lemma to_heap_simps [simp]:
  "nAvailable (to_heap s) = ipc_nAvailable s"
  "nElementsTotal (to_heap s) = ipc_nElementsTotal s"
  "rawAligned (to_heap s) = objects_alignedPtr s"
  "ptrsAligned (to_heap s) = pointers_alignedPtr s"
  "ptrs (to_heap s) = map ((+) (objects_alignedPtr s)) (offsets s)"
  "destructorCallback (to_heap s) = None"
  "sizeSharedT (to_heap s) = ipc_sizeSharedT s * countPerElement s"
  by (simp_all add: to_heap_def)

lemma to_heap_Loan:
  assumes "0 < countPerElement s"
  shows "Loan (to_heap s) =
     (if ipc_nAvailable s = 0 then Inl Bad_alloc
      else (case ipc_Loan s of Inl e \<Rightarrow> Inl e | Inr (p, s') \<Rightarrow> Inr (p, to_heap s')))"
  using assms by (simp add: Loan_def ipc_Loan_def Let_def) (simp add: to_heap_def)

lemma to_heap_Accept:
  "Accept p (to_heap s, ()) =
     (case ipc_Accept p s of Inl e \<Rightarrow> Inl e | Inr s' \<Rightarrow> Inr (to_heap s', ()))"
  by (simp add: Accept_def ipc_Accept_def run_destructor_def) (simp add: to_heap_def map_update)

definition ipc_good :: "seg_ptr set \<Rightarrow> ipc_state \<Rightarrow> bool" where
  "ipc_good out s \<longleftrightarrow> pool_good out (to_heap s) \<and> 0 < countPerElement s"

definition ipc_blocks :: "ipc_state \<Rightarrow> seg_ptr set" where
  "ipc_blocks s = pool_blocks (to_heap s)"

text \<open>The parts of the state that lending and taking back leave alone.\<close>

definition same_pool :: "ipc_state \<Rightarrow> ipc_state \<Rightarrow> bool" where
  "same_pool s s' \<longleftrightarrow> (\<exists>os k. s' = s\<lparr>offsets := os, ipc_nAvailable := k\<rparr>)"

lemma same_pool_refl [simp]: "same_pool s s"
  unfolding same_pool_def by (rule exI [of _ "offsets s"], rule exI [of _ "ipc_nAvailable s"]) simp

lemma same_poolD:
  assumes "same_pool s s'"
  shows "ipc_blocks s' = ipc_blocks s" "ipc_nElementsTotal s' = ipc_nElementsTotal s"
    "countPerElement s' = countPerElement s" "ipc_sizeSharedT s' = ipc_sizeSharedT s"
    "ipc_initialized s' = ipc_initialized s" "objects_alignedPtr s' = objects_alignedPtr s"
  using assms by (auto simp: same_pool_def ipc_blocks_def pool_blocks_def)

lemma same_pool_trans: "same_pool a b \<Longrightarrow> same_pool b c \<Longrightarrow> same_pool a c"
  unfolding same_pool_def by (elim exE) auto

lemma ipc_Loan_good:
  assumes "ipc_good out s" and "0 < ipc_nAvailable s"
  shows "\<exists>p s'. ipc_Loan s = Inr (p, s') \<and> p \<in> ipc_blocks s \<and> p \<notin> out \<and> p \<noteq> nullptr
       \<and> ipc_good (insert p out) s' \<and> same_pool s s' \<and> ipc_nAvailable s' = ipc_nAvailable s - 1"
proof -
  have g: "pool_good out (to_heap s)" "0 < countPerElement s" "0 < nAvailable (to_heap s)"
    using assms by (simp_all add: ipc_good_def)
  note L = Loan_good [OF g(1,3)]
  have "pool_wf (to_heap s)" using g(1) by (simp add: pool_good_def)
  from pool_blocks_not_null [OF this] L have nn: "fst (projr (Loan (to_heap s))) \<noteq> nullptr" by auto
  have "\<not> isl (Loan (to_heap s))" using L by auto
  with to_heap_Loan [OF g(2)] assms(2) obtain p s' where
    run: "ipc_Loan s = Inr (p, s')" "Loan (to_heap s) = Inr (p, to_heap s')"
    by (auto split: sum.splits)
  then have s': "s' = s\<lparr>ipc_nAvailable := ipc_nAvailable s - 1\<rparr>"
    using assms(2) g(2) by (auto simp: ipc_Loan_def Let_def split: if_splits)
  have "same_pool s s'"
    unfolding same_pool_def s'
    by (rule exI [of _ "offsets s"], rule exI [of _ "ipc_nAvailable s - 1"]) simp
  moreover have "countPerElement s' = countPerElement s" by (simp add: s')
  moreover have "p \<in> ipc_blocks s" "p \<notin> out" "pool_good (insert p out) (to_heap s')" "p \<noteq> nullptr"
    using L nn run(2) by (auto simp: ipc_blocks_def)
  ultimately show ?thesis using run(1) g(2) s' by (auto simp: ipc_good_def)
qed

lemma ipc_Loan_empty: "ipc_nAvailable s = 0 \<or> countPerElement s = 0 \<Longrightarrow> ipc_Loan s = Inr (nullptr, s)"
  by (auto simp: ipc_Loan_def)

lemma ipc_Accept_good:
  assumes "ipc_good out s" and "p \<in> out"
  shows "\<exists>s'. ipc_Accept p s = Inr s' \<and> ipc_good (out - {p}) s' \<and> same_pool s s'
       \<and> ipc_nAvailable s' = ipc_nAvailable s + 1"
proof -
  have g: "pool_good out (to_heap s)" "0 < countPerElement s" using assms(1) by (simp_all add: ipc_good_def)
  note A = Accept_good [OF g(1) assms(2)]
  have "p \<in> pool_blocks (to_heap s)" using g(1) assms(2) by (auto simp: pool_good_def)
  then have nn: "p \<noteq> nullptr" using pool_blocks_not_null g(1) by (auto simp: pool_good_def)
  from A(1) [of "()"] to_heap_Accept [of p s] obtain s' where
    run: "ipc_Accept p s = Inr s'" "Accept p (to_heap s, ()) = Inr (to_heap s', ())"
    by (auto split: sum.splits)
  then have s': "s' = s\<lparr>offsets := (offsets s)[ipc_nAvailable s := p - objects_alignedPtr s],
      ipc_nAvailable := ipc_nAvailable s + 1\<rparr>"
    using nn by (auto simp: ipc_Accept_def split: if_splits)
  then have "same_pool s s'" unfolding same_pool_def by blast
  moreover have "pool_good (out - {p}) (to_heap s')" using A run(2) by auto
  ultimately show ?thesis using run(1) g(2) s' by (auto simp: ipc_good_def)
qed

lemma ipc_good_card: "ipc_good out s \<Longrightarrow> card out + ipc_nAvailable s = ipc_nElementsTotal s"
  using pool_good_card [of out "to_heap s"] by (simp add: ipc_good_def)

lemma ipc_good_full: "ipc_good out s \<Longrightarrow> ipc_nAvailable s = 0 \<longleftrightarrow> out = ipc_blocks s"
  using pool_good_full [of out "to_heap s"] by (simp add: ipc_good_def ipc_blocks_def)

lemma ipc_good_subset: "ipc_good out s \<Longrightarrow> out \<subseteq> ipc_blocks s"
  by (auto simp: ipc_good_def ipc_blocks_def pool_good_def)

section \<open>The interprocess pool is a block pool\<close>

definition ipc_loan :: "ipc_state \<Rightarrow> (seg_ptr \<times> ipc_state) option" where
  "ipc_loan s = (case ipc_Loan s of Inl _ \<Rightarrow> None | Inr (p, s') \<Rightarrow> if p = nullptr then None else Some (p, s'))"

definition ipc_accept :: "seg_ptr \<Rightarrow> ipc_state \<Rightarrow> ipc_state option" where
  "ipc_accept p s = (case ipc_Accept p s of Inl _ \<Rightarrow> None | Inr s' \<Rightarrow> Some s')"

interpretation ip: block_pool ipc_loan ipc_accept ipc_good ipc_blocks
proof (unfold_locales, goal_cases)
  case (1 out s)
  then show ?case by (simp add: ipc_blocks_def pool_blocks_def)
next
  case (2 out s)
  then show ?case by (rule ipc_good_subset)
next
  case (3 out s)
  then have "0 < ipc_nAvailable s" using ipc_good_full by blast
  from ipc_Loan_good [OF 3(1) this] show ?case by (auto simp: ipc_loan_def dest: same_poolD(1))
next
  case (4 s)
  then have "ipc_nAvailable s = 0" using ipc_good_full by blast
  then show ?case by (simp add: ipc_loan_def ipc_Loan_empty)
next
  case (5 out s p)
  from ipc_Accept_good [OF 5] show ?case by (auto simp: ipc_accept_def dest: same_poolD(1))
qed

section \<open>A pool that has been set up\<close>

lemma RawMemoryIPC_Allocate_ok:
  assumes "segment_ok Z S" and "RawMemoryIPC_Allocate S sz al (RawMemoryIPC_new n) h = Inr (p, m, h')"
    and "unat sz * unat n < 2 ^ 64" and "0 < sz" and "0 < n"
  shows "p \<noteq> nullptr \<and> unat p + unat sz * unat n \<le> Z"
proof -
  have u: "unat (sz * n) = unat sz * unat n" using assms(3) by (simp add: unat_word_ariths)
  moreover have "0 < unat sz * unat n" using assms(4,5) by (simp add: word_less_nat_alt)
  ultimately have "0 < sz * n" by (simp add: word_less_nat_alt)
  then have "p \<noteq> nullptr" "\<exists>h'. allocate_aligned S (sz * n) al h = (p, h')"
    using assms(2) by (auto simp: RawMemoryIPC_Allocate_def RawMemoryIPC_new_def Let_def
        split: prod.splits if_splits)
  then show ?thesis using assms(1) u unfolding segment_ok_def by metis
qed

definition ipc_fits :: "size_t \<Rightarrow> size_t \<Rightarrow> size_t \<Rightarrow> bool" where
  "ipc_fits sz n cnt \<longleftrightarrow> 0 < sz \<and> 0 < n \<and> 0 < cnt
     \<and> unat sz * (unat n * unat cnt) < 2 ^ 64 \<and> 8 * unat n < 2 ^ 64"

lemma ipc_fits_unat:
  assumes "ipc_fits sz n cnt"
  shows "unat (n * cnt) = unat n * unat cnt" and "unat (sz * cnt) = unat sz * unat cnt"
    and "0 < n * cnt" and "0 < sz * cnt"
proof -
  have p: "0 < unat sz" "0 < unat n" "0 < unat cnt"
    using assms by (simp_all add: ipc_fits_def word_less_nat_alt)
  have lt: "unat sz * (unat n * unat cnt) < 2 ^ 64" using assms by (simp add: ipc_fits_def)
  have "1 * (unat n * unat cnt) \<le> unat sz * (unat n * unat cnt)"
    using p(1) by (intro mult_le_mono1) simp
  then have a: "unat n * unat cnt < 2 ^ 64" using lt by linarith
  have "unat sz * unat cnt * 1 \<le> unat sz * unat cnt * unat n"
    using p(2) by (intro mult_le_mono2) simp
  also have "\<dots> < 2 ^ 64" using lt by (simp only: mult_ac)
  finally have b: "unat sz * unat cnt < 2 ^ 64" by simp
  show c: "unat (n * cnt) = unat n * unat cnt" using a by (simp add: unat_word_ariths)
  show d: "unat (sz * cnt) = unat sz * unat cnt" using b by (simp add: unat_word_ariths)
  show "0 < n * cnt" "0 < sz * cnt" using c d p by (simp_all add: word_less_nat_alt)
qed

text \<open>Where the blocks of a pool lie: their sizes did not wrap and they end within the segment.\<close>

definition ipc_placed :: "nat \<Rightarrow> ipc_state \<Rightarrow> bool" where
  "ipc_placed Z s \<longleftrightarrow> Z \<le> 2 ^ 64 \<and> 0 < ipc_sizeSharedT s
     \<and> unat (ipc_sizeSharedT s * countPerElement s) = unat (ipc_sizeSharedT s) * unat (countPerElement s)
     \<and> unat (objects_alignedPtr s)
         + unat (ipc_sizeSharedT s) * (ipc_nElementsTotal s * unat (countPerElement s)) \<le> Z"

lemma same_pool_placed: "same_pool s s' \<Longrightarrow> ipc_placed Z s' = ipc_placed Z s"
  using same_poolD [of s s'] by (simp add: ipc_placed_def)

lemma ipc_Allocate_good:
  assumes "segment_ok Z S" and fits: "ipc_fits sz n cnt"
    and run: "ipc_Allocate S sz al (ipc_state_new n cnt) h = Inr (s, h')"
  shows "ipc_good {} s \<and> ipc_nElementsTotal s = unat n \<and> ipc_nAvailable s = unat n
       \<and> ipc_sizeSharedT s = sz \<and> ipc_alignSharedT s = al \<and> countPerElement s = cnt
       \<and> ipc_initialized s \<and> ipc_placed Z s"
proof -
  note u = ipc_fits_unat [OF fits]
  have p0: "0 < sz" "0 < n" "0 < cnt" "unat sz * (unat n * unat cnt) < 2 ^ 64" "8 * unat n < 2 ^ 64"
    using fits by (simp_all add: ipc_fits_def)
  from run obtain p ob h1 q pb h2 where
    a: "RawMemoryIPC_Allocate S sz al (RawMemoryIPC_new (n * cnt)) h = Inr (p, ob, h1)"
    and b: "RawMemoryIPC_Allocate S 8 8 (RawMemoryIPC_new n) h1 = Inr (q, pb, h2)"
    and s: "s = (ipc_state_new n cnt)\<lparr>ipc_sizeSharedT := sz, ipc_alignSharedT := al,
        objectsBuffer := ob, pointersBuffer := pb, objects_alignedPtr := p, pointers_alignedPtr := q,
        offsets := map (\<lambda>i. sz * cnt * of_nat i) [0 ..< unat n], ipc_initialized := True\<rparr>"
    by (auto simp: ipc_Allocate_def ipc_state_new_def split: sum.splits)
  have pl: "p \<noteq> nullptr \<and> unat p + unat sz * unat (n * cnt) \<le> Z"
    using RawMemoryIPC_Allocate_ok [OF assms(1) a] p0 u by simp
  have "Z \<le> 2 ^ 64" using assms(1) by (simp add: segment_ok_def)
  then have pn: "p \<noteq> nullptr" and pf: "region_fits p (sz * cnt) (unat n)"
    using pl u by (simp_all add: region_fits_def mult_ac)
  have qn: "q \<noteq> nullptr" using RawMemoryIPC_Allocate_ok [OF assms(1) b] p0 by simp
  have fp: "ptrs (to_heap s) = map (block_addr p (sz * cnt)) [0 ..< unat n]"
    by (simp add: s block_addr_def)
  have nf: "nAvailable (to_heap s) = unat n" "nElementsTotal (to_heap s) = unat n"
    "rawAligned (to_heap s) = p" "sizeSharedT (to_heap s) = sz * cnt" "ptrsAligned (to_heap s) = q"
    by (simp_all add: s ipc_state_new_def)
  have "pool_free (to_heap s) = map (block_addr p (sz * cnt)) [0 ..< unat n]"
    unfolding pool_free_def nf fp by simp
  moreover have "distinct (map (block_addr p (sz * cnt)) [0 ..< unat n])"
    using block_addr_inject [OF pf u(4)] by (auto simp: distinct_map inj_on_def)
  moreover have "pool_blocks (to_heap s) = block_addr p (sz * cnt) ` {..< unat n}"
    unfolding pool_blocks_def nf by simp
  moreover have "pool_wf (to_heap s)"
    unfolding pool_wf_def nf fp using pn qn pf u(4) by (simp add: s to_heap_def)
  ultimately have "pool_good {} (to_heap s)" by (auto simp: pool_good_def)
  moreover have "ipc_placed Z s"
    using pl u p0 \<open>Z \<le> 2 ^ 64\<close> by (simp add: ipc_placed_def s ipc_state_new_def mult_ac)
  ultimately show ?thesis using p0(3) by (simp add: ipc_good_def s ipc_state_new_def)
qed

section \<open>Properties of the interprocess pool\<close>

text \<open>Every step of the interprocess pool is the step of the heap pool it abstracts to.\<close>

lemma run_to_heap:
  assumes "ipc_good (set held) s" and "distinct held"
    and "run_clients ipc_loan ipc_accept os held s = Some (held', s')"
  shows "run_clients heap_loan heap_accept os held (to_heap s, ()) = Some (held', to_heap s', ())"
  using assms
proof (induction os arbitrary: held s)
  case Nil
  then show ?case by simp
next
  case (Cons a os)
  have c: "0 < countPerElement s" using Cons.prems(1) by (simp add: ipc_good_def)
  show ?case
  proof (cases a)
    case Take
    show ?thesis
    proof (cases "ipc_nAvailable s = 0")
      case True
      then show ?thesis
        using Cons Take c by (simp add: ipc_loan_def ipc_Loan_empty heap_loan_def to_heap_Loan)
    next
      case False
      with ipc_Loan_good [OF Cons.prems(1)] obtain p s1 where
        p: "ipc_Loan s = Inr (p, s1)" "p \<noteq> nullptr" "p \<notin> set held" "ipc_good (insert p (set held)) s1"
        by auto
      then have "ipc_loan s = Some (p, s1)" "heap_loan (to_heap s, ()) = Some (p, to_heap s1, ())"
        using False c by (simp_all add: ipc_loan_def heap_loan_def to_heap_Loan)
      with Cons.IH [of "held @ [p]" s1] p Cons.prems Take show ?thesis by simp
    qed
  next
    case (Give k)
    show ?thesis
    proof (cases "k < length held")
      case False
      with Cons Give show ?thesis by simp
    next
      case True
      then obtain s1 where s1: "ipc_Accept (held ! k) s = Inr s1" "ipc_good (set held - {held ! k}) s1"
        using ipc_Accept_good [OF Cons.prems(1)] nth_mem by blast
      then have "ipc_accept (held ! k) s = Some s1"
        "heap_accept (held ! k) (to_heap s, ()) = Some (to_heap s1, ())"
        by (simp_all add: ipc_accept_def heap_accept_def to_heap_Accept)
      with Cons.IH [of "drop_nth k held" s1] s1 Cons.prems Give True show ?thesis
        by (simp add: set_drop_nth distinct_drop_nth)
    qed
  qed
qed


text \<open>A segment for the examples: it hands out the next place until 4096 bytes are used up.\<close>

definition bump_segment :: "addr segment" where
  "bump_segment =
     \<lparr>allocate_aligned = (\<lambda>b al next. if next \<noteq> nullptr \<and> unat next + unat b \<le> 4096
                                    then (next, next + b) else (nullptr, next)),
      seg_deallocate = (\<lambda>p next. next)\<rparr>"

lemma bump_segment_ok: "segment_ok 4096 bump_segment"
  by (simp add: segment_ok_def bump_segment_def)


end
