(* ===== verification/IPC_MemPool.thy ===== *)
theory IPC_MemPool
  imports IPC_Pool
begin

text \<open>
  \<^verbatim>\<open>MempoolIPC/src/MemPoolIPC.h\<close>, classes \<open>ObjectAllocator\<close>, \<open>ControlBlockAllocator\<close> and
  \<open>MemPoolIPC\<close>: a pool of objects and a pool of shared-pointer control blocks, both in the segment,
  from which \<open>make_pooled\<close> puts together an \<open>ipc::shared_ptr\<close>. Every operation that a process
  performs takes the base address \<open>B\<close> at which this process has mapped the segment.
\<close>

record ipc_layout =
  il_elem :: elem_type
  il_sizeof_cb :: size_t
  il_alignof_cb :: size_t
  il_sizeof_state :: size_t
  il_sizeof_count :: size_t

section \<open>ObjectAllocator\<close>

text \<open>
  \<open>segment_mngr->construct<StateT>\<close> and the control block of the \<open>ipc::shared_ptr\<close> that owns the
  state. The two places are needed to give the memory back.
\<close>

definition construct_state ::
  "'h segment \<Rightarrow> ipc_layout \<Rightarrow> size_t \<Rightarrow> size_t \<Rightarrow> 'h \<Rightarrow> (ipc_state \<times> (seg_ptr \<times> seg_ptr) \<times> 'h) result" where
  "construct_state S L n cnt h =
     (let (q, h1) = allocate_aligned S (il_sizeof_state L) 16 h in
      if q = nullptr then Inl Bad_alloc
      else let (r, h2) = allocate_aligned S (il_sizeof_count L) 16 h1 in
           if r = nullptr then Inl Bad_alloc
           else Inr (ipc_state_new n cnt, (q, r), h2))"

definition destroy_state :: "'h segment \<Rightarrow> ipc_state \<Rightarrow> seg_ptr \<times> seg_ptr \<Rightarrow> 'h \<Rightarrow> 'h" where
  "destroy_state S s qr h = seg_deallocate S (snd qr) (seg_deallocate S (fst qr) (ipc_destroy S s h))"

record object_alloc =
  oa_countPerElement :: size_t
  oa_state :: "ipc_state option"

definition ObjectAllocator_new ::
  "'h segment \<Rightarrow> ipc_layout \<Rightarrow> size_t \<Rightarrow> size_t \<Rightarrow> 'h
   \<Rightarrow> (object_alloc \<times> (seg_ptr \<times> seg_ptr) \<times> 'h) result" where
  "ObjectAllocator_new S L n cnt h =
     (case construct_state S L n cnt h of
        Inl e \<Rightarrow> Inl e
      | Inr (s, qr, h1) \<Rightarrow>
     (case ipc_Allocate S (et_size (il_elem L)) (et_align (il_elem L)) s h1 of
        Inl e \<Rightarrow> Inl e
      | Inr (s', h2) \<Rightarrow> Inr (\<lparr>oa_countPerElement = cnt, oa_state = Some s'\<rparr>, qr, h2)))"

definition oa_allocate :: "addr \<Rightarrow> object_alloc \<Rightarrow> (addr \<times> object_alloc) result" where
  "oa_allocate B oa =
     (case oa_state oa of
        None \<Rightarrow> Inr (nullptr, oa)
      | Some s \<Rightarrow> (case ipc_Loan s of
                    Inl e \<Rightarrow> Inl e
                  | Inr (p, s') \<Rightarrow> Inr (abs_ptr B p, oa\<lparr>oa_state := Some s'\<rparr>)))"

text \<open>The addresses \<open>first, ..., last - 1\<close> of the objects of one pool element.\<close>

definition pooled_objects :: "elem_type \<Rightarrow> size_t \<Rightarrow> addr \<Rightarrow> addr list" where
  "pooled_objects E cnt first = map (block_addr first (et_size E)) [0 ..< unat cnt]"

text \<open>
  \<open>ObjectAllocator::operator()\<close>, the deleter. The objects of an element are destroyed last to first.
  The log names objects by their places in the segment, which is how every process sees them.
\<close>

definition oa_delete ::
  "bool \<Rightarrow> elem_type \<Rightarrow> addr \<Rightarrow> seg_ptr \<Rightarrow> object_alloc \<times> lifetime list
   \<Rightarrow> (object_alloc \<times> lifetime list) result" where
  "oa_delete sizingMode E B p ol =
     (case ol of (oa, lg) \<Rightarrow>
        if sizingMode then Inr (oa, lg)
        else
          let objs = pooled_objects E (oa_countPerElement oa) (abs_ptr B p);
              lg' = (if et_arithmetic E then lg else lg @ map (\<lambda>q. Dtor (seg_off B q)) (rev objs))
          in if \<not> et_arithmetic E \<and> p = nullptr \<and> objs \<noteq> [] then Inl Null_deref
             else (case oa_state oa of
                     None \<Rightarrow> Inr (oa, lg')
                   | Some s \<Rightarrow>
                       if p = nullptr then Inr (oa, lg')
                       else (case ipc_Accept (seg_off B (abs_ptr B p)) s of
                               Inl e \<Rightarrow> Inl e
                             | Inr s' \<Rightarrow> Inr (oa\<lparr>oa_state := Some s'\<rparr>, lg'))))"

section \<open>ControlBlockAllocator\<close>

text \<open>
  The converting copy constructor, for a value type of \<open>sizeT\<close> bytes; the first component of the
  result tells whether the copy still refers to the pool.
\<close>

definition cb_rebind ::
  "'h segment \<Rightarrow> size_t \<Rightarrow> size_t \<Rightarrow> ipc_state option \<Rightarrow> 'h \<Rightarrow> (bool \<times> ipc_state \<times> 'h) result" where
  "cb_rebind S sizeT alignT st h =
     (case st of
        None \<Rightarrow> Inl Null_deref
      | Some s \<Rightarrow>
          if ipc_initialized s
          then (if ipc_sizeSharedT s < sizeT then Inr (False, s, h) else Inr (True, s, h))
          else (case ipc_Allocate S sizeT alignT s h of
                  Inl e \<Rightarrow> Inl e
                | Inr (s', h') \<Rightarrow> Inr (True, s', h')))"

definition cb_allocate :: "addr \<Rightarrow> ipc_state option \<Rightarrow> nat \<Rightarrow> (seg_ptr \<times> ipc_state) result" where
  "cb_allocate B st n =
     (case st of
        None \<Rightarrow> Inl Bad_alloc
      | Some s \<Rightarrow>
          if 1 < n then Inl Bad_alloc
          else (case ipc_Loan s of
                  Inl e \<Rightarrow> Inl e
                | Inr (p, s') \<Rightarrow> Inr (seg_off B (abs_ptr B p), s')))"

definition cb_deallocate :: "addr \<Rightarrow> seg_ptr \<Rightarrow> ipc_state option \<Rightarrow> ipc_state option result" where
  "cb_deallocate B p st =
     (case st of
        None \<Rightarrow> Inr None
      | Some s \<Rightarrow>
          if p = nullptr then Inr (Some s)
          else (case ipc_Accept (seg_off B (abs_ptr B p)) s of
                  Inl e \<Rightarrow> Inl e
                | Inr s' \<Rightarrow> Inr (Some s')))"

definition cb_statistics :: "ipc_state option \<Rightarrow> nat \<times> nat" where
  "cb_statistics st = (case st of None \<Rightarrow> (0, 0) | Some s \<Rightarrow> ipc_Statistics s)"

text \<open>
  \<open>ipc::shared_ptr (p, allocator, deleter)\<close> for a non-null \<open>p\<close>: rebind the allocator to the
  control block's type, allocate one and construct it in place, without a check for null.
\<close>

definition ipc_shared_ptr_new ::
  "'h segment \<Rightarrow> ipc_layout \<Rightarrow> addr \<Rightarrow> ipc_state option \<Rightarrow> 'h \<Rightarrow> (seg_ptr \<times> ipc_state \<times> 'h) result" where
  "ipc_shared_ptr_new S L B st h =
     (case cb_rebind S (il_sizeof_cb L) (il_alignof_cb L) st h of
        Inl e \<Rightarrow> Inl e
      | Inr (keeps, s, h') \<Rightarrow>
          (case cb_allocate B (if keeps then Some s else None) 1 of
             Inl e \<Rightarrow> Inl e
           | Inr (c, s') \<Rightarrow> if c = nullptr then Inl Null_deref else Inr (c, s', h')))"

text \<open>
  The constructor finds out the size of a control block with a shared pointer from a pool of one, whose
  deleter is in sizing mode and so leaves the made-up object alone.
\<close>

definition ControlBlockAllocator_new ::
  "'h segment \<Rightarrow> ipc_layout \<Rightarrow> addr \<Rightarrow> size_t \<Rightarrow> 'h \<Rightarrow> (ipc_state \<times> 'h) result" where
  "ControlBlockAllocator_new S L B n h =
     (case construct_state S L n 1 h of
        Inl e \<Rightarrow> Inl e
      | Inr (s, _, h1) \<Rightarrow>
     (case construct_state S L 1 1 h1 of
        Inl e \<Rightarrow> Inl e
      | Inr (oneOff, qr1, h2) \<Rightarrow>
     (case ObjectAllocator_new S L 1 1 h2 of
        Inl e \<Rightarrow> Inl e
      | Inr (oneOffDeleter, qr2, h3) \<Rightarrow>
     (case ipc_shared_ptr_new S L B (Some oneOff) h3 of
        Inl e \<Rightarrow> Inl e
      | Inr (c, oneOff1, h4) \<Rightarrow>
          let (sizeT, alignT) = ipc_GetSizeAndAlignment oneOff1 in
     (case ipc_Allocate S sizeT alignT s h4 of
        Inl e \<Rightarrow> Inl e
      | Inr (s', h5) \<Rightarrow>
     (case cb_deallocate B c (Some oneOff1) of
        Inl e \<Rightarrow> Inl e
      | Inr None \<Rightarrow> Inl Null_deref
      | Inr (Some oneOff2) \<Rightarrow>
          let h6 = (case oa_state oneOffDeleter of None \<Rightarrow> h5 | Some d \<Rightarrow> destroy_state S d qr2 h5)
          in Inr (s', destroy_state S oneOff2 qr1 h6)))))))"

section \<open>MemPoolIPC\<close>

record mempool =
  mp_nElements :: size_t
  mp_countPerElement :: size_t
  mp_cb :: "ipc_state option"
  mp_obj :: object_alloc

definition MemPoolIPC_new ::
  "'h segment \<Rightarrow> ipc_layout \<Rightarrow> addr \<Rightarrow> size_t \<Rightarrow> size_t \<Rightarrow> 'h \<Rightarrow> (mempool \<times> 'h) result" where
  "MemPoolIPC_new S L B n cnt h =
     (case ControlBlockAllocator_new S L B n h of
        Inl e \<Rightarrow> Inl e
      | Inr (cb, h1) \<Rightarrow>
     (case ObjectAllocator_new S L n cnt h1 of
        Inl e \<Rightarrow> Inl e
      | Inr (oa, _, h2) \<Rightarrow>
          Inr (\<lparr>mp_nElements = n, mp_countPerElement = cnt, mp_cb = Some cb, mp_obj = oa\<rparr>, h2)))"

text \<open>A shared pointer is the place of its object and the place of its control block.\<close>

type_synonym sptr = "seg_ptr \<times> seg_ptr"

definition make_pooled ::
  "'h segment \<Rightarrow> ipc_layout \<Rightarrow> addr \<Rightarrow> bool \<Rightarrow> mempool \<times> lifetime list \<Rightarrow> 'h
   \<Rightarrow> (sptr option \<times> (mempool \<times> lifetime list) \<times> 'h) result" where
  "make_pooled S L B has_args ml h =
     (case ml of (mp, lg) \<Rightarrow>
     (case oa_allocate B (mp_obj mp) of
        Inl e \<Rightarrow> Inl e
      | Inr (p, oa) \<Rightarrow>
          let mp1 = mp\<lparr>mp_obj := oa\<rparr> in
          if p = nullptr then Inr (None, (mp1, lg), h)
          else
            let E = il_elem L;
                objs = pooled_objects E (mp_countPerElement mp) p;
                lg1 = (if \<not> et_arithmetic E then lg @ map (\<lambda>q. Ctor (seg_off B q)) objs
                       else if has_args then lg @ map (\<lambda>q. Assign (seg_off B q)) objs
                       else lg)
            in (case ipc_shared_ptr_new S L B (mp_cb mp) h of
                  Inl e \<Rightarrow> Inl e
                | Inr (c, cb, h') \<Rightarrow>
                    Inr (Some (seg_off B p, c), (mp1\<lparr>mp_cb := Some cb\<rparr>, lg1), h'))))"

definition mp_Statistics :: "mempool \<Rightarrow> nat \<times> nat" where
  "mp_Statistics mp = cb_statistics (mp_cb mp)"

definition ReConstruct ::
  "'h segment \<Rightarrow> ipc_layout \<Rightarrow> addr \<Rightarrow> mempool \<Rightarrow> size_t \<Rightarrow> 'h \<Rightarrow> (mempool \<times> 'h) result" where
  "ReConstruct S L B mp newSize h = MemPoolIPC_new S L B newSize (mp_countPerElement mp) h"

text \<open>
  What the last strong reference does (\<open>ipc::shared_ptr\<close>): it runs the deleter on the object and,
  unless a weak pointer is left, gives the control block back. The last weak pointer does the latter.
\<close>

definition release_object ::
  "ipc_layout \<Rightarrow> addr \<Rightarrow> seg_ptr \<Rightarrow> mempool \<times> lifetime list \<Rightarrow> (mempool \<times> lifetime list) result" where
  "release_object L B p ml =
     (case ml of (mp, lg) \<Rightarrow>
     (case oa_delete False (il_elem L) B p (mp_obj mp, lg) of
        Inl e \<Rightarrow> Inl e
      | Inr (oa, lg') \<Rightarrow> Inr (mp\<lparr>mp_obj := oa\<rparr>, lg')))"

definition release_control ::
  "addr \<Rightarrow> seg_ptr \<Rightarrow> mempool \<times> lifetime list \<Rightarrow> (mempool \<times> lifetime list) result" where
  "release_control B c ml =
     (case ml of (mp, lg) \<Rightarrow>
     (case cb_deallocate B c (mp_cb mp) of
        Inl e \<Rightarrow> Inl e
      | Inr cb \<Rightarrow> Inr (mp\<lparr>mp_cb := cb\<rparr>, lg)))"

section \<open>Runs of several processes\<close>

text \<open>
  Each operation names the base address of the process that performs it. \<open>Release B k True\<close> releases
  the last strong reference to the \<open>k\<close>-th pointer while a weak pointer to it is still around;
  \<open>Drop_weak\<close> lets that weak pointer go.
\<close>

datatype mp_op = Make addr bool | Release addr nat bool | Drop_weak addr nat

record 'h mp_sys =
  ms_pool :: "mempool \<times> lifetime list"
  ms_heap :: 'h
  ms_held :: "sptr list"
  ms_weak :: "seg_ptr list"

definition mp_start :: "mempool \<Rightarrow> 'h \<Rightarrow> 'h mp_sys" where
  "mp_start mp h = \<lparr>ms_pool = (mp, []), ms_heap = h, ms_held = [], ms_weak = []\<rparr>"

fun mp_step :: "'h segment \<Rightarrow> ipc_layout \<Rightarrow> mp_op \<Rightarrow> 'h mp_sys \<Rightarrow> 'h mp_sys result" where
  "mp_step S L (Make B args) y =
     (case make_pooled S L B args (ms_pool y) (ms_heap y) of
        Inl e \<Rightarrow> Inl e
      | Inr (None, ml, h) \<Rightarrow> Inr (y\<lparr>ms_pool := ml, ms_heap := h\<rparr>)
      | Inr (Some pc, ml, h) \<Rightarrow> Inr (y\<lparr>ms_pool := ml, ms_heap := h, ms_held := ms_held y @ [pc]\<rparr>))"
| "mp_step S L (Release B k weak) y =
     (if length (ms_held y) \<le> k then Inr y
      else (case release_object L B (fst (ms_held y ! k)) (ms_pool y) of
              Inl e \<Rightarrow> Inl e
            | Inr ml \<Rightarrow>
                let c = snd (ms_held y ! k);
                    y' = y\<lparr>ms_held := drop_nth k (ms_held y)\<rparr>
                in if weak then Inr (y'\<lparr>ms_pool := ml, ms_weak := ms_weak y @ [c]\<rparr>)
                   else (case release_control B c ml of
                           Inl e \<Rightarrow> Inl e
                         | Inr ml' \<Rightarrow> Inr (y'\<lparr>ms_pool := ml'\<rparr>))))"
| "mp_step S L (Drop_weak B k) y =
     (if length (ms_weak y) \<le> k then Inr y
      else (case release_control B (ms_weak y ! k) (ms_pool y) of
              Inl e \<Rightarrow> Inl e
            | Inr ml \<Rightarrow> Inr (y\<lparr>ms_pool := ml, ms_weak := drop_nth k (ms_weak y)\<rparr>)))"

fun mp_run :: "'h segment \<Rightarrow> ipc_layout \<Rightarrow> mp_op list \<Rightarrow> 'h mp_sys \<Rightarrow> 'h mp_sys result" where
  "mp_run S L [] y = Inr y"
| "mp_run S L (a # as) y = (case mp_step S L a y of Inl e \<Rightarrow> Inl e | Inr y' \<Rightarrow> mp_run S L as y')"

section \<open>A segment seen from a process\<close>

text \<open>The process has mapped the whole segment, of \<open>Z\<close> bytes, somewhere above address 0.\<close>

definition map_ok :: "nat \<Rightarrow> addr \<Rightarrow> bool" where
  "map_ok Z B \<longleftrightarrow> B \<noteq> nullptr \<and> unat B + Z \<le> 2 ^ 64"

lemma map_ok_not_null:
  assumes "map_ok Z B" and "unat q < Z"
  shows "B + q \<noteq> nullptr"
proof -
  have "unat (B + q) = unat B + unat q" using assms by (intro unat_add_lt) (simp add: map_ok_def)
  moreover have "0 < unat B" using assms(1) by (simp add: map_ok_def unat_gt_0)
  ultimately have "0 < unat (B + q)" by simp
  then show ?thesis by (simp add: unat_gt_0)
qed

lemma seg_off_abs:
  assumes "map_ok Z B" and "unat q < Z"
  shows "seg_off B (B + q) = q"
  using map_ok_not_null [OF assms] by (simp add: seg_off_def)

lemma seg_off_abs_ptr:
  assumes "map_ok Z B" and "unat q < Z"
  shows "seg_off B (abs_ptr B q) = q"
  using seg_off_abs [OF assms] by (simp add: abs_ptr_def) (simp add: seg_off_def)

lemma block_addr_base: "block_addr (B + p) sz i = B + block_addr p sz i"
  by (simp add: block_addr_def)

text \<open>Every object of a block lies in the segment.\<close>

lemma placed_object:
  assumes "ipc_placed Z s" and "p \<in> ipc_blocks s" and "i < unat (countPerElement s)"
  shows "unat (block_addr p (ipc_sizeSharedT s) i) < Z"
proof -
  let ?c = "unat (countPerElement s)"
  let ?sz = "ipc_sizeSharedT s"
  let ?n = "ipc_nElementsTotal s"
  from assms(2) obtain k where k: "k < ?n" "p = block_addr (objects_alignedPtr s) (?sz * countPerElement s) k"
    by (auto simp: ipc_blocks_def pool_blocks_def)
  have "block_addr p ?sz i = block_addr (objects_alignedPtr s) ?sz (k * ?c + i)"
    by (simp add: k(2) block_addr_def algebra_simps)
  moreover have fits: "region_fits (objects_alignedPtr s) ?sz (?n * ?c)"
    using assms(1) by (simp add: ipc_placed_def region_fits_def)
  moreover have lt: "k * ?c + i < ?n * ?c"
    by (rule slice_bound [OF k(1)]) (simp add: assms(3))
  ultimately have "unat (block_addr p ?sz i) = unat (objects_alignedPtr s) + unat ?sz * (k * ?c + i)"
    using unat_block_addr [OF fits lt] assms(1) by (simp add: ipc_placed_def)
  moreover have "unat ?sz * (k * ?c + i) + unat ?sz \<le> unat ?sz * (?n * ?c)"
    using lt by (rule mult_blocks_disjoint)
  moreover have "0 < unat ?sz" using assms(1) by (simp add: ipc_placed_def word_less_nat_alt)
  ultimately show ?thesis using assms(1) by (simp add: ipc_placed_def)
qed

lemma placed_block:
  assumes "ipc_placed Z s" and "p \<in> ipc_blocks s" and "0 < countPerElement s"
  shows "unat p < Z"
proof -
  have "0 < unat (countPerElement s)" using assms(3) by (simp add: word_less_nat_alt)
  from placed_object [OF assms(1,2) this] show ?thesis by simp
qed

section \<open>The invariant of a pool of shared pointers\<close>

text \<open>The objects of the element at \<open>p\<close>; arithmetic values have no lifetime to speak of.\<close>

definition element_objects :: "elem_type \<Rightarrow> size_t \<Rightarrow> seg_ptr \<Rightarrow> seg_ptr set" where
  "element_objects E cnt p = (if et_arithmetic E then {} else set (pooled_objects E cnt p))"

lemma pooled_objects_slice:
  "pooled_objects E cnt (block_addr base (et_size E * cnt) k) = slice E base cnt (of_nat k)"
  by (simp add: pooled_objects_def slice_def Let_def block_addr_def algebra_simps)

definition elems_ok :: "nat \<Rightarrow> ipc_layout \<Rightarrow> size_t \<Rightarrow> ipc_state \<Rightarrow> bool" where
  "elems_ok Z L cnt so \<longleftrightarrow> countPerElement so = cnt \<and> ipc_sizeSharedT so = et_size (il_elem L)
     \<and> ipc_placed Z so"

lemma placed_fits:
  "ipc_placed Z so \<Longrightarrow> region_fits (objects_alignedPtr so) (ipc_sizeSharedT so)
     (ipc_nElementsTotal so * unat (countPerElement so)) \<and> 0 < ipc_sizeSharedT so"
  by (simp add: ipc_placed_def region_fits_def)

lemma element_block:
  assumes "elems_ok Z L cnt so" and "p \<in> ipc_blocks so"
  obtains k where "k < ipc_nElementsTotal so"
    "p = block_addr (objects_alignedPtr so) (et_size (il_elem L) * cnt) k"
    "pooled_objects (il_elem L) cnt p = slice (il_elem L) (objects_alignedPtr so) cnt (of_nat k)"
  using assms pooled_objects_slice by (fastforce simp: elems_ok_def ipc_blocks_def pool_blocks_def)

lemma pooled_objects_distinct:
  assumes "elems_ok Z L cnt so" and "p \<in> ipc_blocks so"
  shows "distinct (pooled_objects (il_elem L) cnt p)"
proof -
  have fits: "region_fits (objects_alignedPtr so) (et_size (il_elem L)) (ipc_nElementsTotal so * unat cnt)"
    "0 < et_size (il_elem L)"
    using placed_fits [of Z so] assms(1) by (simp_all add: elems_ok_def)
  show ?thesis
    by (rule element_block [OF assms]) (simp add: slice_distinct [OF _ fits])
qed

lemma element_objects_disjoint:
  assumes "elems_ok Z L cnt so" and "p \<in> ipc_blocks so" and "q \<in> ipc_blocks so" and "p \<noteq> q"
  shows "element_objects (il_elem L) cnt p \<inter> element_objects (il_elem L) cnt q = {}"
proof -
  have fits: "region_fits (objects_alignedPtr so) (et_size (il_elem L)) (ipc_nElementsTotal so * unat cnt)"
    "0 < et_size (il_elem L)"
    using placed_fits [of Z so] assms(1) by (simp_all add: elems_ok_def)
  obtain i where i: "i < ipc_nElementsTotal so"
    "p = block_addr (objects_alignedPtr so) (et_size (il_elem L) * cnt) i"
    "pooled_objects (il_elem L) cnt p = slice (il_elem L) (objects_alignedPtr so) cnt (of_nat i)"
    by (rule element_block [OF assms(1,2)])
  obtain j where j: "j < ipc_nElementsTotal so"
    "q = block_addr (objects_alignedPtr so) (et_size (il_elem L) * cnt) j"
    "pooled_objects (il_elem L) cnt q = slice (il_elem L) (objects_alignedPtr so) cnt (of_nat j)"
    by (rule element_block [OF assms(1,3)])
  have "i \<noteq> j" using i(2) j(2) assms(4) by blast
  from slice_disjoint [OF i(1) j(1) this fits] i(3) j(3) show ?thesis
    by (simp add: element_objects_def)
qed

text \<open>A process at \<open>B\<close> constructs and destroys at its own addresses; the places are the same.\<close>

lemma pooled_objects_seg_off:
  assumes "elems_ok Z L cnt so" and "p \<in> ipc_blocks so" and "map_ok Z B"
  shows "map (seg_off B) (pooled_objects (il_elem L) cnt (B + p)) = pooled_objects (il_elem L) cnt p"
  using assms placed_object [of Z so p] seg_off_abs [OF assms(3)]
  by (simp add: pooled_objects_def block_addr_base elems_ok_def)

definition mp_good ::
  "nat \<Rightarrow> ipc_layout \<Rightarrow> seg_ptr set \<Rightarrow> seg_ptr set \<Rightarrow> mempool \<times> lifetime list \<Rightarrow> bool" where
  "mp_good Z L oo oc ml \<longleftrightarrow> (case ml of (mp, lg) \<Rightarrow>
     (\<exists>so sc. mp_obj mp = \<lparr>oa_countPerElement = mp_countPerElement mp, oa_state = Some so\<rparr>
        \<and> mp_cb mp = Some sc
        \<and> elems_ok Z L (mp_countPerElement mp) so \<and> ipc_good oo so
        \<and> ipc_nElementsTotal so = unat (mp_nElements mp)
        \<and> ipc_good oc sc \<and> ipc_placed Z sc \<and> ipc_initialized sc
        \<and> ipc_sizeSharedT sc = il_sizeof_cb L \<and> countPerElement sc = 1
        \<and> ipc_nElementsTotal sc = unat (mp_nElements mp)
        \<and> live lg = Some (\<Union>p \<in> oo. element_objects (il_elem L) (mp_countPerElement mp) p)))"

lemma mp_goodE:
  assumes "mp_good Z L oo oc (mp, lg)"
  obtains so sc where
    "mp_obj mp = \<lparr>oa_countPerElement = mp_countPerElement mp, oa_state = Some so\<rparr>"
    "mp_cb mp = Some sc" "elems_ok Z L (mp_countPerElement mp) so" "ipc_good oo so"
    "ipc_nElementsTotal so = unat (mp_nElements mp)"
    "ipc_good oc sc" "ipc_placed Z sc" "ipc_initialized sc"
    "ipc_sizeSharedT sc = il_sizeof_cb L" "countPerElement sc = 1"
    "ipc_nElementsTotal sc = unat (mp_nElements mp)"
    "live lg = Some (\<Union>p \<in> oo. element_objects (il_elem L) (mp_countPerElement mp) p)"
  using assms unfolding mp_good_def split_conv by blast

lemma elems_ok_same_pool: "same_pool so so' \<Longrightarrow> elems_ok Z L cnt so' = elems_ok Z L cnt so"
  using same_poolD [of so so'] same_pool_placed [of so so' Z] by (simp add: elems_ok_def)

lemma make_pooled_full:
  assumes "mp_good Z L oo oc (mp, lg)" and "card oo = unat (mp_nElements mp)"
  shows "make_pooled S L B args (mp, lg) h = Inr (None, (mp, lg), h)"
  using assms(1)
proof (rule mp_goodE)
  fix so sc
  assume a: "mp_obj mp = \<lparr>oa_countPerElement = mp_countPerElement mp, oa_state = Some so\<rparr>"
    "ipc_good oo so" "ipc_nElementsTotal so = unat (mp_nElements mp)"
  then have "ipc_nAvailable so = 0" using ipc_good_card [OF a(2)] assms(2) by simp
  then have "ipc_Loan so = Inr (nullptr, so)" by (simp add: ipc_Loan_empty)
  then show ?thesis using a(1) by (cases mp) (simp add: make_pooled_def oa_allocate_def abs_ptr_def)
qed

lemma make_pooled_no_control:
  assumes "mp_good Z L oo oc (mp, lg)" and "card oo < unat (mp_nElements mp)"
    and "card oc = unat (mp_nElements mp)" and "map_ok Z B"
  shows "make_pooled S L B args (mp, lg) h = Inl Null_deref"
  using assms(1)
proof (rule mp_goodE)
  fix so sc
  assume a: "mp_obj mp = \<lparr>oa_countPerElement = mp_countPerElement mp, oa_state = Some so\<rparr>"
    "mp_cb mp = Some sc" "elems_ok Z L (mp_countPerElement mp) so" "ipc_good oo so"
    "ipc_nElementsTotal so = unat (mp_nElements mp)" "ipc_good oc sc" "ipc_initialized sc"
    "ipc_sizeSharedT sc = il_sizeof_cb L" "ipc_nElementsTotal sc = unat (mp_nElements mp)"
  have "0 < ipc_nAvailable so" using ipc_good_card [OF a(4)] assms(2) a(5) by simp
  from ipc_Loan_good [OF a(4) this] obtain p so' where
    p: "ipc_Loan so = Inr (p, so')" "p \<in> ipc_blocks so" "p \<noteq> nullptr" by blast
  have "0 < countPerElement so" using a(4) by (simp add: ipc_good_def)
  then have "B + p \<noteq> nullptr"
    using placed_block [OF _ p(2)] map_ok_not_null [OF assms(4)] a(3) by (simp add: elems_ok_def)
  moreover have "ipc_nAvailable sc = 0" using ipc_good_card [OF a(6)] assms(3) a(9) by simp
  then have "ipc_Loan sc = Inr (nullptr, sc)" by (simp add: ipc_Loan_empty)
  ultimately show ?thesis
    using a p by (simp add: make_pooled_def oa_allocate_def abs_ptr_def Let_def ipc_shared_ptr_new_def
        cb_rebind_def cb_allocate_def seg_off_def)
qed

lemma make_pooled_good:
  assumes "mp_good Z L oo oc (mp, lg)" and "card oo < unat (mp_nElements mp)"
    and "card oc < unat (mp_nElements mp)"
  shows "\<exists>p c mp' lg'. (\<forall>B h. map_ok Z B \<longrightarrow> make_pooled S L B args (mp, lg) h = Inr (Some (p, c), (mp', lg'), h))
       \<and> p \<notin> oo \<and> c \<notin> oc \<and> mp_good Z L (insert p oo) (insert c oc) (mp', lg')
       \<and> mp_nElements mp' = mp_nElements mp \<and> mp_countPerElement mp' = mp_countPerElement mp"
  using assms(1)
proof (rule mp_goodE)
  fix so sc
  let ?E = "il_elem L" and ?cnt = "mp_countPerElement mp"
  assume a: "mp_obj mp = \<lparr>oa_countPerElement = ?cnt, oa_state = Some so\<rparr>"
    "mp_cb mp = Some sc" "elems_ok Z L ?cnt so" "ipc_good oo so"
    "ipc_nElementsTotal so = unat (mp_nElements mp)"
    "ipc_good oc sc" "ipc_placed Z sc" "ipc_initialized sc"
    "ipc_sizeSharedT sc = il_sizeof_cb L" "countPerElement sc = 1"
    "ipc_nElementsTotal sc = unat (mp_nElements mp)"
    "live lg = Some (\<Union>p \<in> oo. element_objects ?E ?cnt p)"
  have "0 < ipc_nAvailable so" using ipc_good_card [OF a(4)] assms(2) a(5) by simp
  from ipc_Loan_good [OF a(4) this] obtain p so' where
    p: "ipc_Loan so = Inr (p, so')" "p \<in> ipc_blocks so" "p \<notin> oo" "p \<noteq> nullptr"
      "ipc_good (insert p oo) so'" "same_pool so so'" by blast
  have "0 < ipc_nAvailable sc" using ipc_good_card [OF a(6)] assms(3) a(11) by simp
  from ipc_Loan_good [OF a(6) this] obtain c sc' where
    c: "ipc_Loan sc = Inr (c, sc')" "c \<in> ipc_blocks sc" "c \<notin> oc" "c \<noteq> nullptr"
      "ipc_good (insert c oc) sc'" "same_pool sc sc'" by blast
  have zp: "unat p < Z" using placed_block [OF _ p(2)] a(3,4) by (simp add: elems_ok_def ipc_good_def)
  have zc: "unat c < Z" using placed_block [OF a(7) c(2)] a(10) by simp
  define objs where "objs = pooled_objects ?E ?cnt p"
  define lg' where "lg' = (if \<not> et_arithmetic ?E then lg @ map Ctor objs
      else if args then lg @ map Assign objs else lg)"
  define mp' where "mp' = mp\<lparr>mp_obj := \<lparr>oa_countPerElement = ?cnt, oa_state = Some so'\<rparr>, mp_cb := Some sc'\<rparr>"
  have run: "make_pooled S L B args (mp, lg) h = Inr (Some (p, c), (mp', lg'), h)" if B: "map_ok Z B" for B h
  proof -
    have bp: "abs_ptr B p = B + p" "B + p \<noteq> nullptr" "seg_off B (B + p) = p" "seg_off B (abs_ptr B c) = c"
      using p(4) zp zc map_ok_not_null [OF B] seg_off_abs [OF B] seg_off_abs_ptr [OF B]
      by (simp_all add: abs_ptr_def)
    have so: "map (seg_off B) (pooled_objects ?E ?cnt (B + p)) = objs"
      using pooled_objects_seg_off [OF a(3) p(2) B] by (simp add: objs_def)
    then have "map (\<lambda>q. Ctor (seg_off B q)) (pooled_objects ?E ?cnt (B + p)) = map Ctor objs"
      "map (\<lambda>q. Assign (seg_off B q)) (pooled_objects ?E ?cnt (B + p)) = map Assign objs"
      by (simp_all flip: so)
    with bp a p c show ?thesis
      by (simp add: make_pooled_def oa_allocate_def Let_def ipc_shared_ptr_new_def
          cb_rebind_def cb_allocate_def lg'_def mp'_def)
  qed
  have lv: "live lg' = Some (\<Union>q \<in> insert p oo. element_objects ?E ?cnt q)"
  proof (cases "et_arithmetic ?E")
    case True
    then show ?thesis using a(12) by (simp add: lg'_def element_objects_def live_append fold_Assign)
  next
    case False
    have "element_objects ?E ?cnt p \<inter> element_objects ?E ?cnt q = {}" if "q \<in> oo" for q
      using element_objects_disjoint [OF a(3) p(2)] that p(3) ipc_good_subset [OF a(4)] by blast
    then have "set objs \<inter> (\<Union>q \<in> oo. element_objects ?E ?cnt q) = {}"
      using False by (auto simp: element_objects_def objs_def)
    moreover have "distinct objs" using pooled_objects_distinct [OF a(3) p(2)] by (simp add: objs_def)
    moreover have "element_objects ?E ?cnt p = set objs"
      using False by (simp add: element_objects_def objs_def)
    ultimately show ?thesis
      using False a(12) by (simp add: lg'_def live_append fold_Ctor Un_commute)
  qed
  have "mp_good Z L (insert p oo) (insert c oc) (mp', lg')"
    unfolding mp_good_def split_conv
    using a p(5) c(5) lv same_poolD [OF p(6)] same_poolD [OF c(6)] same_pool_placed [OF c(6)]
      elems_ok_same_pool [OF p(6)]
    by (intro exI [of _ so'] exI [of _ sc']) (simp add: mp'_def)
  then show ?thesis using run p(3) c(3)
    by (intro exI [of _ p] exI [of _ c] exI [of _ mp'] exI [of _ lg']) (simp add: mp'_def)
qed

lemma release_object_good:
  assumes "mp_good Z L oo oc (mp, lg)" and "p \<in> oo"
  shows "\<exists>mp' lg'. (\<forall>B. map_ok Z B \<longrightarrow> release_object L B p (mp, lg) = Inr (mp', lg'))
       \<and> mp_good Z L (oo - {p}) oc (mp', lg')
       \<and> mp_nElements mp' = mp_nElements mp \<and> mp_countPerElement mp' = mp_countPerElement mp"
  using assms(1)
proof (rule mp_goodE)
  fix so sc
  let ?E = "il_elem L" and ?cnt = "mp_countPerElement mp"
  assume a: "mp_obj mp = \<lparr>oa_countPerElement = ?cnt, oa_state = Some so\<rparr>"
    "mp_cb mp = Some sc" "elems_ok Z L ?cnt so" "ipc_good oo so"
    "ipc_nElementsTotal so = unat (mp_nElements mp)"
    "ipc_good oc sc" "ipc_placed Z sc" "ipc_initialized sc"
    "ipc_sizeSharedT sc = il_sizeof_cb L" "countPerElement sc = 1"
    "ipc_nElementsTotal sc = unat (mp_nElements mp)"
    "live lg = Some (\<Union>p \<in> oo. element_objects ?E ?cnt p)"
  from ipc_Accept_good [OF a(4) assms(2)] obtain so' where
    r: "ipc_Accept p so = Inr so'" "ipc_good (oo - {p}) so'" "same_pool so so'" by blast
  have pb: "p \<in> ipc_blocks so" using ipc_good_subset [OF a(4)] assms(2) by blast
  have nn: "p \<noteq> nullptr"
    using pb pool_blocks_not_null [of "to_heap so" p] a(4)
    by (auto simp: ipc_blocks_def ipc_good_def pool_good_def)
  have zp: "unat p < Z" using placed_block [OF _ pb] a(3,4) by (simp add: elems_ok_def ipc_good_def)
  define objs where "objs = pooled_objects ?E ?cnt p"
  define lg' where "lg' = (if et_arithmetic ?E then lg else lg @ map Dtor (rev objs))"
  define mp' where "mp' = mp\<lparr>mp_obj := \<lparr>oa_countPerElement = ?cnt, oa_state = Some so'\<rparr>\<rparr>"
  have run: "release_object L B p (mp, lg) = Inr (mp', lg')" if B: "map_ok Z B" for B
  proof -
    have bp: "abs_ptr B p = B + p" "seg_off B (B + p) = p"
      using nn zp seg_off_abs [OF B] by (simp_all add: abs_ptr_def)
    have so: "map (seg_off B) (pooled_objects ?E ?cnt (B + p)) = objs"
      using pooled_objects_seg_off [OF a(3) pb B] by (simp add: objs_def)
    then have "map (\<lambda>q. Dtor (seg_off B q)) (rev (pooled_objects ?E ?cnt (B + p))) = map Dtor (rev objs)"
      by (simp add: rev_map flip: so)
    with bp nn a r show ?thesis
      by (simp add: release_object_def oa_delete_def Let_def lg'_def mp'_def)
  qed
  have lv: "live lg' = Some (\<Union>q \<in> oo - {p}. element_objects ?E ?cnt q)"
  proof (cases "et_arithmetic ?E")
    case True
    then show ?thesis using a(12) by (simp add: lg'_def element_objects_def)
  next
    case False
    have eo: "element_objects ?E ?cnt p = set objs"
      using False by (simp add: element_objects_def objs_def)
    have "element_objects ?E ?cnt p \<inter> element_objects ?E ?cnt q = {}" if "q \<in> oo - {p}" for q
      using element_objects_disjoint [OF a(3) pb] that ipc_good_subset [OF a(4)] by blast
    then have "(\<Union>q \<in> oo. element_objects ?E ?cnt q) - set objs = (\<Union>q \<in> oo - {p}. element_objects ?E ?cnt q)"
      using eo by auto
    moreover have "set objs \<subseteq> (\<Union>q \<in> oo. element_objects ?E ?cnt q)" using eo assms(2) by blast
    moreover have "distinct objs" using pooled_objects_distinct [OF a(3) pb] by (simp add: objs_def)
    ultimately show ?thesis
      using False a(12) by (simp add: lg'_def live_append fold_Dtor)
  qed
  have "mp_good Z L (oo - {p}) oc (mp', lg')"
    unfolding mp_good_def split_conv
    using a r(2) lv same_poolD [OF r(3)] elems_ok_same_pool [OF r(3)]
    by (intro exI [of _ so'] exI [of _ sc]) (simp add: mp'_def)
  then show ?thesis using run by (intro exI [of _ mp'] exI [of _ lg']) (simp add: mp'_def)
qed

lemma release_control_good:
  assumes "mp_good Z L oo oc (mp, lg)" and "c \<in> oc"
  shows "\<exists>mp'. (\<forall>B. map_ok Z B \<longrightarrow> release_control B c (mp, lg) = Inr (mp', lg))
       \<and> mp_good Z L oo (oc - {c}) (mp', lg)
       \<and> mp_nElements mp' = mp_nElements mp \<and> mp_countPerElement mp' = mp_countPerElement mp"
  using assms(1)
proof (rule mp_goodE)
  fix so sc
  let ?E = "il_elem L" and ?cnt = "mp_countPerElement mp"
  assume a: "mp_obj mp = \<lparr>oa_countPerElement = ?cnt, oa_state = Some so\<rparr>"
    "mp_cb mp = Some sc" "elems_ok Z L ?cnt so" "ipc_good oo so"
    "ipc_nElementsTotal so = unat (mp_nElements mp)"
    "ipc_good oc sc" "ipc_placed Z sc" "ipc_initialized sc"
    "ipc_sizeSharedT sc = il_sizeof_cb L" "countPerElement sc = 1"
    "ipc_nElementsTotal sc = unat (mp_nElements mp)"
    "live lg = Some (\<Union>p \<in> oo. element_objects ?E ?cnt p)"
  from ipc_Accept_good [OF a(6) assms(2)] obtain sc' where
    r: "ipc_Accept c sc = Inr sc'" "ipc_good (oc - {c}) sc'" "same_pool sc sc'" by blast
  have cb: "c \<in> ipc_blocks sc" using ipc_good_subset [OF a(6)] assms(2) by blast
  have nn: "c \<noteq> nullptr"
    using cb pool_blocks_not_null [of "to_heap sc" c] a(6)
    by (auto simp: ipc_blocks_def ipc_good_def pool_good_def)
  have zc: "unat c < Z" using placed_block [OF a(7) cb] a(10) by simp
  define mp' where "mp' = mp\<lparr>mp_cb := Some sc'\<rparr>"
  have "release_control B c (mp, lg) = Inr (mp', lg)" if B: "map_ok Z B" for B
    using seg_off_abs_ptr [OF B zc] nn a r
    by (simp add: release_control_def cb_deallocate_def mp'_def)
  moreover have "mp_good Z L oo (oc - {c}) (mp', lg)"
    unfolding mp_good_def split_conv
    using a r(2) same_poolD [OF r(3)] same_pool_placed [OF r(3)]
    by (intro exI [of _ so] exI [of _ sc']) (simp add: mp'_def)
  ultimately show ?thesis by (intro exI [of _ mp']) (simp add: mp'_def)
qed

section \<open>The constructor\<close>

lemma one_off_control:
  assumes "segment_ok Z S" and "0 < il_sizeof_cb L" and "unat (il_sizeof_cb L) < 2 ^ 64"
    and "ipc_shared_ptr_new S L B (Some (ipc_state_new 1 1)) h = Inr (c, s, h')"
  shows "ipc_GetSizeAndAlignment s = (il_sizeof_cb L, il_alignof_cb L)"
proof -
  from assms(4) obtain s1 h1 where
    all: "ipc_Allocate S (il_sizeof_cb L) (il_alignof_cb L) (ipc_state_new 1 1) h = Inr (s1, h1)"
    and loan: "cb_allocate B (Some s1) 1 = Inr (c, s)"
    by (auto simp: ipc_shared_ptr_new_def cb_rebind_def ipc_state_new_def split: sum.splits if_splits)
  have "ipc_fits (il_sizeof_cb L) 1 1" using assms(2) by (simp add: ipc_fits_def)
  from ipc_Allocate_good [OF assms(1) this all] loan show ?thesis
    by (auto simp: cb_allocate_def ipc_Loan_def ipc_GetSizeAndAlignment_def Let_def
        split: sum.splits if_splits)
qed

text \<open>Nothing has wrapped in the sizes of a pool of \<open>n\<close> elements of \<open>cnt\<close> objects.\<close>

definition mp_fits :: "ipc_layout \<Rightarrow> size_t \<Rightarrow> size_t \<Rightarrow> bool" where
  "mp_fits L n cnt \<longleftrightarrow> ipc_fits (et_size (il_elem L)) n cnt \<and> ipc_fits (il_sizeof_cb L) n 1"

lemma MemPoolIPC_new_good:
  assumes "segment_ok Z S" and fits: "mp_fits L n cnt"
    and run: "MemPoolIPC_new S L B n cnt h = Inr (mp, h')"
  shows "mp_good Z L {} {} (mp, []) \<and> mp_nElements mp = n \<and> mp_countPerElement mp = cnt"
proof -
  have f: "ipc_fits (et_size (il_elem L)) n cnt" "ipc_fits (il_sizeof_cb L) n 1"
    using fits by (simp_all add: mp_fits_def)
  from run obtain sc h1 where cb: "ControlBlockAllocator_new S L B n h = Inr (sc, h1)"
    by (auto simp: MemPoolIPC_new_def split: sum.splits)
  with run obtain oa qr h2 where oa: "ObjectAllocator_new S L n cnt h1 = Inr (oa, qr, h2)"
    and mp: "mp = \<lparr>mp_nElements = n, mp_countPerElement = cnt, mp_cb = Some sc, mp_obj = oa\<rparr>"
    by (auto simp: MemPoolIPC_new_def split: sum.splits)
  from oa obtain so h3 h4 where
    so: "ipc_Allocate S (et_size (il_elem L)) (et_align (il_elem L)) (ipc_state_new n cnt) h3 = Inr (so, h4)"
    and oa_eq: "oa = \<lparr>oa_countPerElement = cnt, oa_state = Some so\<rparr>"
    by (auto simp: ObjectAllocator_new_def construct_state_def Let_def split: sum.splits prod.splits if_splits)
  have so_good: "elems_ok Z L cnt so" "ipc_good {} so" "ipc_nElementsTotal so = unat n"
    using ipc_Allocate_good [OF assms(1) f(1) so] by (simp_all add: elems_ok_def)
  from cb obtain one hx c one1 hy szT alT hz where
    one: "ipc_shared_ptr_new S L B (Some one) hx = Inr (c, one1, hy)" "one = ipc_state_new 1 1"
    and al: "ipc_GetSizeAndAlignment one1 = (szT, alT)"
    and sc: "ipc_Allocate S szT alT (ipc_state_new n 1) hy = Inr (sc, hz)"
    by (auto simp: ControlBlockAllocator_new_def construct_state_def Let_def
        split: sum.splits prod.splits if_splits option.splits)
  have "0 < il_sizeof_cb L" using f(2) by (simp add: ipc_fits_def)
  with one_off_control [OF assms(1) this unat_lt_64 one(1) [unfolded one(2)]] al
  have "szT = il_sizeof_cb L" by simp
  with ipc_Allocate_good [OF assms(1) _ sc] f(2)
  have sc_good: "ipc_good {} sc" "ipc_nElementsTotal sc = unat n" "ipc_placed Z sc" "ipc_initialized sc"
    "ipc_sizeSharedT sc = il_sizeof_cb L" "countPerElement sc = 1" by simp_all
  have "mp_good Z L {} {} (mp, [])"
    unfolding mp_good_def split_conv
    using so_good sc_good by (intro exI [of _ so] exI [of _ sc]) (simp add: mp oa_eq live_def)
  then show ?thesis by (simp add: mp)
qed

section \<open>The invariant along a run\<close>

fun op_base :: "mp_op \<Rightarrow> addr" where
  "op_base (Make B args) = B"
| "op_base (Release B k weak) = B"
| "op_base (Drop_weak B k) = B"

fun at_base :: "addr \<Rightarrow> mp_op \<Rightarrow> mp_op" where
  "at_base B (Make _ args) = Make B args"
| "at_base B (Release _ k weak) = Release B k weak"
| "at_base B (Drop_weak _ k) = Drop_weak B k"

definition mp_inv :: "nat \<Rightarrow> ipc_layout \<Rightarrow> size_t \<Rightarrow> size_t \<Rightarrow> 'h mp_sys \<Rightarrow> bool" where
  "mp_inv Z L n cnt y \<longleftrightarrow>
     mp_good Z L (set (map fst (ms_held y))) (set (map snd (ms_held y) @ ms_weak y)) (ms_pool y)
     \<and> distinct (map fst (ms_held y)) \<and> distinct (map snd (ms_held y) @ ms_weak y)
     \<and> mp_nElements (fst (ms_pool y)) = n \<and> mp_countPerElement (fst (ms_pool y)) = cnt"

text \<open>The one thing that can go wrong: weak pointers hold every control block that is left.\<close>

definition controls_pinned :: "size_t \<Rightarrow> 'h mp_sys \<Rightarrow> bool" where
  "controls_pinned n y \<longleftrightarrow> ms_weak y \<noteq> [] \<and> length (ms_held y) + length (ms_weak y) = unat n"

lemma map_drop_nth: "map f (drop_nth k xs) = drop_nth k (map f xs)"
  by (simp add: drop_nth_def drop_map take_map)

lemma set_drop_nth_app:
  assumes "distinct (xs @ ws)" and "k < length xs"
  shows "set (drop_nth k xs @ ws) = set (xs @ ws) - {xs ! k}" and "distinct (drop_nth k xs @ ws)"
    and "set (drop_nth k xs @ ws @ [xs ! k]) = set (xs @ ws)" and "distinct (drop_nth k xs @ ws @ [xs ! k])"
proof -
  have d: "distinct xs" "distinct ws" "set xs \<inter> set ws = {}" "xs ! k \<in> set xs"
    using assms by simp_all
  show a: "set (drop_nth k xs @ ws) = set (xs @ ws) - {xs ! k}"
    using set_drop_nth [OF d(1) assms(2)] d by auto
  show b: "distinct (drop_nth k xs @ ws)"
    using set_drop_nth [OF d(1) assms(2)] distinct_drop_nth [OF d(1)] d by auto
  show "set (drop_nth k xs @ ws @ [xs ! k]) = set (xs @ ws)" using a d(4) by auto
  show "distinct (drop_nth k xs @ ws @ [xs ! k])" using a b by auto
qed

text \<open>
  What a step must do: it does not depend on the base addresses, and it keeps the invariant or is the one failure.
\<close>

definition mp_step_good ::
  "'h segment \<Rightarrow> nat \<Rightarrow> ipc_layout \<Rightarrow> size_t \<Rightarrow> size_t \<Rightarrow> mp_op \<Rightarrow> 'h mp_sys \<Rightarrow> bool" where
  "mp_step_good S Z L n cnt a y \<longleftrightarrow>
     (\<forall>C. map_ok Z C \<longrightarrow> mp_step S L (at_base C a) y = mp_step S L a y)
     \<and> ((\<exists>y'. mp_step S L a y = Inr y' \<and> mp_inv Z L n cnt y')
        \<or> mp_step S L a y = Inl Null_deref \<and> controls_pinned n y \<and> (\<exists>B args. a = Make B args))"

lemma mp_invE:
  assumes "mp_inv Z L n cnt y"
  obtains mp lg where "ms_pool y = (mp, lg)"
    "mp_good Z L (set (map fst (ms_held y))) (set (map snd (ms_held y) @ ms_weak y)) (mp, lg)"
    "distinct (map fst (ms_held y))" "distinct (map snd (ms_held y) @ ms_weak y)"
    "mp_nElements mp = n" "mp_countPerElement mp = cnt"
  using assms by (cases "ms_pool y") (simp add: mp_inv_def)

lemma mp_step_make:
  assumes inv: "mp_inv Z L n cnt y" and B: "map_ok Z B'"
  shows "mp_step_good S Z L n cnt (Make B' args) y"
proof -
  let ?oo = "set (map fst (ms_held y))" and ?oc = "set (map snd (ms_held y) @ ms_weak y)"
  from inv obtain mp lg where ml: "ms_pool y = (mp, lg)"
    and g: "mp_good Z L ?oo ?oc (mp, lg)" and d: "distinct (map fst (ms_held y))"
      "distinct (map snd (ms_held y) @ ms_weak y)" and n: "mp_nElements mp = n" "mp_countPerElement mp = cnt"
    by (rule mp_invE)
  have co: "card ?oo = length (ms_held y)" using distinct_card [OF d(1)] by simp
  have cc: "card ?oc = length (ms_held y) + length (ms_weak y)" using distinct_card [OF d(2)] by simp
  have le: "card ?oo \<le> unat n" "card ?oc \<le> unat n"
    using g n ipc_good_card by (metis (no_types, lifting) le_add1 mp_goodE)+
  consider "card ?oo = unat n" | "card ?oo < unat n" "card ?oc = unat n"
    | "card ?oo < unat n" "card ?oc < unat n" using le by linarith
  then show ?thesis
  proof cases
    case 1
    have "mp_step S L (Make C args) y = Inr y" for C
      using make_pooled_full [OF g, of S C args "ms_heap y"] 1 n ml by (cases y) simp
    then show ?thesis using inv by (simp add: mp_step_good_def)
  next
    case 2
    have "mp_step S L (Make C args) y = Inl Null_deref" if "map_ok Z C" for C
      using make_pooled_no_control [OF g, of C S args "ms_heap y"] 2 n ml that by simp
    moreover have "controls_pinned n y" using 2 co cc by (auto simp: controls_pinned_def)
    ultimately show ?thesis using B by (simp add: mp_step_good_def)
  next
    case 3
    note mk = make_pooled_good [OF g 3 [folded n(1)], of S args]
    from mk obtain p c mp' lg' where
      run: "\<forall>B h. map_ok Z B \<longrightarrow> make_pooled S L B args (mp, lg) h = Inr (Some (p, c), (mp', lg'), h)"
      and r: "p \<notin> ?oo" "c \<notin> ?oc" "mp_good Z L (insert p ?oo) (insert c ?oc) (mp', lg')"
      and n': "mp_nElements mp' = mp_nElements mp" "mp_countPerElement mp' = mp_countPerElement mp"
      by (elim exE conjE)
    let ?y = "y\<lparr>ms_pool := (mp', lg'), ms_held := ms_held y @ [(p, c)]\<rparr>"
    have "mp_step S L (Make C args) y = Inr ?y" if "map_ok Z C" for C
      using run that ml by (cases y) simp
    moreover have "mp_inv Z L n cnt ?y"
      using r d n n' by (simp add: mp_inv_def)
    ultimately show ?thesis using B by (simp add: mp_step_good_def)
  qed
qed

lemma mp_step_release:
  assumes inv: "mp_inv Z L n cnt y" and B: "map_ok Z B'"
  shows "mp_step_good S Z L n cnt (Release B' k weak) y"
proof (cases "k < length (ms_held y)")
  case False
  then show ?thesis using inv by (simp add: mp_step_good_def)
next
  case True
  note k = this
  let ?oo = "set (map fst (ms_held y))" and ?oc = "set (map snd (ms_held y) @ ms_weak y)"
  from inv obtain mp lg where ml: "ms_pool y = (mp, lg)"
    and g: "mp_good Z L ?oo ?oc (mp, lg)" and d: "distinct (map fst (ms_held y))"
      "distinct (map snd (ms_held y) @ ms_weak y)" and n: "mp_nElements mp = n" "mp_countPerElement mp = cnt"
    by (rule mp_invE)
  let ?p = "fst (ms_held y ! k)" and ?c = "snd (ms_held y ! k)" and ?held = "drop_nth k (ms_held y)"
  have "?p \<in> ?oo" using True by simp
  from release_object_good [OF g this] obtain mp1 lg1 where
    ro: "\<forall>B. map_ok Z B \<longrightarrow> release_object L B ?p (mp, lg) = Inr (mp1, lg1)"
    and g1: "mp_good Z L (?oo - {?p}) ?oc (mp1, lg1)"
    and n1: "mp_nElements mp1 = mp_nElements mp" "mp_countPerElement mp1 = mp_countPerElement mp"
    by (elim exE conjE)
  have oo: "set (map fst ?held) = ?oo - {?p}" "distinct (map fst ?held)"
    using set_drop_nth [OF d(1)] distinct_drop_nth [OF d(1)] True
    by (simp_all add: map_drop_nth del: set_map)
  have ks: "k < length (map snd (ms_held y))" using True by simp
  note oc = set_drop_nth_app [OF d(2) ks]
  show ?thesis
  proof (cases weak)
    case True
    let ?y = "y\<lparr>ms_held := ?held, ms_pool := (mp1, lg1), ms_weak := ms_weak y @ [?c]\<rparr>"
    have "mp_step S L (Release C k weak) y = Inr ?y" if "map_ok Z C" for C
      using ro that ml \<open>k < length (ms_held y)\<close> True by (simp add: Let_def)
    moreover have "set (map snd ?held @ ms_weak y @ [?c]) = ?oc"
      "distinct (map snd ?held @ ms_weak y @ [?c])"
      using oc(3,4) ks by (simp_all add: map_drop_nth)
    then have "mp_inv Z L n cnt ?y"
      unfolding mp_inv_def using g1 oo n n1 by simp
    ultimately show ?thesis using B by (simp add: mp_step_good_def)
  next
    case False
    have "?c \<in> ?oc" using ks by (metis UnI1 nth_map nth_mem set_append length_map)
    from release_control_good [OF g1 this] obtain mp2 where
      rc: "\<forall>B. map_ok Z B \<longrightarrow> release_control B ?c (mp1, lg1) = Inr (mp2, lg1)"
      and g2: "mp_good Z L (?oo - {?p}) (?oc - {?c}) (mp2, lg1)"
      and n2: "mp_nElements mp2 = mp_nElements mp1" "mp_countPerElement mp2 = mp_countPerElement mp1"
      by (elim exE conjE)
    let ?y = "y\<lparr>ms_held := ?held, ms_pool := (mp2, lg1)\<rparr>"
    have "mp_step S L (Release C k weak) y = Inr ?y" if "map_ok Z C" for C
      using ro rc that ml \<open>k < length (ms_held y)\<close> False by (simp add: Let_def)
    moreover have "set (map snd ?held @ ms_weak y) = ?oc - {?c}" "distinct (map snd ?held @ ms_weak y)"
      using oc(1,2) ks by (simp_all add: map_drop_nth)
    then have "mp_inv Z L n cnt ?y"
      unfolding mp_inv_def using g2 oo n n1 n2 by simp
    ultimately show ?thesis using B by (simp add: mp_step_good_def)
  qed
qed

lemma mp_step_drop_weak:
  assumes inv: "mp_inv Z L n cnt y" and B: "map_ok Z B'"
  shows "mp_step_good S Z L n cnt (Drop_weak B' k) y"
proof (cases "k < length (ms_weak y)")
  case False
  then show ?thesis using inv by (simp add: mp_step_good_def)
next
  case True
  let ?oo = "set (map fst (ms_held y))" and ?oc = "set (map snd (ms_held y) @ ms_weak y)"
  from inv obtain mp lg where ml: "ms_pool y = (mp, lg)"
    and g: "mp_good Z L ?oo ?oc (mp, lg)" and d: "distinct (map fst (ms_held y))"
      "distinct (map snd (ms_held y) @ ms_weak y)" and n: "mp_nElements mp = n" "mp_countPerElement mp = cnt"
    by (rule mp_invE)
  let ?c = "ms_weak y ! k"
  have d': "distinct (ms_weak y @ map snd (ms_held y))" using d(2) by auto
  note oc = set_drop_nth_app [OF d' True]
  have "?c \<in> ?oc" using True by simp
  from release_control_good [OF g this] obtain mp2 where
    rc: "\<forall>B. map_ok Z B \<longrightarrow> release_control B ?c (mp, lg) = Inr (mp2, lg)"
    and g2: "mp_good Z L ?oo (?oc - {?c}) (mp2, lg)"
    and n2: "mp_nElements mp2 = mp_nElements mp" "mp_countPerElement mp2 = mp_countPerElement mp"
    by (elim exE conjE)
  let ?y = "y\<lparr>ms_pool := (mp2, lg), ms_weak := drop_nth k (ms_weak y)\<rparr>"
  have "set (map snd (ms_held y) @ drop_nth k (ms_weak y)) = ?oc - {?c}"
    using oc(1) by (simp only: set_append Un_commute)
  moreover have "distinct (map snd (ms_held y) @ drop_nth k (ms_weak y))"
    using oc(2) by (simp only: distinct_append Int_commute simp_thms)
  ultimately have "mp_inv Z L n cnt ?y"
    unfolding mp_inv_def using g2 d n n2 by simp
  moreover have "mp_step S L (Drop_weak C k) y = Inr ?y" if "map_ok Z C" for C
    using rc that ml True by simp
  ultimately show ?thesis using B by (simp add: mp_step_good_def)
qed

lemma mp_step_inv:
  assumes inv: "mp_inv Z L n cnt y" and B: "map_ok Z (op_base a)"
  shows "(\<forall>C. map_ok Z C \<longrightarrow> mp_step S L (at_base C a) y = mp_step S L a y)
     \<and> ((\<exists>y'. mp_step S L a y = Inr y' \<and> mp_inv Z L n cnt y')
        \<or> mp_step S L a y = Inl Null_deref \<and> controls_pinned n y \<and> (\<exists>B args. a = Make B args))"
proof -
  have "mp_step_good S Z L n cnt a y"
    using B by (cases a) (simp_all add: mp_step_make [OF inv] mp_step_release [OF inv] mp_step_drop_weak [OF inv])
  then show ?thesis unfolding mp_step_good_def .
qed

lemma mp_start_inv:
  assumes "segment_ok Z S" and "mp_fits L n cnt" and "MemPoolIPC_new S L B n cnt h = Inr (mp, h')"
  shows "mp_inv Z L n cnt (mp_start mp h')"
  using MemPoolIPC_new_good [OF assms] by (simp add: mp_inv_def mp_start_def)

definition bases_ok :: "nat \<Rightarrow> mp_op list \<Rightarrow> bool" where
  "bases_ok Z ops \<longleftrightarrow> (\<forall>a \<in> set ops. map_ok Z (op_base a))"

lemma bases_ok_Cons [simp]: "bases_ok Z (a # as) \<longleftrightarrow> map_ok Z (op_base a) \<and> bases_ok Z as"
  by (simp add: bases_ok_def)

lemma mp_run_inv:
  assumes "mp_inv Z L n cnt y" and "bases_ok Z ops" and "mp_run S L ops y = Inr y'"
  shows "mp_inv Z L n cnt y'"
  using assms
proof (induction ops arbitrary: y)
  case Nil
  then show ?case by simp
next
  case (Cons a as)
  from Cons.prems(3) obtain y1 where y1: "mp_step S L a y = Inr y1" "mp_run S L as y1 = Inr y'"
    by (auto split: sum.splits)
  have "map_ok Z (op_base a)" using Cons.prems(2) by simp
  from mp_step_inv [OF Cons.prems(1) this, of S] y1(1) have "mp_inv Z L n cnt y1" by auto
  with Cons.IH y1(2) Cons.prems(2) show ?case by simp
qed

text \<open>Whether an operation leaves a weak pointer behind.\<close>

fun leaves_weak :: "mp_op \<Rightarrow> bool" where
  "leaves_weak (Release B k weak) = weak"
| "leaves_weak _ = False"

lemma mp_step_no_weak:
  "ms_weak y = [] \<Longrightarrow> \<not> leaves_weak a \<Longrightarrow> mp_step S L a y = Inr y' \<Longrightarrow> ms_weak y' = []"
  by (cases a) (auto simp: Let_def split: sum.splits option.splits if_splits)

lemma mp_run_no_weak:
  assumes "mp_inv Z L n cnt y" and "bases_ok Z ops" and "ms_weak y = []"
    and "\<forall>a \<in> set ops. \<not> leaves_weak a"
  shows "\<exists>y'. mp_run S L ops y = Inr y' \<and> mp_inv Z L n cnt y' \<and> ms_weak y' = []"
  using assms
proof (induction ops arbitrary: y)
  case Nil
  then show ?case by simp
next
  case (Cons a as)
  have "map_ok Z (op_base a)" using Cons.prems(2) by simp
  from mp_step_inv [OF Cons.prems(1) this, of S] Cons.prems(3) obtain y1 where
    y1: "mp_step S L a y = Inr y1" "mp_inv Z L n cnt y1" by (auto simp: controls_pinned_def)
  have "ms_weak y1 = []" using mp_step_no_weak [OF Cons.prems(3) _ y1(1)] Cons.prems(4) by simp
  from Cons.IH [OF y1(2) _ this] Cons.prems(2,4) y1(1) show ?case by simp
qed

section \<open>Properties of the pool of shared pointers\<close>

lemma mp_inv_cards:
  assumes "mp_inv Z L n cnt y"
  shows "card (set (map fst (ms_held y))) = length (ms_held y)"
    and "card (set (map snd (ms_held y) @ ms_weak y)) = length (ms_held y) + length (ms_weak y)"
    and "length (ms_held y) + length (ms_weak y) \<le> unat n"
proof -
  obtain mp lg where ml: "ms_pool y = (mp, lg)" by fastforce
  from assms ml have g: "mp_good Z L (set (map fst (ms_held y))) (set (map snd (ms_held y) @ ms_weak y)) (mp, lg)"
    and d: "distinct (map fst (ms_held y))" "distinct (map snd (ms_held y) @ ms_weak y)"
    and n: "mp_nElements mp = n" by (simp_all add: mp_inv_def)
  show "card (set (map fst (ms_held y))) = length (ms_held y)" using distinct_card [OF d(1)] by simp
  show c: "card (set (map snd (ms_held y) @ ms_weak y)) = length (ms_held y) + length (ms_weak y)"
    using distinct_card [OF d(2)] by simp
  from g show "length (ms_held y) + length (ms_weak y) \<le> unat n"
  proof (rule mp_goodE)
    fix sc
    assume "ipc_good (set (map snd (ms_held y) @ ms_weak y)) sc" "ipc_nElementsTotal sc = unat (mp_nElements mp)"
    then show ?thesis using ipc_good_card [of _ sc] c n by (metis le_add1)
  qed
qed

lemma make_pooled_cases:
  assumes inv: "mp_inv Z L n cnt y" and B: "map_ok Z B"
  shows "make_pooled S L B args (ms_pool y) h = Inl Null_deref \<longleftrightarrow> controls_pinned n y"
    and "length (ms_held y) = unat n \<Longrightarrow> make_pooled S L B args (ms_pool y) h = Inr (None, ms_pool y, h)"
    and "length (ms_held y) + length (ms_weak y) < unat n \<Longrightarrow>
      \<exists>pc ml. make_pooled S L B args (ms_pool y) h = Inr (Some pc, ml, h)"
proof -
  obtain mp lg where ml: "ms_pool y = (mp, lg)" by fastforce
  from inv ml have g: "mp_good Z L (set (map fst (ms_held y))) (set (map snd (ms_held y) @ ms_weak y)) (mp, lg)"
    and n: "mp_nElements mp = n" by (simp_all add: mp_inv_def)
  note c = mp_inv_cards [OF inv]
  show full: "make_pooled S L B args (ms_pool y) h = Inr (None, ms_pool y, h)"
    if "length (ms_held y) = unat n"
    using make_pooled_full [OF g] c(1) n that ml by simp
  show some: "\<exists>pc ml. make_pooled S L B args (ms_pool y) h = Inr (Some pc, ml, h)"
    if lt: "length (ms_held y) + length (ms_weak y) < unat n"
  proof -
    have "card (set (map fst (ms_held y))) < unat (mp_nElements mp)"
      unfolding c(1) n using lt by linarith
    moreover have "card (set (map snd (ms_held y) @ ms_weak y)) < unat (mp_nElements mp)"
      unfolding c(2) n using lt by linarith
    ultimately obtain p k mp' lg' where
      "\<forall>B h. map_ok Z B \<longrightarrow> make_pooled S L B args (mp, lg) h = Inr (Some (p, k), (mp', lg'), h)"
      using make_pooled_good [OF g, of S args] by (elim meta_impE exE conjE)
    then have "make_pooled S L B args (ms_pool y) h = Inr (Some (p, k), (mp', lg'), h)" using B ml by simp
    then show ?thesis by blast
  qed
  have pinned: "make_pooled S L B args (ms_pool y) h = Inl Null_deref"
    if "length (ms_held y) < unat n" "length (ms_held y) + length (ms_weak y) = unat n"
    using make_pooled_no_control [OF g _ _ B] c that n ml by simp
  consider "length (ms_held y) = unat n"
    | "length (ms_held y) < unat n" "length (ms_held y) + length (ms_weak y) = unat n"
    | "length (ms_held y) + length (ms_weak y) < unat n" using c(3) by linarith
  then show "make_pooled S L B args (ms_pool y) h = Inl Null_deref \<longleftrightarrow> controls_pinned n y"
  proof cases
    case 1
    with full c(3) show ?thesis by (simp add: controls_pinned_def)
  next
    case 2
    with pinned show ?thesis by (auto simp: controls_pinned_def)
  next
    case 3
    with some show ?thesis by (auto simp: controls_pinned_def)
  qed
qed

lemma mp_make_length:
  assumes "mp_inv Z L n cnt y" and "map_ok Z B" and "length (ms_held y) + length (ms_weak y) < unat n"
  shows "\<exists>y'. mp_step S L (Make B args) y = Inr y' \<and> mp_inv Z L n cnt y'
       \<and> length (ms_held y') = Suc (length (ms_held y)) \<and> ms_weak y' = ms_weak y"
proof -
  from make_pooled_cases(3) [OF assms(1,2,3), of S args "ms_heap y"] obtain pc ml where
    "make_pooled S L B args (ms_pool y) (ms_heap y) = Inr (Some pc, ml, ms_heap y)" by blast
  moreover have "map_ok Z (op_base (Make B args))" using assms(2) by simp
  from mp_step_inv [OF assms(1) this, of S] have
    "mp_step S L (Make B args) y = Inl Null_deref \<or>
     (\<exists>y'. mp_step S L (Make B args) y = Inr y' \<and> mp_inv Z L n cnt y')" by blast
  ultimately show ?thesis by auto
qed

lemma mp_release_weak_length:
  assumes "mp_inv Z L n cnt y" and "map_ok Z B" and "k < length (ms_held y)"
  shows "\<exists>y'. mp_step S L (Release B k True) y = Inr y' \<and> mp_inv Z L n cnt y'
       \<and> length (ms_held y') = length (ms_held y) - 1 \<and> length (ms_weak y') = Suc (length (ms_weak y))"
proof -
  have "map_ok Z (op_base (Release B k True))" using assms(2) by simp
  from mp_step_inv [OF assms(1) this, of S] obtain y' where
    y': "mp_step S L (Release B k True) y = Inr y'" "mp_inv Z L n cnt y'" by auto
  then show ?thesis
    using assms(3) by (auto simp: Let_def length_drop_nth split: sum.splits)
qed

lemma mp_inv_statistics:
  assumes "mp_inv Z L n cnt y"
  shows "mp_Statistics (fst (ms_pool y)) =
     (length (ms_held y) + length (ms_weak y), unat n - (length (ms_held y) + length (ms_weak y)))"
proof -
  obtain mp lg where ml: "ms_pool y = (mp, lg)" by fastforce
  from assms ml have g: "mp_good Z L (set (map fst (ms_held y))) (set (map snd (ms_held y) @ ms_weak y)) (mp, lg)"
    and n: "mp_nElements mp = n" by (simp_all add: mp_inv_def)
  from g show ?thesis
  proof (rule mp_goodE)
    fix sc
    assume a: "mp_cb mp = Some sc" "ipc_good (set (map snd (ms_held y) @ ms_weak y)) sc"
      "ipc_nElementsTotal sc = unat (mp_nElements mp)"
    have "length (ms_held y) + length (ms_weak y) + ipc_nAvailable sc = unat n"
      using ipc_good_card [OF a(2)] mp_inv_cards(2) [OF assms] a(3) n by simp
    then show ?thesis
      using a(1,3) n ml by (simp add: mp_Statistics_def cb_statistics_def ipc_Statistics_def) linarith
  qed
qed


definition example_ipc_layout :: ipc_layout where
  "example_ipc_layout =
     \<lparr>il_elem = example_elem, il_sizeof_cb = 64, il_alignof_cb = 8, il_sizeof_state = 96, il_sizeof_count = 32\<rparr>"

lemmas ipc_construction_defs = MemPoolIPC_new_def ControlBlockAllocator_new_def ObjectAllocator_new_def
  construct_state_def ipc_Allocate_def ipc_state_new_def RawMemoryIPC_Allocate_def RawMemoryIPC_new_def
  ipc_shared_ptr_new_def cb_rebind_def cb_allocate_def cb_deallocate_def ipc_Loan_def ipc_Accept_def
  ipc_GetSizeAndAlignment_def destroy_state_def ipc_destroy_def RawMemoryIPC_destroy_def
  bump_segment_def abs_ptr_def seg_off_def example_ipc_layout_def example_elem_def

lemma example_mempool:
  "\<exists>mp h'. MemPoolIPC_new bump_segment example_ipc_layout 65536 2 3 64 = Inr (mp, h')"
  by (simp add: ipc_construction_defs Let_def)

lemma example_mempool_fits: "mp_fits example_ipc_layout 2 3"
  by (simp add: mp_fits_def ipc_fits_def example_ipc_layout_def example_elem_def)


text \<open>
  C32. Position independence: where the processes have mapped the segment makes no difference. Any
  history, each operation performed at its own process's base address, runs exactly as if one process
  had done it all, and leaves the same pool, the same log of lifetimes and the same pointers.
\<close>

theorem mempool_position_independent:
  assumes "segment_ok Z S" and "mp_fits L n cnt"
    and "MemPoolIPC_new S L B n cnt h = Inr (mp, h')"
    and "bases_ok Z ops" and "map_ok Z B'"
  shows "mp_run S L (map (at_base B') ops) (mp_start mp h') = mp_run S L ops (mp_start mp h')"
proof -
  have "mp_run S L (map (at_base B') ops) y = mp_run S L ops y" if "mp_inv Z L n cnt y" for y
    using that assms(4)
  proof (induction ops arbitrary: y)
    case Nil
    then show ?case by simp
  next
    case (Cons a as)
    then have "map_ok Z (op_base a)" by simp
    note step = mp_step_inv [OF Cons.prems(1) this, of S]
    have eq: "mp_step S L (at_base B' a) y = mp_step S L a y" using step assms(5) by blast
    show ?case
    proof (cases "mp_step S L a y")
      case (Inl e)
      then show ?thesis by (simp add: eq)
    next
      case (Inr y1)
      with step have "mp_inv Z L n cnt y1" by auto
      with Cons.IH Cons.prems(2) Inr show ?thesis by (simp add: eq)
    qed
  qed
  then show ?thesis using mp_start_inv [OF assms(1-3)] by blast
qed

lemma mempool_position_independent_witness:
  "\<exists>mp h'. mp_run bump_segment example_ipc_layout [Make 65536 True, Release 65536 0 False] (mp_start mp h')
     = mp_run bump_segment example_ipc_layout [Make 65536 True, Release 131072 0 False] (mp_start mp h')"
proof -
  from example_mempool obtain mp h' where
    mp: "MemPoolIPC_new bump_segment example_ipc_layout 65536 2 3 64 = Inr (mp, h')" by blast
  have "bases_ok 4096 [Make 65536 True, Release 131072 0 False]" "map_ok 4096 65536"
    by (simp_all add: map_ok_def bases_ok_def)
  from mempool_position_independent [OF bump_segment_ok example_mempool_fits mp this] show ?thesis by auto
qed



end
