(* ===== verification/IPC_Grower.thy ===== *)
theory IPC_Grower
  imports IPC_MemPool
begin

text \<open>
  \<^verbatim>\<open>MempoolIPC/src/MemPoolIPC.h\<close>, class \<open>MemPoolGrowerIPC\<close>: when the pool has nothing left it
  is replaced by one of twice the size. The elements of the replaced pool keep its state alive, so the
  model keeps every pool there has been; the last one is the member \<open>pool\<close>, and an element names the
  pool it came from.
\<close>

section \<open>MemPoolGrowerIPC\<close>

record grower =
  gr_pools :: "(mempool \<times> lifetime list) list"
  growthRate :: size_t
  nReconstructions :: nat

type_synonym gptr = "nat \<times> sptr"

definition MemPoolGrowerIPC_new ::
  "'h segment \<Rightarrow> ipc_layout \<Rightarrow> addr \<Rightarrow> size_t \<Rightarrow> size_t \<Rightarrow> 'h \<Rightarrow> (grower \<times> 'h) result" where
  "MemPoolGrowerIPC_new S L B n cnt h =
     (case MemPoolIPC_new S L B n cnt h of
        Inl e \<Rightarrow> Inl e
      | Inr (mp, h') \<Rightarrow> Inr (\<lparr>gr_pools = [(mp, [])], growthRate = 2, nReconstructions = 0\<rparr>, h'))"

definition grower_make ::
  "'h segment \<Rightarrow> ipc_layout \<Rightarrow> addr \<Rightarrow> bool \<Rightarrow> grower \<Rightarrow> 'h \<Rightarrow> (gptr option \<times> grower \<times> 'h) result" where
  "grower_make S L B has_args g h =
     (let gen = length (gr_pools g) - 1;
          cur = last (gr_pools g);
          old = butlast (gr_pools g)
      in case make_pooled S L B has_args cur h of
           Inl e \<Rightarrow> Inl e
         | Inr (Some pc, cur', h') \<Rightarrow> Inr (Some (gen, pc), g\<lparr>gr_pools := old @ [cur']\<rparr>, h')
         | Inr (None, cur', h') \<Rightarrow>
             let oldSize = mp_nElements (fst cur');
                 newSize = (if oldSize = 0 then 1 else growthRate g * oldSize)
             in (case ReConstruct S L B (fst cur') newSize h' of
                   Inl e \<Rightarrow> Inl e
                 | Inr (mp, h1) \<Rightarrow>
                     (case make_pooled S L B has_args (mp, []) h1 of
                        Inl e \<Rightarrow> Inl e
                      | Inr (r, next, h2) \<Rightarrow>
                          Inr (map_option (\<lambda>pc. (Suc gen, pc)) r,
                               g\<lparr>gr_pools := old @ [cur', next],
                                 nReconstructions := nReconstructions g + 1\<rparr>, h2))))"

definition grower_release :: "ipc_layout \<Rightarrow> addr \<Rightarrow> gptr \<Rightarrow> grower \<Rightarrow> grower result" where
  "grower_release L B e g =
     (case e of (gen, p, c) \<Rightarrow>
        if length (gr_pools g) \<le> gen then Inl Out_of_bounds
        else (case release_object L B p (gr_pools g ! gen) of
                Inl f \<Rightarrow> Inl f
              | Inr ml \<Rightarrow>
             (case release_control B c ml of
                Inl f \<Rightarrow> Inl f
              | Inr ml' \<Rightarrow> Inr (g\<lparr>gr_pools := (gr_pools g)[gen := ml']\<rparr>))))"

section \<open>Runs of the grower's clients\<close>

datatype gr_op = GMake addr bool | GRelease addr nat

record 'h gr_sys =
  gs_grower :: grower
  gs_heap :: 'h
  gs_held :: "gptr list"
  gs_denied :: nat

text \<open>\<open>gs_denied\<close> counts the requests that were answered with a null pointer.\<close>

definition gr_start :: "grower \<Rightarrow> 'h \<Rightarrow> 'h gr_sys" where
  "gr_start g h = \<lparr>gs_grower = g, gs_heap = h, gs_held = [], gs_denied = 0\<rparr>"

fun gr_step :: "'h segment \<Rightarrow> ipc_layout \<Rightarrow> gr_op \<Rightarrow> 'h gr_sys \<Rightarrow> 'h gr_sys result" where
  "gr_step S L (GMake B args) y =
     (case grower_make S L B args (gs_grower y) (gs_heap y) of
        Inl e \<Rightarrow> Inl e
      | Inr (None, g, h) \<Rightarrow> Inr (y\<lparr>gs_grower := g, gs_heap := h, gs_denied := gs_denied y + 1\<rparr>)
      | Inr (Some e, g, h) \<Rightarrow> Inr (y\<lparr>gs_grower := g, gs_heap := h, gs_held := gs_held y @ [e]\<rparr>))"
| "gr_step S L (GRelease B k) y =
     (if length (gs_held y) \<le> k then Inr y
      else (case grower_release L B (gs_held y ! k) (gs_grower y) of
              Inl e \<Rightarrow> Inl e
            | Inr g \<Rightarrow> Inr (y\<lparr>gs_grower := g, gs_held := drop_nth k (gs_held y)\<rparr>)))"

fun gr_run :: "'h segment \<Rightarrow> ipc_layout \<Rightarrow> gr_op list \<Rightarrow> 'h gr_sys \<Rightarrow> 'h gr_sys result" where
  "gr_run S L [] y = Inr y"
| "gr_run S L (a # as) y = (case gr_step S L a y of Inl e \<Rightarrow> Inl e | Inr y' \<Rightarrow> gr_run S L as y')"

fun gr_base :: "gr_op \<Rightarrow> addr" where
  "gr_base (GMake B args) = B"
| "gr_base (GRelease B k) = B"

section \<open>One generation at a time\<close>

definition held_in :: "nat \<Rightarrow> gptr list \<Rightarrow> sptr list" where
  "held_in i held = map snd (filter (\<lambda>e. fst e = i) held)"

definition as_sys :: "mempool \<times> lifetime list \<Rightarrow> sptr list \<Rightarrow> unit mp_sys" where
  "as_sys ml hs = \<lparr>ms_pool = ml, ms_heap = (), ms_held = hs, ms_weak = []\<rparr>"

lemma as_sys_sel [simp]:
  "ms_pool (as_sys ml hs) = ml" "ms_held (as_sys ml hs) = hs" "ms_weak (as_sys ml hs) = []"
  by (simp_all add: as_sys_def)

lemma held_in_append [simp]: "held_in i (xs @ ys) = held_in i xs @ held_in i ys"
  by (simp add: held_in_def)

lemma held_in_single: "held_in i [e] = (if fst e = i then [snd e] else [])"
  by (simp add: held_in_def)

lemma held_in_drop_nth:
  assumes "k < length held"
  shows "\<exists>j < length (held_in (fst (held ! k)) held).
      held_in (fst (held ! k)) held ! j = snd (held ! k)
    \<and> (\<forall>i. held_in i (drop_nth k held) =
         (if i = fst (held ! k) then drop_nth j (held_in i held) else held_in i held))"
proof -
  let ?e = "held ! k"
  let ?j = "length (held_in (fst ?e) (take k held))"
  have split: "held = take k held @ ?e # drop (Suc k) held" by (rule id_take_nth_drop [OF assms])
  have h: "held_in i held = held_in i (take k held) @ held_in i [?e] @ held_in i (drop (Suc k) held)" for i
  proof -
    have "held_in i held = held_in i (take k held @ [?e] @ drop (Suc k) held)"
      using split by simp
    then show ?thesis by (simp only: held_in_append)
  qed
  have a: "?j < length (held_in (fst ?e) held)" by (subst h) (simp add: held_in_single)
  have b: "held_in (fst ?e) held ! ?j = snd ?e" by (subst h) (simp add: held_in_single nth_append)
  have c: "held_in i (drop_nth k held) = (if i = fst ?e then drop_nth ?j (held_in i held) else held_in i held)" for i
    using h [of i] by (auto simp: drop_nth_def held_in_single)
  from a b c show ?thesis by blast
qed

definition gr_inv :: "nat \<Rightarrow> ipc_layout \<Rightarrow> size_t \<Rightarrow> size_t \<Rightarrow> 'h gr_sys \<Rightarrow> bool" where
  "gr_inv Z L n cnt y \<longleftrightarrow> (let g = gs_grower y in
     gr_pools g \<noteq> [] \<and> growthRate g = 2 \<and> nReconstructions g + 1 = length (gr_pools g)
     \<and> gs_denied y = 0
     \<and> (\<forall>e \<in> set (gs_held y). fst e < length (gr_pools g))
     \<and> (\<forall>i < length (gr_pools g).
          mp_inv Z L (n * 2 ^ i) cnt (as_sys (gr_pools g ! i) (held_in i (gs_held y)))
          \<and> unat (n * 2 ^ i) = unat n * 2 ^ i))"

lemma mp_make_as_sys:
  assumes "mp_inv Z L n cnt (as_sys ml hs)" and "map_ok Z B"
  shows "(length hs = unat n \<and> make_pooled S L B args ml h = Inr (None, ml, h)) \<or>
     (\<exists>pc ml'. make_pooled S L B args ml h = Inr (Some pc, ml', h) \<and> mp_inv Z L n cnt (as_sys ml' (hs @ [pc])))"
proof (cases "length hs = unat n")
  case True
  then show ?thesis using make_pooled_cases(2) [OF assms, of S args h] by simp
next
  case False
  have "length hs \<le> unat n" using mp_inv_cards(3) [OF assms(1)] by simp
  with False have "length hs < unat n" by simp
  moreover obtain mp lg where ml: "ml = (mp, lg)" by fastforce
  note c = mp_inv_cards [OF assms(1), unfolded as_sys_sel]
  from assms(1) ml have g: "mp_good Z L (set (map fst hs)) (set (map snd hs)) (mp, lg)"
    and d: "distinct (map fst hs)" "distinct (map snd hs)"
    and n: "mp_nElements mp = n" "mp_countPerElement mp = cnt" by (simp_all add: mp_inv_def)
  ultimately have "card (set (map fst hs)) < unat (mp_nElements mp)" "card (set (map snd hs)) < unat (mp_nElements mp)"
    using c(1,2) by simp_all
  from make_pooled_good [OF g this, of S args] obtain p k mp' lg' where
    "\<forall>B h. map_ok Z B \<longrightarrow> make_pooled S L B args (mp, lg) h = Inr (Some (p, k), (mp', lg'), h)"
    "p \<notin> set (map fst hs)" "k \<notin> set (map snd hs)"
    "mp_good Z L (insert p (set (map fst hs))) (insert k (set (map snd hs))) (mp', lg')"
    "mp_nElements mp' = mp_nElements mp" "mp_countPerElement mp' = mp_countPerElement mp"
    by (elim exE conjE)
  with assms(2) d n ml show ?thesis by (intro disjI2) (simp add: mp_inv_def)
qed

lemma mp_release_as_sys:
  assumes "mp_inv Z L n cnt (as_sys ml hs)" and "map_ok Z B" and "j < length hs"
  shows "\<exists>ml1 ml2. release_object L B (fst (hs ! j)) ml = Inr ml1
     \<and> release_control B (snd (hs ! j)) ml1 = Inr ml2 \<and> mp_inv Z L n cnt (as_sys ml2 (drop_nth j hs))"
proof -
  have "map_ok Z (op_base (Release B j False))" using assms(2) by simp
  from mp_step_inv [OF assms(1) this, of undefined] obtain y where
    y: "mp_step undefined L (Release B j False) (as_sys ml hs) = Inr y" "mp_inv Z L n cnt y" by auto
  then show ?thesis
    using assms(3) by (auto simp: Let_def as_sys_def split: sum.splits)
qed

text \<open>A pool that lies in a segment of at most \<open>2 ^ 59\<close> bytes can double without a size wrapping.\<close>

lemma double_fits:
  assumes "mp_inv Z L n cnt (as_sys ml hs)" and "Z \<le> 2 ^ 59" and "0 < n"
  shows "mp_fits L (2 * n) cnt \<and> unat (2 * n) = 2 * unat n \<and> unat n \<le> Z"
proof -
  obtain mp lg where ml: "ml = (mp, lg)" by fastforce
  with assms(1) have g: "mp_good Z L (set (map fst hs)) (set (map snd hs)) (mp, lg)"
    and n: "mp_nElements mp = n" "mp_countPerElement mp = cnt" by (simp_all add: mp_inv_def)
  from g show ?thesis
  proof (rule mp_goodE)
    fix so sc
    assume a: "elems_ok Z L (mp_countPerElement mp) so" "ipc_good (set (map fst hs)) so"
      "ipc_nElementsTotal so = unat (mp_nElements mp)"
      "ipc_good (set (map snd hs)) sc" "ipc_placed Z sc" "ipc_sizeSharedT sc = il_sizeof_cb L"
      "countPerElement sc = 1" "ipc_nElementsTotal sc = unat (mp_nElements mp)"
    let ?sz = "et_size (il_elem L)"
    have p: "0 < unat ?sz" "0 < unat cnt" "0 < unat n" "0 < ?sz" "0 < cnt"
      using a(1,2) n assms(3) by (auto simp: elems_ok_def ipc_placed_def ipc_good_def word_less_nat_alt)
    have x: "unat ?sz * (unat n * unat cnt) \<le> Z"
      using a(1,3) n by (auto simp: elems_ok_def ipc_placed_def)
    have y: "unat (il_sizeof_cb L) * unat n \<le> Z" "0 < il_sizeof_cb L"
      using a(5-8) n by (simp_all add: ipc_placed_def)
    have "unat n \<le> (unat ?sz * unat cnt) * unat n" using p by simp
    also have "\<dots> = unat ?sz * (unat n * unat cnt)" by (simp only: mult_ac)
    finally have nz: "unat n \<le> Z" using x by (rule order_trans)
    have u: "unat (2 * n) = 2 * unat n"
      using nz assms(2) by (simp add: unat_word_ariths)
    then have "0 < 2 * n" using p(3) by (simp add: word_less_nat_alt)
    moreover have "unat ?sz * (unat (2 * n) * unat cnt) = 2 * (unat ?sz * (unat n * unat cnt))"
      "unat (il_sizeof_cb L) * (unat (2 * n) * unat (1 :: size_t)) = 2 * (unat (il_sizeof_cb L) * unat n)"
      by (simp_all add: u)
    moreover have "2 * Z < 2 ^ 64" "16 * Z < 2 ^ 64" using assms(2) by simp_all
    then have "8 * (2 * unat n) < 2 ^ 64" "2 * (unat ?sz * (unat n * unat cnt)) < 2 ^ 64"
      "2 * (unat (il_sizeof_cb L) * unat n) < 2 ^ 64"
      using x y(1) nz by linarith+
    ultimately have "ipc_fits ?sz (2 * n) cnt" "ipc_fits (il_sizeof_cb L) (2 * n) 1"
      unfolding ipc_fits_def using u y(2) p(4,5) by simp_all
    then show ?thesis using u nz by (simp add: mp_fits_def)
  qed
qed

section \<open>Construction fails only for want of memory\<close>

lemma ipc_Allocate_error: "ipc_Allocate S sz al s h = Inl e \<Longrightarrow> e = Bad_alloc"
  by (auto simp: ipc_Allocate_def RawMemoryIPC_Allocate_def Let_def split: sum.splits prod.splits if_splits)

lemma construct_state_error: "construct_state S L n cnt h = Inl e \<Longrightarrow> e = Bad_alloc"
  by (auto simp: construct_state_def Let_def split: prod.splits if_splits)

lemma construct_state_Inr: "construct_state S L n cnt h = Inr (s, r) \<Longrightarrow> s = ipc_state_new n cnt"
  by (auto simp: construct_state_def Let_def split: prod.splits if_splits)

lemma ObjectAllocator_new_error: "ObjectAllocator_new S L n cnt h = Inl e \<Longrightarrow> e = Bad_alloc"
  by (auto simp: ObjectAllocator_new_def split: sum.splits dest: construct_state_error ipc_Allocate_error)

lemma one_off_control_cases:
  assumes "segment_ok Z S" and "0 < il_sizeof_cb L" and "map_ok Z B"
  obtains (throws) "ipc_shared_ptr_new S L B (Some (ipc_state_new 1 1)) h = Inl Bad_alloc"
  | (made) c s h' s2 where "ipc_shared_ptr_new S L B (Some (ipc_state_new 1 1)) h = Inr (c, s, h')"
      "cb_deallocate B c (Some s) = Inr (Some s2)"
proof (cases "ipc_Allocate S (il_sizeof_cb L) (il_alignof_cb L) (ipc_state_new 1 1) h")
  case (Inl e)
  then have "ipc_shared_ptr_new S L B (Some (ipc_state_new 1 1)) h = Inl Bad_alloc"
    using ipc_Allocate_error [OF Inl] by (simp add: ipc_shared_ptr_new_def cb_rebind_def ipc_state_new_def)
  then show thesis by (rule throws)
next
  case (Inr sh)
  then obtain s1 h1 where
    all: "ipc_Allocate S (il_sizeof_cb L) (il_alignof_cb L) (ipc_state_new 1 1) h = Inr (s1, h1)"
    by (cases sh) simp
  have "ipc_fits (il_sizeof_cb L) 1 1" using assms(2) by (simp add: ipc_fits_def)
  note s1 = ipc_Allocate_good [OF assms(1) this all]
  then have "ipc_good {} s1" "0 < ipc_nAvailable s1" by simp_all
  from ipc_Loan_good [OF this] obtain c s where
    c: "ipc_Loan s1 = Inr (c, s)" "c \<in> ipc_blocks s1" "c \<noteq> nullptr" "ipc_good {c} s" by blast
  have "unat c < Z" using placed_block [OF _ c(2)] s1 by simp
  then have off: "seg_off B (abs_ptr B c) = c" by (rule seg_off_abs_ptr [OF assms(3)])
  obtain s2 where "ipc_Accept c s = Inr s2" using ipc_Accept_good [OF c(4), of c] by blast
  then have de: "cb_deallocate B c (Some s) = Inr (Some s2)" using c(3) off by (simp add: cb_deallocate_def)
  have "ipc_shared_ptr_new S L B (Some (ipc_state_new 1 1)) h = Inr (c, s, h1)"
    using all c off by (simp add: ipc_shared_ptr_new_def cb_rebind_def cb_allocate_def)
      (simp add: ipc_state_new_def)
  from this de show thesis by (rule made)
qed

lemma MemPoolIPC_new_error:
  assumes "segment_ok Z S" and "0 < il_sizeof_cb L" and "map_ok Z B"
    and err: "MemPoolIPC_new S L B n cnt h = Inl e"
  shows "e = Bad_alloc"
proof (cases "ControlBlockAllocator_new S L B n h")
  case (Inr r)
  then show ?thesis using err
    by (auto simp: MemPoolIPC_new_def split: sum.splits prod.splits dest: ObjectAllocator_new_error)
next
  case (Inl e')
  then have e: "e' = e" using err by (simp add: MemPoolIPC_new_def)
  have "e' = Bad_alloc"
  proof (rule ccontr)
    assume no: "e' \<noteq> Bad_alloc"
    obtain s qr h1 where a1: "construct_state S L n 1 h = Inr (s, qr, h1)"
      using Inl no construct_state_error [of S L n 1 h]
      by (cases "construct_state S L n 1 h") (auto simp: ControlBlockAllocator_new_def)
    obtain one qr1 h2 where a2: "construct_state S L 1 1 h1 = Inr (one, qr1, h2)"
      using Inl no a1 construct_state_error [of S L 1 1 h1]
      by (cases "construct_state S L 1 1 h1") (auto simp: ControlBlockAllocator_new_def)
    obtain d qr2 h3 where a3: "ObjectAllocator_new S L 1 1 h2 = Inr (d, qr2, h3)"
      using Inl no a1 a2 ObjectAllocator_new_error [of S L 1 1 h2]
      by (cases "ObjectAllocator_new S L 1 1 h2") (auto simp: ControlBlockAllocator_new_def)
    note a = a1 a2 a3
    have one: "one = ipc_state_new 1 1" by (rule construct_state_Inr [OF a(2)])
    show False
    proof (rule one_off_control_cases [OF assms(1-3), of h3])
      assume "ipc_shared_ptr_new S L B (Some (ipc_state_new 1 1)) h3 = Inl Bad_alloc"
      then show False using Inl a one no by (simp add: ControlBlockAllocator_new_def)
    next
      fix c s1 h4 s2
      assume m: "ipc_shared_ptr_new S L B (Some (ipc_state_new 1 1)) h3 = Inr (c, s1, h4)"
        "cb_deallocate B c (Some s1) = Inr (Some s2)"
      obtain szT alT where gs: "ipc_GetSizeAndAlignment s1 = (szT, alT)" by fastforce
      show False
        using Inl a one no m gs ipc_Allocate_error [of S szT alT s h4]
        by (cases "ipc_Allocate S szT alT s h4") (auto simp: ControlBlockAllocator_new_def Let_def)
    qed
  qed
  with e show ?thesis by simp
qed

section \<open>The invariant of the grower\<close>

lemma power2_unat_Suc:
  fixes n :: size_t
  assumes "unat (n * 2 ^ i) = unat n * 2 ^ i" and "unat (2 * (n * 2 ^ i)) = 2 * unat (n * 2 ^ i)"
  shows "unat (n * 2 ^ Suc i) = unat n * 2 ^ Suc i"
  using assms by (simp add: mult_ac)

lemma nth_butlast_snoc:
  "i < length xs \<Longrightarrow> (butlast xs @ [x]) ! i = (if i = length xs - 1 then x else xs ! i)"
  by (auto simp: nth_append nth_butlast)

lemma gr_invD:
  assumes "gr_inv Z L n cnt y" and "g = gs_grower y"
  shows "gr_pools g \<noteq> []" "growthRate g = 2" "nReconstructions g + 1 = length (gr_pools g)" "gs_denied y = 0"
    "\<And>e. e \<in> set (gs_held y) \<Longrightarrow> fst e < length (gr_pools g)"
    "\<And>i. i < length (gr_pools g) \<Longrightarrow> mp_inv Z L (n * 2 ^ i) cnt (as_sys (gr_pools g ! i) (held_in i (gs_held y)))"
    "\<And>i. i < length (gr_pools g) \<Longrightarrow> unat (n * 2 ^ i) = unat n * 2 ^ i"
  using assms by (auto simp: gr_inv_def Let_def)

text \<open>A pointer is given back; a pointer is made from the newest pool; a new pool is made when that one is exhausted.\<close>

lemma gr_release_inv:
  assumes inv: "gr_inv Z L n cnt y" and B': "map_ok Z B'"
  shows "\<exists>y'. gr_step S L (GRelease B' k) y = Inr y' \<and> gr_inv Z L n cnt y'"
proof (cases "k < length (gs_held y)")
  case False
  with inv show ?thesis by simp
next
  case True
  define g where "g = gs_grower y"
  note i = gr_invD [OF inv g_def]
  let ?e = "gs_held y ! k"
  have lt: "fst ?e < length (gr_pools g)" using i(5) True by simp
  from held_in_drop_nth [OF True] obtain j where
    j: "j < length (held_in (fst ?e) (gs_held y))" "held_in (fst ?e) (gs_held y) ! j = snd ?e"
      "\<And>i. held_in i (drop_nth k (gs_held y)) =
         (if i = fst ?e then drop_nth j (held_in i (gs_held y)) else held_in i (gs_held y))" by blast
  from mp_release_as_sys [OF i(6) [OF lt] B' j(1)] j(2) obtain ml1 ml2 where
    r: "release_object L B' (fst (snd ?e)) (gr_pools g ! fst ?e) = Inr ml1"
      "release_control B' (snd (snd ?e)) ml1 = Inr ml2"
      "mp_inv Z L (n * 2 ^ fst ?e) cnt (as_sys ml2 (drop_nth j (held_in (fst ?e) (gs_held y))))"
    by auto
  let ?y = "y\<lparr>gs_grower := g\<lparr>gr_pools := (gr_pools g)[fst ?e := ml2]\<rparr>, gs_held := drop_nth k (gs_held y)\<rparr>"
  obtain e1 e2 e3 where e: "?e = (e1, e2, e3)" by (cases ?e)
  have "gr_step S L (GRelease B' k) y = Inr ?y"
    using True r(1,2) lt unfolding e by (simp add: e grower_release_def g_def [symmetric])
  moreover have "set (drop_nth k (gs_held y)) \<subseteq> set (gs_held y)"
    by (auto simp: drop_nth_def dest: in_set_takeD in_set_dropD)
  then have "gr_inv Z L n cnt ?y"
    using i r(3) by (auto simp: gr_inv_def Let_def j(3) nth_list_update)
  ultimately show ?thesis by blast
qed

lemma gr_take_inv:
  assumes inv: "gr_inv Z L n cnt y" and g: "g = gs_grower y" and gen: "length (gr_pools g) = Suc gen"
    and m: "make_pooled S L B' args (last (gr_pools g)) (gs_heap y) = Inr (Some pc, ml', gs_heap y)"
      "mp_inv Z L (n * 2 ^ gen) cnt (as_sys ml' (held_in gen (gs_held y) @ [pc]))"
  shows "\<exists>y'. gr_step S L (GMake B' args) y = Inr y' \<and> gr_inv Z L n cnt y'"
proof -
  note i = gr_invD [OF inv g]
  have bl: "length (butlast (gr_pools g)) = gen" by (simp add: gen)
  let ?y = "y\<lparr>gs_grower := g\<lparr>gr_pools := butlast (gr_pools g) @ [ml']\<rparr>, gs_held := gs_held y @ [(gen, pc)]\<rparr>"
  have "gr_step S L (GMake B' args) y = Inr ?y"
    using m(1) gen by (cases y) (simp add: grower_make_def Let_def g)
  moreover have "gr_inv Z L n cnt ?y"
    using i m(2) gen bl by (auto simp: gr_inv_def Let_def nth_butlast_snoc held_in_single)
  ultimately show ?thesis by blast
qed

lemma gr_grow_inv:
  assumes inv: "gr_inv Z L n cnt y" and g_def: "g = gs_grower y" and len: "length (gr_pools g) = Suc gen"
    and B': "map_ok Z B'" and S: "segment_ok Z S" and Z: "Z \<le> 2 ^ 59" and n: "0 < n" and cb: "0 < il_sizeof_cb L"
    and m: "make_pooled S L B' args (last (gr_pools g)) (gs_heap y) = Inr (None, last (gr_pools g), gs_heap y)"
  shows "gr_step S L (GMake B' args) y = Inl Bad_alloc
     \<or> (\<exists>y'. gr_step S L (GMake B' args) y = Inr y' \<and> gr_inv Z L n cnt y')"
proof -
  note i = gr_invD [OF inv g_def]
  let ?cur = "last (gr_pools g)"
  have gl: "gen < length (gr_pools g)" and cur: "?cur = gr_pools g ! gen" using i(1) len by (simp_all add: last_conv_nth)
  note ci = i(6) [OF gl, folded cur]
  have un: "unat (n * 2 ^ gen) = unat n * 2 ^ gen" using i(7) gl by simp
  have pos: "0 < n * 2 ^ gen" using un n by (simp add: word_less_nat_alt)
  then have nz: "n * 2 ^ gen \<noteq> 0" by simp
  from pos have db: "mp_fits L (2 * (n * 2 ^ gen)) cnt" "unat (2 * (n * 2 ^ gen)) = 2 * unat (n * 2 ^ gen)"
    using double_fits [OF ci Z] by simp_all
  have ne: "mp_nElements (fst ?cur) = n * 2 ^ gen" "mp_countPerElement (fst ?cur) = cnt"
    using ci by (simp_all add: mp_inv_def)
  let ?n2 = "2 * (n * 2 ^ gen)"
  show ?thesis
  proof (cases "MemPoolIPC_new S L B' ?n2 cnt (gs_heap y)")
    case (Inl e)
    with MemPoolIPC_new_error [OF S cb B' Inl] m ne nz i(2) show ?thesis
      by (simp add: grower_make_def Let_def g_def [symmetric] ReConstruct_def)
  next
    case (Inr r)
    then obtain mp h1 where mp: "MemPoolIPC_new S L B' ?n2 cnt (gs_heap y) = Inr (mp, h1)"
      by (cases r) simp
    from MemPoolIPC_new_good [OF S db(1) mp] have new: "mp_inv Z L ?n2 cnt (as_sys (mp, []) [])"
      by (simp add: mp_inv_def)
    have "(0::nat) < unat ?n2" using db(2) pos by (simp add: word_less_nat_alt)
    with mp_make_as_sys [OF new B', of S args h1] obtain pc ml' where
      r: "make_pooled S L B' args (mp, []) h1 = Inr (Some pc, ml', h1)"
        "mp_inv Z L ?n2 cnt (as_sys ml' [pc])" by auto
    let ?y = "y\<lparr>gs_grower := g\<lparr>gr_pools := butlast (gr_pools g) @ [?cur, ml'],
          nReconstructions := nReconstructions g + 1\<rparr>,
        gs_heap := h1, gs_held := gs_held y @ [(Suc gen, pc)]\<rparr>"
    have "gr_step S L (GMake B' args) y = Inr ?y"
      using m mp r(1) ne nz i(2) by (simp add: grower_make_def Let_def g_def [symmetric]
          len ReConstruct_def)
    moreover have pools: "butlast (gr_pools g) @ [?cur, ml'] = gr_pools g @ [ml']"
      using i(1) by (metis append_Cons append_Nil append_assoc append_butlast_last_id)
    have emp: "held_in (Suc gen) (gs_held y) = []"
      using i(5) len by (fastforce simp: held_in_def filter_empty_conv)
    have u2: "unat (n * 2 ^ Suc gen) = unat n * 2 ^ Suc gen"
      using un db(2) by (rule power2_unat_Suc)
    have e2: "?n2 = n * 2 ^ Suc gen" by simp
    have old: "mp_inv Z L (n * 2 ^ i) cnt (as_sys (gr_pools g ! i) (held_in i (gs_held y @ [(Suc gen, pc)])))
        \<and> unat (n * 2 ^ i) = unat n * 2 ^ i" if "i < Suc gen" for i
      using that i(6,7) len by (simp add: held_in_single)
    have last: "mp_inv Z L (n * 2 ^ Suc gen) cnt (as_sys ml' (held_in (Suc gen) (gs_held y @ [(Suc gen, pc)])))"
      using r(2) unfolding e2 by (simp only: held_in_append held_in_single emp fst_conv snd_conv) simp
    have "\<forall>i < Suc (Suc gen). mp_inv Z L (n * 2 ^ i) cnt
          (as_sys ((gr_pools g @ [ml']) ! i) (held_in i (gs_held y @ [(Suc gen, pc)])))
        \<and> unat (n * 2 ^ i) = unat n * 2 ^ i"
      using old last u2 len by (auto simp: nth_append less_Suc_eq)
    then have "gr_inv Z L n cnt ?y"
      unfolding gr_inv_def Let_def
      using i(1-5) len by (fastforce simp: pools less_Suc_eq)
    ultimately show ?thesis by blast
  qed
qed

lemma gr_step_inv:
  assumes inv: "gr_inv Z L n cnt y" and B: "map_ok Z (gr_base a)"
    and S: "segment_ok Z S" and Z: "Z \<le> 2 ^ 59" and n: "0 < n" and cb: "0 < il_sizeof_cb L"
  shows "gr_step S L a y = Inl Bad_alloc \<or> (\<exists>y'. gr_step S L a y = Inr y' \<and> gr_inv Z L n cnt y')"
proof (cases a)
  case (GRelease B' k)
  then show ?thesis using gr_release_inv [OF inv] B by simp
next
  case (GMake B' args)
  define g where "g = gs_grower y"
  note i = gr_invD [OF inv g_def]
  obtain gen where len: "length (gr_pools g) = Suc gen" using i(1) by (cases "gr_pools g") simp_all
  have gl: "gen < length (gr_pools g)" and cur: "last (gr_pools g) = gr_pools g ! gen"
    using i(1) len by (simp_all add: last_conv_nth)
  have B': "map_ok Z B'" using B GMake by simp
  from mp_make_as_sys [OF i(6) [OF gl, folded cur] B', of S args "gs_heap y"] show ?thesis
    unfolding GMake using gr_take_inv [OF inv g_def len] gr_grow_inv [OF inv g_def len B' S Z n cb] by blast
qed

lemma gr_run_inv:
  assumes "gr_inv Z L n cnt y" and "\<forall>a \<in> set ops. map_ok Z (gr_base a)"
    and "segment_ok Z S" and "Z \<le> 2 ^ 59" and "0 < n" and "0 < il_sizeof_cb L"
  shows "gr_run S L ops y = Inl Bad_alloc \<or> (\<exists>y'. gr_run S L ops y = Inr y' \<and> gr_inv Z L n cnt y')"
  using assms(1,2)
proof (induction ops arbitrary: y)
  case Nil
  then show ?case by simp
next
  case (Cons a as)
  have "map_ok Z (gr_base a)" using Cons.prems(2) by simp
  from gr_step_inv [OF Cons.prems(1) this assms(3-6)] show ?case
  proof (elim disjE exE conjE)
    assume "gr_step S L a y = Inl Bad_alloc"
    then show ?case by simp
  next
    fix y1
    assume "gr_step S L a y = Inr y1" and inv: "gr_inv Z L n cnt y1"
    with Cons.IH [OF inv] Cons.prems(2) show ?case by simp
  qed
qed

lemma gr_start_inv:
  assumes "segment_ok Z S" and "mp_fits L n cnt"
    and "MemPoolGrowerIPC_new S L B n cnt h = Inr (g, h')"
  shows "gr_inv Z L n cnt (gr_start g h')"
proof -
  from assms(3) obtain mp where mp: "MemPoolIPC_new S L B n cnt h = Inr (mp, h')"
    and g: "g = \<lparr>gr_pools = [(mp, [])], growthRate = 2, nReconstructions = 0\<rparr>"
    by (auto simp: MemPoolGrowerIPC_new_def split: sum.splits)
  from MemPoolIPC_new_good [OF assms(1,2) mp] show ?thesis
    by (simp add: gr_inv_def gr_start_def g mp_inv_def held_in_def)
qed

section \<open>Properties of the grower\<close>


lemma example_grower:
  "\<exists>g h'. MemPoolGrowerIPC_new bump_segment example_ipc_layout 65536 2 3 64 = Inr (g, h')"
  using example_mempool by (auto simp: MemPoolGrowerIPC_new_def)


text \<open>
  Growing does not help when each element has no objects: with \<open>countPerElement = 0\<close> every
  request is answered null, and every request doubles the pool all the same.
\<close>

lemma grower_zero_count:
  assumes "MemPoolGrowerIPC_new S L B n 0 h = Inr (g, h')"
    and "gr_run S L (replicate k (GMake B' args)) (gr_start g h') = Inr y"
  shows "gs_held y = [] \<and> gs_denied y = k \<and> nReconstructions (gs_grower y) = k"
proof -
  define zero where "zero = (\<lambda>mp :: mempool. mp_countPerElement mp = 0
     \<and> (\<exists>s. oa_state (mp_obj mp) = Some s \<and> countPerElement s = 0))"
  have zero_new: "zero mp" if "MemPoolIPC_new S L B m 0 h = Inr (mp, h')" for B m mp h h'
    using that by (auto simp: zero_def MemPoolIPC_new_def ObjectAllocator_new_def construct_state_def
        ipc_Allocate_def ipc_state_new_def Let_def split: sum.splits prod.splits if_splits)
  have none: "make_pooled S L B' args (mp, lg) h = Inr (None, (mp, lg), h)" if "zero mp" for mp lg h
    using that by (cases mp; cases "mp_obj mp")
      (auto simp: zero_def make_pooled_def oa_allocate_def ipc_Loan_empty abs_ptr_def)
  have step: "zero (fst (last (gr_pools (gs_grower y1)))) \<and> gs_held y1 = gs_held y0
      \<and> gs_denied y1 = gs_denied y0 + 1 \<and> nReconstructions (gs_grower y1) = nReconstructions (gs_grower y0) + 1"
    if z: "zero (fst (last (gr_pools (gs_grower y0))))"
      and s: "gr_step S L (GMake B' args) y0 = Inr y1" for y0 y1
  proof -
    obtain mp lg where l: "last (gr_pools (gs_grower y0)) = (mp, lg)" by fastforce
    with z have z': "zero mp" "mp_countPerElement mp = 0" by (simp_all add: zero_def)
    let ?m = "if mp_nElements mp = 0 then 1 else growthRate (gs_grower y0) * mp_nElements mp"
    from s l none [OF z'(1)] obtain mp2 h2 where
      new: "MemPoolIPC_new S L B' ?m 0 (gs_heap y0) = Inr (mp2, h2)"
      by (cases "MemPoolIPC_new S L B' ?m 0 (gs_heap y0)")
        (auto simp: grower_make_def Let_def ReConstruct_def z'(2) cong del: if_weak_cong)
    with s l none [OF z'(1)] none [OF zero_new [OF new]] zero_new [OF new] show ?thesis
      by (auto simp: grower_make_def Let_def ReConstruct_def z'(2) cong del: if_weak_cong)
  qed
  have run: "gs_held y = gs_held y0 \<and> gs_denied y = gs_denied y0 + k
      \<and> nReconstructions (gs_grower y) = nReconstructions (gs_grower y0) + k"
    if "zero (fst (last (gr_pools (gs_grower y0))))"
      and "gr_run S L (replicate k (GMake B' args)) y0 = Inr y" for y0
    using that
  proof (induction k arbitrary: y0)
    case 0
    then show ?case by simp
  next
    case (Suc k)
    then obtain y1 where y1: "gr_step S L (GMake B' args) y0 = Inr y1"
      "gr_run S L (replicate k (GMake B' args)) y1 = Inr y" by (auto split: sum.splits)
    from step [OF Suc.prems(1) y1(1)] Suc.IH [OF _ y1(2)] show ?case by simp
  qed
  have "zero (fst (last (gr_pools (gs_grower (gr_start g h')))))"
    "nReconstructions g = 0"
    using assms(1) zero_new
    by (auto simp: MemPoolGrowerIPC_new_def gr_start_def split: sum.splits)
  with run [of "gr_start g h'"] assms(2) show ?thesis by (simp add: gr_start_def)
qed

lemma grower_zero_count_witness:
  "\<exists>g h' y. gr_run bump_segment example_ipc_layout (replicate 1 (GMake 65536 True)) (gr_start g h') = Inr y
     \<and> gs_held y = [] \<and> gs_denied y = 1 \<and> nReconstructions (gs_grower y) = 1"
proof -
  obtain g h' where g: "MemPoolGrowerIPC_new bump_segment example_ipc_layout 65536 2 0 64 = Inr (g, h')"
    "\<exists>y. gr_run bump_segment example_ipc_layout (replicate 1 (GMake 65536 True)) (gr_start g h') = Inr y"
    by (simp add: MemPoolGrowerIPC_new_def gr_start_def grower_make_def make_pooled_def oa_allocate_def
        ReConstruct_def ipc_construction_defs Let_def)
  then show ?thesis using grower_zero_count [OF g(1)] by blast
qed

end
