(* ===== verification/IPC_Growth.thy ===== *)
theory IPC_Growth
  imports IPC_Grower
begin

text \<open>
  How often a growing pool is rebuilt, and the two smaller programs of \<^verbatim>\<open>MempoolIPC/examples\<close>:
  \<^verbatim>\<open>Example_MemPoolGrowerIPC.cpp\<close>, in which one process makes a pool of one element and another takes ten elements
  from it, and \<^verbatim>\<open>Example_MemPoolArrayIPC.cpp\<close>.
\<close>

section \<open>Growing only when full\<close>

text \<open>Every pool but the newest is exhausted, and the newest is in use unless it is the first.\<close>

definition outgrown :: "size_t \<Rightarrow> 'h gr_sys \<Rightarrow> bool" where
  "outgrown n y \<longleftrightarrow>
     (\<forall>i < nReconstructions (gs_grower y). length (held_in i (gs_held y)) = unat n * 2 ^ i)
     \<and> (nReconstructions (gs_grower y) = 0 \<or> held_in (nReconstructions (gs_grower y)) (gs_held y) \<noteq> [])"

lemma grow_step_outgrown:
  assumes inv: "gr_inv Z L n cnt y" and B: "map_ok Z B" and out: "outgrown n y"
    and run: "gr_step S L (GMake B args) y = Inr y'" and inv': "gr_inv Z L n cnt y'"
  shows "outgrown n y' \<and> length (gs_held y') = Suc (length (gs_held y))"
proof -
  define g where "g = gs_grower y"
  note i = gr_invD [OF inv g_def]
  let ?r = "nReconstructions g"
  have len: "length (gr_pools g) = Suc ?r" using i(3) by simp
  then have cur: "last (gr_pools g) = gr_pools g ! ?r" using i(1) by (simp add: last_conv_nth)
  have ci: "mp_inv Z L (n * 2 ^ ?r) cnt (as_sys (last (gr_pools g)) (held_in ?r (gs_held y)))"
    and u: "unat (n * 2 ^ ?r) = unat n * 2 ^ ?r"
    using i(6,7) [of ?r] len cur by simp_all
  from mp_make_as_sys [OF ci B, of S args "gs_heap y"] show ?thesis
  proof (elim disjE exE conjE)
    fix pc ml'
    assume m: "make_pooled S L B args (last (gr_pools g)) (gs_heap y) = Inr (Some pc, ml', gs_heap y)"
    then have y': "nReconstructions (gs_grower y') = ?r" "gs_held y' = gs_held y @ [(?r, pc)]"
      using run len by (auto simp: grower_make_def Let_def g_def)
    then show ?thesis using out by (auto simp: outgrown_def held_in_single g_def)
  next
    assume full: "length (held_in ?r (gs_held y)) = unat (n * 2 ^ ?r)"
      and m: "make_pooled S L B args (last (gr_pools g)) (gs_heap y) = Inr (None, last (gr_pools g), gs_heap y)"
    have y': "nReconstructions (gs_grower y') = Suc ?r
        \<and> (gs_held y' = gs_held y \<and> gs_denied y' = gs_denied y + 1 \<or> (\<exists>pc. gs_held y' = gs_held y @ [(Suc ?r, pc)]))"
      using run m len by (auto simp: grower_make_def Let_def g_def split: sum.splits prod.splits option.splits)
    moreover have "gs_denied y' = 0" using inv' by (simp add: gr_inv_def Let_def)
    ultimately obtain pc where "gs_held y' = gs_held y @ [(Suc ?r, pc)]" by auto
    moreover have "length (held_in i (gs_held y)) = unat n * 2 ^ i" if "i < Suc ?r" for i
      using that out full u by (cases "i = ?r") (auto simp: outgrown_def g_def)
    ultimately show ?thesis using y' by (auto simp: outgrown_def held_in_single)
  qed
qed

lemma grow_run_outgrown:
  assumes "gr_inv Z L n cnt y" and "outgrown n y" and B: "map_ok Z B"
    and S: "segment_ok Z S" "Z \<le> 2 ^ 59" "0 < n" "0 < il_sizeof_cb L"
    and "gr_run S L (replicate k (GMake B args)) y = Inr y'"
  shows "gr_inv Z L n cnt y' \<and> outgrown n y' \<and> length (gs_held y') = k + length (gs_held y)"
  using assms(1,2,8)
proof (induction k arbitrary: y)
  case 0
  then show ?case by simp
next
  case (Suc k)
  obtain y1 where y1: "gr_step S L (GMake B args) y = Inr y1" "gr_run S L (replicate k (GMake B args)) y1 = Inr y'"
    using Suc.prems(3) by (auto simp del: gr_step.simps split: sum.splits)
  have "map_ok Z (gr_base (GMake B args))" using B by simp
  from gr_step_inv [OF Suc.prems(1) this S] y1(1) have "gr_inv Z L n cnt y1" by auto
  with grow_step_outgrown [OF Suc.prems(1) B Suc.prems(2) y1(1)] Suc.IH [OF _ _ y1(2)] show ?case by simp
qed

lemma held_in_total:
  assumes "\<forall>e \<in> set held. fst e < m"
  shows "length held = (\<Sum>i < m. length (held_in i held))"
  using assms
proof (induction held)
  case Nil
  then show ?case by (simp add: held_in_def)
next
  case (Cons e es)
  have c: "length (held_in i (e # es)) = length (held_in i es) + (if i = fst e then 1 else 0)" for i
    by (simp add: held_in_def)
  show ?case using Cons by (simp add: c sum.distrib)
qed

lemma doubling_sum: "(\<Sum>i < r. c * 2 ^ i) = c * (2 ^ r - 1 :: nat)"
proof -
  have "(\<Sum>i < r. c * 2 ^ i) + c = c * 2 ^ r" by (induction r) simp_all
  then show ?thesis by (simp add: diff_mult_distrib2)
qed

text \<open>After \<open>k\<close> elements, none of which came back, the pool has been rebuilt as often as that many elements require, and not more.\<close>

lemma grower_rebuilt:
  assumes S: "segment_ok Z S" "Z \<le> 2 ^ 59" and fits: "mp_fits L n cnt" and B: "map_ok Z B'"
    and new: "MemPoolGrowerIPC_new S L B n cnt h = Inr (g, h')"
    and run: "gr_run S L (replicate k (GMake B' args)) (gr_start g h') = Inr y" and k: "0 < k"
  shows "let r = nReconstructions (gs_grower y); m = length (held_in r (gs_held y))
     in k = unat n * (2 ^ r - 1) + m \<and> 0 < m \<and> m \<le> unat n * 2 ^ r
      \<and> mp_Statistics (fst (last (gr_pools (gs_grower y)))) = (m, unat n * 2 ^ r - m)"
proof -
  have pos: "0 < n" "0 < il_sizeof_cb L" using fits by (simp_all add: mp_fits_def ipc_fits_def)
  have start: "outgrown n (gr_start g h')" using new
    by (auto simp: outgrown_def gr_start_def MemPoolGrowerIPC_new_def split: sum.splits prod.splits)
  from grow_run_outgrown [OF gr_start_inv [OF S(1) fits new] start B S pos run]
  have inv: "gr_inv Z L n cnt y" and out: "outgrown n y" and len: "length (gs_held y) = k" by (simp_all add: gr_start_def)
  let ?g = "gs_grower y" and ?r = "nReconstructions (gs_grower y)"
  let ?m = "length (held_in ?r (gs_held y))"
  note i = gr_invD [OF inv refl]
  have lr: "length (gr_pools ?g) = Suc ?r" using i(3) by simp
  then have "\<forall>e \<in> set (gs_held y). fst e < Suc ?r" using i(5) by auto
  from held_in_total [OF this] have "k = (\<Sum>i < Suc ?r. length (held_in i (gs_held y)))"
    using len by (simp del: sum.lessThan_Suc)
  also have "\<dots> = (\<Sum>i < ?r. unat n * 2 ^ i) + ?m" using out by (simp add: outgrown_def)
  also have "(\<Sum>i < ?r. unat n * 2 ^ i) = unat n * (2 ^ ?r - 1)"
    by (rule doubling_sum)
  finally have sum: "k = unat n * (2 ^ ?r - 1) + ?m" .
  moreover have "0 < ?m" using out sum k by (cases "?r = 0") (auto simp: outgrown_def)
  moreover have ci: "mp_inv Z L (n * 2 ^ ?r) cnt (as_sys (last (gr_pools ?g)) (held_in ?r (gs_held y)))"
    and u: "unat (n * 2 ^ ?r) = unat n * 2 ^ ?r"
    using i(6,7) [of ?r] i(1) lr by (simp_all add: last_conv_nth)
  have "?m \<le> unat n * 2 ^ ?r" using mp_inv_cards(3) [OF ci] u by simp
  moreover have "mp_Statistics (fst (last (gr_pools ?g))) = (?m, unat n * 2 ^ ?r - ?m)"
    using mp_inv_statistics [OF ci] ci u by (simp add: mp_inv_def)
  ultimately show ?thesis by (simp add: Let_def)
qed

section \<open>The example program\<close>

text \<open>What the child does and prints: the elements of its buffer, the statistics of the newest pool, the number of reconstructions.\<close>

definition grower_child ::
  "'h segment \<Rightarrow> ipc_layout \<Rightarrow> addr \<Rightarrow> grower \<Rightarrow> 'h \<Rightarrow> (gptr list \<times> (nat \<times> nat) \<times> nat) result" where
  "grower_child S L B g h =
     (case gr_run S L (replicate 10 (GMake B True)) (gr_start g h) of
        Inl e \<Rightarrow> Inl e
      | Inr y \<Rightarrow> Inr (gs_held y, mp_Statistics (fst (last (gr_pools (gs_grower y)))), nReconstructions (gs_grower y)))"

text \<open>Ten elements, three of them from the pool of eight that is left after three reconstructions, or \<open>std::bad_alloc\<close>.\<close>

lemma example_grower_child:
  assumes S: "segment_ok Z S" "Z \<le> 2 ^ 59" and fits: "mp_fits L 1 3" and B: "map_ok Z B'"
    and new: "MemPoolGrowerIPC_new S L B 1 3 h = Inr (g, h')"
  shows "case grower_child S L B' g h' of
       Inl e \<Rightarrow> e = Bad_alloc
     | Inr (held, stats, rebuilt) \<Rightarrow> length held = 10 \<and> stats = (3, 5) \<and> rebuilt = 3"
proof -
  have pos: "(0 :: size_t) < 1" "0 < il_sizeof_cb L" using fits by (simp_all add: mp_fits_def ipc_fits_def)
  have start: "outgrown 1 (gr_start g h')" using new
    by (auto simp: outgrown_def gr_start_def MemPoolGrowerIPC_new_def split: sum.splits prod.splits)
  have "\<forall>a \<in> set (replicate 10 (GMake B' True)). map_ok Z (gr_base a)" using B by simp
  from gr_run_inv [OF gr_start_inv [OF S(1) fits new] this S pos] consider
      "gr_run S L (replicate 10 (GMake B' True)) (gr_start g h') = Inl Bad_alloc"
    | y where "gr_run S L (replicate 10 (GMake B' True)) (gr_start g h') = Inr y" by blast
  then show ?thesis
  proof cases
    case 1
    then show ?thesis by (simp add: grower_child_def)
  next
    case 2
    let ?r = "nReconstructions (gs_grower y)"
    define m where "m = length (held_in ?r (gs_held y))"
    from grower_rebuilt [OF S fits B new 2] have k: "10 = 2 ^ ?r - 1 + m" "0 < m" "m \<le> 2 ^ ?r"
      and st: "mp_Statistics (fst (last (gr_pools (gs_grower y)))) = (m, 2 ^ ?r - m)"
      by (simp_all add: Let_def m_def)
    have "?r < 4"
    proof (rule ccontr)
      assume "\<not> ?r < 4"
      then have "(2 :: nat) ^ 4 \<le> 2 ^ ?r" by (intro power_increasing) simp_all
      then show False using k(1,2) by simp
    qed
    moreover have "\<not> ?r \<le> 2"
    proof
      assume "?r \<le> 2"
      then have "(2 :: nat) ^ ?r \<le> 2 ^ 2" by (intro power_increasing) simp_all
      then show False using k by simp
    qed
    ultimately have r: "?r = 3" by simp
    then have "m = 3" using k(1) by simp
    moreover from grow_run_outgrown [OF gr_start_inv [OF S(1) fits new] start B S pos 2]
    have "length (gs_held y) = 10" by (simp add: gr_start_def)
    ultimately show ?thesis using 2 r st by (simp add: grower_child_def)
  qed
qed

section \<open>Another example program\<close>

text \<open>
  \<^verbatim>\<open>MempoolIPC/examples/Example_MemPoolArrayIPC.cpp\<close>: an element of two objects, of which both are used, the pointer not being
  checked for null; at the end of the program it is given back.
\<close>

definition array_process ::
  "'h segment \<Rightarrow> ipc_layout \<Rightarrow> addr \<Rightarrow> mempool \<times> lifetime list \<Rightarrow> 'h \<Rightarrow> (mempool \<times> lifetime list) result" where
  "array_process S L B ml h =
     (case make_pooled S L B True ml h of
        Inl e \<Rightarrow> Inl e
      | Inr (None, ml1, h1) \<Rightarrow> Inl Null_deref
      | Inr (Some (p, c), ml1, h1) \<Rightarrow>
          (case live (snd ml1) of
             None \<Rightarrow> Inl Use_after_free
           | Some alive \<Rightarrow>
               if block_addr p (et_size (il_elem L)) 0 \<in> alive \<and> block_addr p (et_size (il_elem L)) 1 \<in> alive
               then (case release_object L B p ml1 of Inl e \<Rightarrow> Inl e | Inr ml2 \<Rightarrow> release_control B c ml2)
               else Inl Use_after_free))"

lemma example_array_process:
  assumes S: "segment_ok Z S" and fits: "mp_fits L 10 2" and B: "map_ok Z B'" and obj: "\<not> et_arithmetic (il_elem L)"
    and new: "MemPoolIPC_new S L B 10 2 h = Inr (mp, h')"
  shows "\<exists>mp' lg'. array_process S L B' (mp, []) h' = Inr (mp', lg') \<and> mp_Statistics mp' = (0, 10) \<and> live lg' = Some {}"
proof -
  from MemPoolIPC_new_good [OF S fits new] have inv: "mp_inv Z L 10 2 (as_sys (mp, []) [])" by (simp add: mp_inv_def)
  from mp_make_as_sys [OF inv B, of S True h'] obtain p c ml1 where
    m: "make_pooled S L B' True (mp, []) h' = Inr (Some (p, c), ml1, h')" "mp_inv Z L 10 2 (as_sys ml1 ([] @ [(p, c)]))"
    by auto
  obtain mp1 lg1 where ml1: "ml1 = (mp1, lg1)" by fastforce
  have "mp_good Z L {p} {c} (mp1, lg1)" "mp_countPerElement mp1 = 2" using m(2) by (simp_all add: mp_inv_def ml1)
  then have "live lg1 = Some (set (pooled_objects (il_elem L) 2 p))"
    using obj by (auto elim!: mp_goodE simp: element_objects_def)
  moreover have two: "{0 ..< 2 :: nat} = {0, 1}" by auto
  ultimately obtain alive where alive: "live (snd ml1) = Some alive" "block_addr p (et_size (il_elem L)) 0 \<in> alive"
    "block_addr p (et_size (il_elem L)) 1 \<in> alive"
    by (simp add: ml1 pooled_objects_def two)
  have "(0 :: nat) < length ([] @ [(p, c)])" by simp
  from mp_release_as_sys [OF m(2) B this] obtain ml2 ml3 where
    r: "release_object L B' p ml1 = Inr ml2" "release_control B' c ml2 = Inr ml3" "mp_inv Z L 10 2 (as_sys ml3 [])"
    by (auto simp: drop_nth_def)
  obtain mp' lg' where ml3: "ml3 = (mp', lg')" by fastforce
  have "mp_Statistics mp' = (0, 10)" using mp_inv_statistics [OF r(3)] by (simp add: ml3)
  moreover have "mp_good Z L {} {} (mp', lg')" using r(3) by (simp add: mp_inv_def ml3)
  then have "live lg' = Some {}" by (auto elim!: mp_goodE)
  ultimately show ?thesis using m(1) alive r(1,2) ml3 by (simp add: array_process_def)
qed

end
