(* ===== verification/Pipe.thy ===== *)
theory Pipe
  imports IPC_Prelude
begin

text \<open>
  \<^verbatim>\<open>MempoolIPC/src/RouterIPC.h\<close>, class \<open>PipeIPC\<close>: a bounded ring buffer of shared pointers
  between processes, guarded by a mutex and two semaphores. First the operations as one caller sees
  them, with the bounded queue they implement; then the steps of many concurrent callers. A shared
  pointer is an \<open>'a option\<close>, \<^const>\<open>None\<close> for null.
\<close>

section \<open>Semaphores\<close>

text \<open>
  \<open>boost::interprocess::interprocess_semaphore\<close>. \<open>sem_try_wait\<close> is \<^const>\<open>None\<close> when the count
  is 0. \<open>wait\<close> is a \<open>try_wait\<close> that is retried until it succeeds, \<open>timed_wait\<close> one that is
  retried until the deadline.
\<close>

record 's semaphore =
  sem_new :: "nat \<Rightarrow> 's"
  sem_post :: "'s \<Rightarrow> 's"
  sem_try_wait :: "'s \<Rightarrow> 's option"
  sem_count :: "'s \<Rightarrow> nat"

definition semaphore_ok :: "'s semaphore \<Rightarrow> bool" where
  "semaphore_ok V \<longleftrightarrow> (\<forall>n. sem_count V (sem_new V n) = n)
     \<and> (\<forall>s. sem_count V (sem_post V s) = Suc (sem_count V s))
     \<and> (\<forall>s. case sem_try_wait V s of
               None \<Rightarrow> sem_count V s = 0
             | Some s' \<Rightarrow> sem_count V s = Suc (sem_count V s'))"

text \<open>\<open>try_wait\<close>, \<open>timed_wait\<close> and \<open>wait\<close>.\<close>

datatype wait_mode = Soft | Timed | Forever

text \<open>Whether the token was obtained; \<^const>\<open>None\<close> when the caller has to go on waiting.\<close>

definition sem_take :: "'s semaphore \<Rightarrow> wait_mode \<Rightarrow> 's \<Rightarrow> (bool \<times> 's) option" where
  "sem_take V m s =
     (case sem_try_wait V s of
        Some s' \<Rightarrow> Some (True, s')
      | None \<Rightarrow> if m = Forever then None else Some (False, s))"

lemma sem_count_simps [simp]:
  "semaphore_ok V \<Longrightarrow> sem_count V (sem_new V n) = n"
  "semaphore_ok V \<Longrightarrow> sem_count V (sem_post V s) = Suc (sem_count V s)"
  by (simp_all add: semaphore_ok_def)

lemma sem_take_cases:
  assumes "semaphore_ok V"
  obtains (blocks) "sem_count V s = 0" "m = Forever" "sem_take V m s = None"
  | (gives_up) "sem_count V s = 0" "m \<noteq> Forever" "sem_take V m s = Some (False, s)"
  | (takes) s' where "sem_count V s = Suc (sem_count V s')" "sem_take V m s = Some (True, s')"
proof -
  have w: "case sem_try_wait V s of None \<Rightarrow> sem_count V s = 0 | Some s' \<Rightarrow> sem_count V s = Suc (sem_count V s')"
    using assms unfolding semaphore_ok_def by blast
  show thesis
  proof (cases "sem_try_wait V s")
    case None
    with w show ?thesis using blocks gives_up by (cases "m = Forever") (simp_all add: sem_take_def)
  next
    case (Some s')
    with w show ?thesis using takes by (simp add: sem_take_def)
  qed
qed

text \<open>A counter, for the examples.\<close>

definition counter_semaphore :: "nat semaphore" where
  "counter_semaphore =
     \<lparr>sem_new = (\<lambda>n. n), sem_post = Suc,
      sem_try_wait = (\<lambda>n. if n = 0 then None else Some (n - 1)), sem_count = (\<lambda>n. n)\<rparr>"

lemma counter_semaphore_ok: "semaphore_ok counter_semaphore"
  by (simp add: semaphore_ok_def counter_semaphore_def)

section \<open>PipeIPC\<close>

record ('s, 'a) pipe =
  indexPush :: nat
  indexPop :: nat
  pipe_capacity :: nat
  pipe_size :: size_t
  nempty :: 's
  nstored :: 's
  items :: "'a option list"
  shutdown :: bool

definition pipe_new :: "'s semaphore \<Rightarrow> size_t \<Rightarrow> ('s, 'a) pipe" where
  "pipe_new V capacity_in =
     \<lparr>indexPush = 0, indexPop = 0, pipe_capacity = unat capacity_in, pipe_size = 0,
      nempty = sem_new V (unat capacity_in), nstored = sem_new V 0,
      items = replicate (unat capacity_in) None, shutdown = False\<rparr>"

text \<open>The two critical sections, under the mutex.\<close>

definition push_item :: "'a option \<Rightarrow> ('s, 'a) pipe \<Rightarrow> ('s, 'a) pipe result" where
  "push_item x p =
     (if length (items p) \<le> indexPush p then Inl Out_of_bounds
      else if pipe_capacity p = 0 then Inl Div_by_zero
      else Inr (p\<lparr>items := (items p)[indexPush p := x],
                  indexPush := (indexPush p + 1) mod pipe_capacity p,
                  pipe_size := pipe_size p + 1\<rparr>))"

definition pop_item :: "('s, 'a) pipe \<Rightarrow> ('a option \<times> ('s, 'a) pipe) result" where
  "pop_item p =
     (if length (items p) \<le> indexPop p then Inl Out_of_bounds
      else if pipe_capacity p = 0 then Inl Div_by_zero
      else Inr (items p ! indexPop p,
                p\<lparr>items := (items p)[indexPop p := None],
                  indexPop := (indexPop p + 1) mod pipe_capacity p,
                  pipe_size := pipe_size p - 1\<rparr>))"

text \<open>
  \<open>Send\<close> returns "had error". \<^const>\<open>None\<close> is a caller that waits for ever: nobody else is there to
  make room.
\<close>

definition pipe_Send ::
  "'s semaphore \<Rightarrow> wait_mode \<Rightarrow> 'a option \<Rightarrow> ('s, 'a) pipe \<Rightarrow> (bool \<times> ('s, 'a) pipe) result option" where
  "pipe_Send V m x p =
     (if shutdown p then Some (Inr (False, p))
      else (case sem_take V m (nempty p) of
              None \<Rightarrow> None
            | Some (got, s) \<Rightarrow>
                let p1 = p\<lparr>nempty := s\<rparr>;
                    success = (got \<and> \<not> shutdown p1)
                in if success
                   then (case push_item x p1 of
                           Inl e \<Rightarrow> Some (Inl e)
                         | Inr p2 \<Rightarrow> Some (Inr (False, p2\<lparr>nstored := sem_post V (nstored p2)\<rparr>)))
                   else Some (Inr (True, p1))))"

text \<open>\<open>Receive\<close> returns "timed out" and the pointer.\<close>

definition pipe_Receive ::
  "'s semaphore \<Rightarrow> wait_mode \<Rightarrow> ('s, 'a) pipe \<Rightarrow> (bool \<times> 'a option \<times> ('s, 'a) pipe) result option" where
  "pipe_Receive V m p =
     (case sem_take V m (nstored p) of
        None \<Rightarrow> None
      | Some (False, s) \<Rightarrow> Some (Inr (True, None, p\<lparr>nstored := s\<rparr>))
      | Some (True, s) \<Rightarrow>
          (case pop_item (p\<lparr>nstored := s\<rparr>) of
             Inl e \<Rightarrow> Some (Inl e)
           | Inr (x, p2) \<Rightarrow> Some (Inr (False, x, p2\<lparr>nempty := sem_post V (nempty p2)\<rparr>))))"

definition pipe_Shutdown :: "'s semaphore \<Rightarrow> ('s, 'a) pipe \<Rightarrow> ('s, 'a) pipe" where
  "pipe_Shutdown V p =
     (let p1 = p\<lparr>shutdown := True\<rparr>;
          p2 = p1\<lparr>nstored := sem_post V (nstored p1)\<rparr>
      in p2\<lparr>nempty := sem_post V (nempty p2)\<rparr>)"

text \<open>\<open>operator bool\<close>: "not shut down, or has queued elements".\<close>

definition pipe_bool :: "('s, 'a) pipe \<Rightarrow> bool" where
  "pipe_bool p \<longleftrightarrow> \<not> shutdown p \<or> 0 < pipe_size p"

text \<open>The destructor drops every reference that is still queued.\<close>

definition pipe_destroy :: "'s semaphore \<Rightarrow> ('s, 'a) pipe \<Rightarrow> ('s, 'a) pipe" where
  "pipe_destroy V p =
     (pipe_Shutdown V p)\<lparr>items := []\<rparr>"

section \<open>The ring as a queue\<close>

definition pipe_queue :: "('s, 'a) pipe \<Rightarrow> 'a option list" where
  "pipe_queue p = map (\<lambda>k. items p ! ((indexPop p + k) mod pipe_capacity p)) [0 ..< unat (pipe_size p)]"

text \<open>
  The ring is in order: the queued items lie from \<open>indexPop\<close> up to \<open>indexPush\<close>, every other slot
  is null, so the pipe keeps nothing alive that was received.
\<close>

definition ring_ok :: "('s, 'a) pipe \<Rightarrow> bool" where
  "ring_ok p \<longleftrightarrow> 0 < pipe_capacity p \<and> pipe_capacity p < 2 ^ 64
     \<and> length (items p) = pipe_capacity p \<and> indexPop p < pipe_capacity p
     \<and> unat (pipe_size p) \<le> pipe_capacity p
     \<and> indexPush p = (indexPop p + unat (pipe_size p)) mod pipe_capacity p
     \<and> (\<forall>k. unat (pipe_size p) \<le> k \<longrightarrow> k < pipe_capacity p \<longrightarrow>
          items p ! ((indexPop p + k) mod pipe_capacity p) = None)"

lemma ring_slots_distinct:
  assumes "(i :: nat) < c" and "j < c" and "i \<noteq> j"
  shows "(b + i) mod c \<noteq> (b + j) mod c"
proof -
  have neq: "(b + x) mod c \<noteq> (b + y) mod c" if "x < y" "y < c" for x y
  proof
    assume "(b + x) mod c = (b + y) mod c"
    then have "c dvd (b + y) - (b + x)" using that(1) mod_eq_dvd_iff_nat [of "b + x" "b + y" c] by simp
    then have "c dvd y - x" by simp
    then have "c \<le> y - x" using that(1) by (intro dvd_imp_le) simp_all
    then show False using that by simp
  qed
  show ?thesis using neq [of i j] neq [of j i] assms by (metis linorder_neqE_nat)
qed

lemma pipe_queue_length: "length (pipe_queue p) = unat (pipe_size p)"
  by (simp add: pipe_queue_def)

lemma push_item_ok:
  assumes "ring_ok p" and "unat (pipe_size p) < pipe_capacity p"
  shows "\<exists>p'. push_item x p = Inr p' \<and> ring_ok p' \<and> pipe_queue p' = pipe_queue p @ [x]
       \<and> unat (pipe_size p') = Suc (unat (pipe_size p)) \<and> pipe_capacity p' = pipe_capacity p
       \<and> nempty p' = nempty p \<and> nstored p' = nstored p \<and> shutdown p' = shutdown p"
proof -
  let ?c = "pipe_capacity p" and ?n = "unat (pipe_size p)"
  have r: "0 < ?c" "?c < 2 ^ 64" "length (items p) = ?c" "indexPop p < ?c"
    "indexPush p = (indexPop p + ?n) mod ?c"
    "\<And>k. ?n \<le> k \<Longrightarrow> k < ?c \<Longrightarrow> items p ! ((indexPop p + k) mod ?c) = None"
    using assms(1) by (simp_all add: ring_ok_def)
  let ?p = "p\<lparr>items := (items p)[indexPush p := x], indexPush := (indexPush p + 1) mod ?c,
      pipe_size := pipe_size p + 1\<rparr>"
  have lt: "indexPush p < ?c" using r(1,5) by simp
  then have run: "push_item x p = Inr ?p" using r(1,3) by (simp add: push_item_def)
  have sz: "unat (pipe_size p + 1) = Suc ?n"
    using assms(2) r(2) by (subst unat_add_lt) simp_all
  have old: "(items p)[indexPush p := x] ! ((indexPop p + k) mod ?c) = items p ! ((indexPop p + k) mod ?c)"
    if "k \<noteq> ?n" "k < ?c" for k
    using ring_slots_distinct [OF that(2) assms(2) that(1), of "indexPop p"] r(5) by simp
  have new: "(items p)[indexPush p := x] ! ((indexPop p + ?n) mod ?c) = x"
    using lt r(3,5) by simp
  have push: "(indexPush p + 1) mod ?c = (indexPop p + Suc ?n) mod ?c"
    using r(5) by (simp add: mod_Suc_eq)
  have "ring_ok ?p"
    using r sz assms(2) old push by (simp add: ring_ok_def)
  moreover have "pipe_queue ?p = pipe_queue p @ [x]"
    using old new assms(2) by (simp add: pipe_queue_def sz)
  ultimately show ?thesis using run sz by (intro exI [of _ ?p]) simp
qed

lemma pop_item_ok:
  assumes "ring_ok p" and "0 < unat (pipe_size p)"
  shows "\<exists>p'. pop_item p = Inr (hd (pipe_queue p), p') \<and> ring_ok p' \<and> pipe_queue p' = tl (pipe_queue p)
       \<and> Suc (unat (pipe_size p')) = unat (pipe_size p) \<and> pipe_capacity p' = pipe_capacity p
       \<and> nempty p' = nempty p \<and> nstored p' = nstored p \<and> shutdown p' = shutdown p"
proof -
  let ?c = "pipe_capacity p" and ?n = "unat (pipe_size p)"
  have r: "0 < ?c" "?c < 2 ^ 64" "length (items p) = ?c" "indexPop p < ?c" "?n \<le> ?c"
    "indexPush p = (indexPop p + ?n) mod ?c"
    "\<And>k. ?n \<le> k \<Longrightarrow> k < ?c \<Longrightarrow> items p ! ((indexPop p + k) mod ?c) = None"
    using assms(1) by (simp_all add: ring_ok_def)
  obtain m where m: "?n = Suc m" using assms(2) by (cases ?n) simp_all
  let ?p = "p\<lparr>items := (items p)[indexPop p := None], indexPop := (indexPop p + 1) mod ?c,
      pipe_size := pipe_size p - 1\<rparr>"
  have run: "pop_item p = Inr (items p ! indexPop p, ?p)"
    using r(1,3,4) by (simp add: pop_item_def)
  have sz: "unat (pipe_size p - 1) = m"
    using m by (subst unat_sub) (simp_all add: word_le_nat_alt)
  have at: "(Suc (indexPop p) mod ?c + k) mod ?c = Suc (indexPop p + k) mod ?c" for k
    by (simp add: mod_add_left_eq)
  have same: "(items p)[indexPop p := None] ! ((indexPop p + Suc k) mod ?c) = items p ! ((indexPop p + Suc k) mod ?c)"
    if "Suc k < ?c" for k
    using ring_slots_distinct [OF that r(1), of "indexPop p"] r(4) by simp
  have none: "(items p)[indexPop p := None] ! ((indexPop p + Suc k) mod ?c) = None" if "m \<le> k" "k < ?c" for k
  proof (cases "Suc k < ?c")
    case True
    then show ?thesis using same [OF True] r(7) [of "Suc k"] that(1) m by simp
  next
    case False
    then have "Suc k = ?c" using that(2) by simp
    then show ?thesis using r(3,4) by simp
  qed
  have q: "pipe_queue p = items p ! indexPop p # map (\<lambda>k. items p ! ((indexPop p + Suc k) mod ?c)) [0 ..< m]"
  proof -
    have "[0 ..< Suc m] = 0 # map Suc [0 ..< m]" by (simp add: map_Suc_upt upt_conv_Cons)
    then show ?thesis using r(4) by (simp add: pipe_queue_def m o_def)
  qed
  have "ring_ok ?p"
    unfolding ring_ok_def using r m none by (simp add: sz at)
  moreover have "pipe_queue ?p = tl (pipe_queue p)"
    using same r(5) m unfolding q by (simp add: pipe_queue_def sz at)
  ultimately show ?thesis using run q m sz by (intro exI [of _ ?p]) simp
qed

lemma pipe_new_ring: "0 < cap \<Longrightarrow> ring_ok (pipe_new V cap)"
  by (simp add: ring_ok_def pipe_new_def word_less_nat_alt)

section \<open>One caller: a bounded queue\<close>

text \<open>What the pipe promises: a FIFO queue of at most \<open>cap\<close> pointers.\<close>

datatype 'a pipe_op = Send wait_mode "'a option" | Receive wait_mode

datatype 'a reply = Sent bool | Received bool "'a option"

fun queue_op :: "nat \<Rightarrow> 'a pipe_op \<Rightarrow> 'a option list \<Rightarrow> ('a reply \<times> 'a option list) option" where
  "queue_op cap (Send m x) q =
     (if length q < cap then Some (Sent False, q @ [x])
      else if m = Forever then None else Some (Sent True, q))"
| "queue_op cap (Receive m) q =
     (case q of
        x # q' \<Rightarrow> Some (Received False x, q')
      | [] \<Rightarrow> if m = Forever then None else Some (Received True None, []))"

fun pipe_do :: "'s semaphore \<Rightarrow> 'a pipe_op \<Rightarrow> ('s, 'a) pipe \<Rightarrow> ('a reply \<times> ('s, 'a) pipe) result option" where
  "pipe_do V (Send m x) p =
     (case pipe_Send V m x p of
        None \<Rightarrow> None
      | Some (Inl e) \<Rightarrow> Some (Inl e)
      | Some (Inr (had_error, p')) \<Rightarrow> Some (Inr (Sent had_error, p')))"
| "pipe_do V (Receive m) p =
     (case pipe_Receive V m p of
        None \<Rightarrow> None
      | Some (Inl e) \<Rightarrow> Some (Inl e)
      | Some (Inr (timedout, x, p')) \<Rightarrow> Some (Inr (Received timedout x, p')))"

text \<open>A run stops at the operation that would wait for ever.\<close>

fun queue_ops :: "nat \<Rightarrow> 'a pipe_op list \<Rightarrow> 'a option list \<Rightarrow> 'a reply list \<times> 'a option list" where
  "queue_ops cap [] q = ([], q)"
| "queue_ops cap (a # as) q =
     (case queue_op cap a q of
        None \<Rightarrow> ([], q)
      | Some (r, q') \<Rightarrow> (let (rs, q'') = queue_ops cap as q' in (r # rs, q'')))"

fun pipe_ops :: "'s semaphore \<Rightarrow> 'a pipe_op list \<Rightarrow> ('s, 'a) pipe \<Rightarrow> ('a reply list \<times> ('s, 'a) pipe) result" where
  "pipe_ops V [] p = Inr ([], p)"
| "pipe_ops V (a # as) p =
     (case pipe_do V a p of
        None \<Rightarrow> Inr ([], p)
      | Some (Inl e) \<Rightarrow> Inl e
      | Some (Inr (r, p')) \<Rightarrow>
          (case pipe_ops V as p' of Inl e \<Rightarrow> Inl e | Inr (rs, p'') \<Rightarrow> Inr (r # rs, p'')))"

definition pipe_idle :: "'s semaphore \<Rightarrow> ('s, 'a) pipe \<Rightarrow> bool" where
  "pipe_idle V p \<longleftrightarrow> ring_ok p \<and> \<not> shutdown p
     \<and> sem_count V (nempty p) + unat (pipe_size p) = pipe_capacity p
     \<and> sem_count V (nstored p) = unat (pipe_size p)"

lemma ring_ok_sem [simp]:
  "ring_ok (p\<lparr>nempty := s\<rparr>) = ring_ok p"
  "ring_ok (p\<lparr>nstored := s\<rparr>) = ring_ok p"
  "pipe_queue (p\<lparr>nempty := s\<rparr>) = pipe_queue p"
  "pipe_queue (p\<lparr>nstored := s\<rparr>) = pipe_queue p"
  by (simp_all add: ring_ok_def pipe_queue_def)

lemma pipe_send_queue:
  assumes V: "semaphore_ok V" and idle: "pipe_idle V p"
  shows "case queue_op (pipe_capacity p) (Send m x) (pipe_queue p) of
      None \<Rightarrow> pipe_do V (Send m x) p = None
    | Some (r, q) \<Rightarrow> \<exists>p'. pipe_do V (Send m x) p = Some (Inr (r, p')) \<and> pipe_idle V p' \<and> pipe_queue p' = q
        \<and> pipe_capacity p' = pipe_capacity p"
proof -
  have i: "ring_ok p" "\<not> shutdown p" "sem_count V (nempty p) + unat (pipe_size p) = pipe_capacity p"
    "sem_count V (nstored p) = unat (pipe_size p)"
    using idle by (simp_all add: pipe_idle_def)
  from V show ?thesis
  proof (cases rule: sem_take_cases [of V "nempty p" m])
    case blocks
    then show ?thesis using i by (simp add: pipe_queue_length pipe_Send_def)
  next
    case gives_up
    have "p\<lparr>nempty := nempty p\<rparr> = p" by (cases p) simp
    then show ?thesis using gives_up i idle
      by (simp add: pipe_queue_length pipe_Send_def Let_def)
  next
    case (takes s)
    let ?p1 = "p\<lparr>nempty := s\<rparr>"
    have "ring_ok ?p1" "unat (pipe_size ?p1) < pipe_capacity ?p1" using i takes(1) by simp_all
    from push_item_ok [OF this, of x] obtain p2 where
      p2: "push_item x ?p1 = Inr p2" "ring_ok p2" "pipe_queue p2 = pipe_queue p @ [x]"
        "unat (pipe_size p2) = Suc (unat (pipe_size p))" "pipe_capacity p2 = pipe_capacity p"
        "nempty p2 = s" "nstored p2 = nstored p" "\<not> shutdown p2" using i(2) by auto
    then have "pipe_idle V (p2\<lparr>nstored := sem_post V (nstored p2)\<rparr>)"
      using i takes(1) V by (simp add: pipe_idle_def)
    then show ?thesis using takes i p2 V
      by (simp add: pipe_queue_length pipe_Send_def Let_def)
  qed
qed

lemma pipe_receive_queue:
  assumes V: "semaphore_ok V" and idle: "pipe_idle V p"
  shows "case queue_op (pipe_capacity p) (Receive m) (pipe_queue p) of
      None \<Rightarrow> pipe_do V (Receive m) p = None
    | Some (r, q) \<Rightarrow> \<exists>p'. pipe_do V (Receive m) p = Some (Inr (r, p')) \<and> pipe_idle V p' \<and> pipe_queue p' = q
        \<and> pipe_capacity p' = pipe_capacity p"
proof -
  have i: "ring_ok p" "\<not> shutdown p" "sem_count V (nempty p) + unat (pipe_size p) = pipe_capacity p"
    "sem_count V (nstored p) = unat (pipe_size p)"
    using idle by (simp_all add: pipe_idle_def)
  from V show ?thesis
  proof (cases rule: sem_take_cases [of V "nstored p" m])
    case blocks
    then have "pipe_queue p = []" using i pipe_queue_length [of p] by simp
    then show ?thesis using blocks by (simp add: pipe_Receive_def)
  next
    case gives_up
    then have "pipe_queue p = []" using i pipe_queue_length [of p] by simp
    moreover have "p\<lparr>nstored := nstored p\<rparr> = p" by (cases p) simp
    ultimately show ?thesis using gives_up idle by (simp add: pipe_Receive_def)
  next
    case (takes s)
    let ?p1 = "p\<lparr>nstored := s\<rparr>"
    have "ring_ok ?p1" "0 < unat (pipe_size ?p1)" using i takes(1) by simp_all
    from pop_item_ok [OF this] obtain p2 where
      p2: "pop_item ?p1 = Inr (hd (pipe_queue p), p2)" "ring_ok p2" "pipe_queue p2 = tl (pipe_queue p)"
        "Suc (unat (pipe_size p2)) = unat (pipe_size p)" "pipe_capacity p2 = pipe_capacity p"
        "nempty p2 = nempty p" "nstored p2 = s" "\<not> shutdown p2" using i(2) by auto
    then have "pipe_idle V (p2\<lparr>nempty := sem_post V (nempty p2)\<rparr>)"
      using i takes(1) V by (simp add: pipe_idle_def)
    moreover obtain x q where "pipe_queue p = x # q"
      using pipe_queue_length [of p] i takes(1) by (cases "pipe_queue p") auto
    ultimately show ?thesis using takes p2 by (simp add: pipe_Receive_def)
  qed
qed

lemma pipe_do_queue:
  assumes V: "semaphore_ok V" and idle: "pipe_idle V p"
  shows "case queue_op (pipe_capacity p) a (pipe_queue p) of
      None \<Rightarrow> pipe_do V a p = None
    | Some (r, q) \<Rightarrow> \<exists>p'. pipe_do V a p = Some (Inr (r, p')) \<and> pipe_idle V p' \<and> pipe_queue p' = q
        \<and> pipe_capacity p' = pipe_capacity p"
  using assms by (cases a) (simp_all only: pipe_send_queue pipe_receive_queue)

lemma pipe_ops_queue:
  assumes "semaphore_ok V" and "pipe_idle V p"
  shows "\<exists>p'. pipe_ops V as p = Inr (fst (queue_ops (pipe_capacity p) as (pipe_queue p)), p')
     \<and> pipe_queue p' = snd (queue_ops (pipe_capacity p) as (pipe_queue p)) \<and> pipe_idle V p'"
  using assms(2)
proof (induction as arbitrary: p)
  case Nil
  then show ?case by simp
next
  case (Cons a as)
  note step = pipe_do_queue [OF assms(1) Cons.prems, of a]
  show ?case
  proof (cases "queue_op (pipe_capacity p) a (pipe_queue p)")
    case None
    with step Cons.prems show ?thesis by simp
  next
    case (Some rq)
    then obtain r q where rq: "queue_op (pipe_capacity p) a (pipe_queue p) = Some (r, q)"
      by (cases rq) simp
    with step obtain p1 where p1: "pipe_do V a p = Some (Inr (r, p1))" "pipe_idle V p1"
      "pipe_queue p1 = q" "pipe_capacity p1 = pipe_capacity p" by auto
    from Cons.IH [OF p1(2)] p1 rq show ?thesis by (auto split: prod.splits)
  qed
qed

section \<open>Properties of the pipe\<close>

text \<open>
  C12. The pipe is a bounded first-in first-out queue: from a new pipe of capacity \<open>cap\<close>, every
  sequence of sends and receives by one caller gives exactly the answers of a queue of at most
  \<open>cap\<close> pointers - the same errors when it is full, the same timeouts when it is empty, the same
  pointers in the same order, waiting for ever at the same operation - and never runs out of bounds.
\<close>

theorem pipe_implements_bounded_queue:
  assumes "semaphore_ok V" and "0 < cap"
  shows "\<exists>p'. pipe_ops V as (pipe_new V cap) = Inr (fst (queue_ops (unat cap) as []), p')
     \<and> pipe_queue p' = snd (queue_ops (unat cap) as [])"
proof -
  let ?p = "pipe_new V cap"
  have new: "pipe_queue ?p = []" "pipe_capacity ?p = unat cap" by (simp_all add: pipe_queue_def pipe_new_def)
  have "pipe_idle V ?p"
    using assms pipe_new_ring [OF assms(2), of V] by (simp add: pipe_idle_def pipe_new_def)
  from pipe_ops_queue [OF assms(1) this, of as] show ?thesis unfolding new by blast
qed

lemma pipe_implements_bounded_queue_witness:
  "\<exists>p'. pipe_ops counter_semaphore
       [Send Soft (Some (1 :: nat)), Send Soft (Some 2), Send Soft (Some 3), Receive Timed, Receive Forever, Receive Forever]
       (pipe_new counter_semaphore 2) =
     Inr ([Sent False, Sent False, Sent True, Received False (Some 1), Received False (Some 2)], p')"
  using pipe_implements_bounded_queue [OF counter_semaphore_ok, of 2
      "[Send Soft (Some (1 :: nat)), Send Soft (Some 2), Send Soft (Some 3), Receive Timed, Receive Forever, Receive Forever]"]
  by auto

text \<open>
  C34. Shutting down an empty pipe: the token that \<open>Shutdown\<close> posts to wake the receiver lets the next
  \<open>Receive\<close> take an element that is not there. It returns a null pointer as if received, \<open>size\<close> wraps
  to \<open>2 ^ 64 - 1\<close>, \<open>operator bool\<close> then says that the pipe still has elements, and the \<open>Receive\<close>
  that this invites waits for ever.
\<close>

theorem shutdown_strands_receiver:
  assumes "semaphore_ok V" and "pipe_idle V p" and "pipe_queue p = []"
  shows "\<exists>p'. pipe_Receive V m (pipe_Shutdown V p) = Some (Inr (False, None, p'))
     \<and> unat (pipe_size p') = 2 ^ 64 - 1 \<and> pipe_bool p' \<and> pipe_Receive V Forever p' = None"
proof -
  let ?q = "pipe_Shutdown V p"
  have p: "ring_ok p" "sem_count V (nstored p) = 0" "pipe_size p = 0"
    using assms(2,3) pipe_queue_length [of p] by (simp_all add: pipe_idle_def unat_eq_zero)
  have q: "nstored ?q = sem_post V (nstored p)" "items ?q = items p" "indexPop ?q = indexPop p"
    "pipe_capacity ?q = pipe_capacity p" "pipe_size ?q = 0" "shutdown ?q"
    by (simp_all add: pipe_Shutdown_def Let_def p(3))
  have slot: "0 < pipe_capacity p" "length (items p) = pipe_capacity p" "indexPop p < pipe_capacity p"
    "items p ! indexPop p = None"
    using p(1,3) by (auto simp: ring_ok_def dest: spec [of _ 0])
  from assms(1) show ?thesis
  proof (cases rule: sem_take_cases [of V "sem_post V (nstored p)" m])
    case (takes s)
    let ?p2 = "?q\<lparr>nstored := s, items := (items p)[indexPop p := None],
        indexPop := (indexPop p + 1) mod pipe_capacity p, pipe_size := 0 - 1,
        nempty := sem_post V (nempty ?q)\<rparr>"
    have s0: "sem_count V s = 0" using takes(1) p(2) assms(1) by simp
    have "pipe_Receive V m ?q = Some (Inr (False, None, ?p2))"
      using takes(2) slot q by (simp add: pipe_Receive_def pop_item_def)
    moreover have "pipe_Receive V Forever ?p2 = None"
      using assms(1) by (cases rule: sem_take_cases [of V s Forever]) (simp_all add: s0 pipe_Receive_def)
    moreover have "pipe_bool ?p2" by (simp add: pipe_bool_def word_greater_zero_iff)
    moreover have "unat (pipe_size ?p2) = 2 ^ 64 - 1" by (simp add: unsigned_minus_1_eq_mask mask_eq_exp_minus_1)
    ultimately show ?thesis by blast
  qed (use assms(1) in simp_all)
qed

lemma shutdown_strands_receiver_witness:
  "\<exists>p' :: (nat, nat) pipe. pipe_Receive counter_semaphore Forever
       (pipe_Shutdown counter_semaphore (pipe_new counter_semaphore 4)) = Some (Inr (False, None, p'))
     \<and> pipe_bool p'"
proof -
  have "pipe_idle counter_semaphore (pipe_new counter_semaphore 4 :: (nat, nat) pipe)"
    using pipe_new_ring [of 4 counter_semaphore]
    by (simp add: pipe_idle_def pipe_new_def counter_semaphore_def)
  from shutdown_strands_receiver [OF counter_semaphore_ok this, of Forever] show ?thesis
    by (auto simp: pipe_queue_def pipe_new_def)
qed

end
