(* ===== verification/Pipe_Concurrent.thy ===== *)
theory Pipe_Concurrent
  imports Pipe
begin

text \<open>
  \<open>PipeIPC\<close> (\<^verbatim>\<open>MempoolIPC/src/RouterIPC.h\<close>) with any number of threads of any number of processes
  inside its operations at once. A thread's program counter says what it does next; each step is one
  access to the shared state that the code makes atomic - a semaphore call, a load or store of an atomic,
  or a critical section under the mutex.
\<close>

section \<open>Threads\<close>

datatype 'a pc =
    S_start wait_mode "'a option"
  | S_wait wait_mode "'a option"
  | S_check "'a option"
  | S_push "'a option"
  | S_post
  | S_done bool
  | R_wait wait_mode
  | R_pop
  | R_post "'a option"
  | R_done bool "'a option"
  | X_flag
  | X_stored
  | X_empty
  | X_done
  | Crashed

text \<open>\<^const>\<open>None\<close>: the thread has finished, or it waits and cannot go on now.\<close>

fun thread_step :: "'s semaphore \<Rightarrow> ('s, 'a) pipe \<Rightarrow> 'a pc \<Rightarrow> (('s, 'a) pipe \<times> 'a pc) option" where
  "thread_step V p (S_start m x) = Some (p, if shutdown p then S_done False else S_wait m x)"
| "thread_step V p (S_wait m x) =
     (case sem_take V m (nempty p) of
        None \<Rightarrow> None
      | Some (got, s) \<Rightarrow> Some (p\<lparr>nempty := s\<rparr>, if got then S_check x else S_done True))"
| "thread_step V p (S_check x) = Some (p, if shutdown p then S_done True else S_push x)"
| "thread_step V p (S_push x) =
     (case push_item x p of Inl e \<Rightarrow> Some (p, Crashed) | Inr p' \<Rightarrow> Some (p', S_post))"
| "thread_step V p S_post = Some (p\<lparr>nstored := sem_post V (nstored p)\<rparr>, S_done False)"
| "thread_step V p (R_wait m) =
     (case sem_take V m (nstored p) of
        None \<Rightarrow> None
      | Some (got, s) \<Rightarrow> Some (p\<lparr>nstored := s\<rparr>, if got then R_pop else R_done True None))"
| "thread_step V p R_pop =
     (case pop_item p of Inl e \<Rightarrow> Some (p, Crashed) | Inr (x, p') \<Rightarrow> Some (p', R_post x))"
| "thread_step V p (R_post x) = Some (p\<lparr>nempty := sem_post V (nempty p)\<rparr>, R_done False x)"
| "thread_step V p X_flag = Some (p\<lparr>shutdown := True\<rparr>, X_stored)"
| "thread_step V p X_stored = Some (p\<lparr>nstored := sem_post V (nstored p)\<rparr>, X_empty)"
| "thread_step V p X_empty = Some (p\<lparr>nempty := sem_post V (nempty p)\<rparr>, X_done)"
| "thread_step V p _ = None"

text \<open>
  A system: the pipe, its threads, and, for the specification only, what was pushed and popped so far.
\<close>

record ('s, 'a) pipe_sys =
  y_pipe :: "('s, 'a) pipe"
  y_threads :: "'a pc list"
  y_sent :: "'a option list"
  y_got :: "'a option list"

fun starts_call :: "'a pc \<Rightarrow> bool" where
  "starts_call (S_start m x) = True"
| "starts_call (R_wait m) = True"
| "starts_call X_flag = True"
| "starts_call _ = False"

fun log_sent :: "'a pc \<Rightarrow> 'a option list" where
  "log_sent (S_push x) = [x]"
| "log_sent _ = []"

text \<open>What a receiver popped shows in the program counter it moves to.\<close>

fun log_got :: "'a pc \<Rightarrow> 'a pc \<Rightarrow> 'a option list" where
  "log_got R_pop (R_post x) = [x]"
| "log_got _ _ = []"

inductive pipe_step :: "'s semaphore \<Rightarrow> ('s, 'a) pipe_sys \<Rightarrow> ('s, 'a) pipe_sys \<Rightarrow> bool"
  for V :: "'s semaphore" where
  call: "starts_call c \<Longrightarrow> pipe_step V y (y\<lparr>y_threads := y_threads y @ [c]\<rparr>)"
| act: "i < length (y_threads y) \<Longrightarrow> thread_step V (y_pipe y) (y_threads y ! i) = Some (p, c) \<Longrightarrow>
     pipe_step V y (y\<lparr>y_pipe := p, y_threads := (y_threads y)[i := c],
                     y_sent := y_sent y @ log_sent (y_threads y ! i),
                     y_got := y_got y @ log_got (y_threads y ! i) c\<rparr>)"

inductive reachable :: "'s semaphore \<Rightarrow> size_t \<Rightarrow> ('s, 'a) pipe_sys \<Rightarrow> bool"
  for V :: "'s semaphore" and cap :: size_t where
  start: "reachable V cap \<lparr>y_pipe = pipe_new V cap, y_threads = [], y_sent = [], y_got = []\<rparr>"
| step: "reachable V cap y \<Longrightarrow> pipe_step V y y' \<Longrightarrow> reachable V cap y'"

inductive_cases pipe_stepE: "pipe_step V y y'"

section \<open>The invariant while nobody shuts the pipe down\<close>

fun shutting :: "'a pc \<Rightarrow> bool" where
  "shutting X_flag = True"
| "shutting X_stored = True"
| "shutting X_empty = True"
| "shutting X_done = True"
| "shutting _ = False"

text \<open>Threads that hold a free slot, owe the receivers a token, or hold the right to pop.\<close>

fun holds_slot :: "'a pc \<Rightarrow> bool" where
  "holds_slot (S_check x) = True"
| "holds_slot (S_push x) = True"
| "holds_slot (R_post x) = True"
| "holds_slot _ = False"

fun holds_item :: "'a pc \<Rightarrow> bool" where
  "holds_item S_post = True"
| "holds_item R_pop = True"
| "holds_item _ = False"

definition crashed :: "'a pc \<Rightarrow> bool" where
  "crashed c \<longleftrightarrow> c = Crashed"

definition pipe_inv :: "'s semaphore \<Rightarrow> nat \<Rightarrow> ('s, 'a) pipe_sys \<Rightarrow> bool" where
  "pipe_inv V cap y \<longleftrightarrow> (let p = y_pipe y; ts = y_threads y in
     ring_ok p \<and> \<not> shutdown p \<and> pipe_capacity p = cap
     \<and> count_if crashed ts = 0
     \<and> sem_count V (nempty p) + count_if holds_slot ts + unat (pipe_size p) = cap
     \<and> sem_count V (nstored p) + count_if holds_item ts = unat (pipe_size p)
     \<and> y_sent y = y_got y @ pipe_queue p)"

text \<open>One thread moves: what the counts were and what they are now.\<close>

lemma count_if_move:
  assumes "i < length ts"
  shows "count_if P (ts[i := c]) + (if P (ts ! i) then 1 else 0) = count_if P ts + (if P c then 1 else 0)"
  using count_if_update [OF assms] .

lemma act_inv:
  assumes V: "semaphore_ok V" and inv: "pipe_inv V cap y" and i: "i < length (y_threads y)"
    and run: "thread_step V (y_pipe y) (y_threads y ! i) = Some (p', c)"
    and ns: "\<not> shutting (y_threads y ! i)"
  shows "pipe_inv V cap (y\<lparr>y_pipe := p', y_threads := (y_threads y)[i := c],
      y_sent := y_sent y @ log_sent (y_threads y ! i), y_got := y_got y @ log_got (y_threads y ! i) c\<rparr>)
    \<and> \<not> shutting c"
proof -
  define p where "p = y_pipe y"
  define ts where "ts = y_threads y"
  have p: "ring_ok p" "\<not> shutdown p" "pipe_capacity p = cap"
    "count_if crashed ts = 0"
    "sem_count V (nempty p) + count_if holds_slot ts + unat (pipe_size p) = cap"
    "sem_count V (nstored p) + count_if holds_item ts = unat (pipe_size p)"
    "y_sent y = y_got y @ pipe_queue p"
    using inv by (simp_all add: pipe_inv_def Let_def p_def ts_def)
  have it: "i < length ts" using i by (simp add: ts_def)
  note mv = count_if_move [OF it, of crashed c] count_if_move [OF it, of holds_slot c]
    count_if_move [OF it, of holds_item c]
  have run': "thread_step V p (ts ! i) = Some (p', c)" using run by (simp add: p_def ts_def)
  show ?thesis
  proof (cases "ts ! i")
    case (S_wait m x)
    from V show ?thesis
      by (cases rule: sem_take_cases [of V "nempty p" m])
        (use S_wait run' p mv in \<open>auto simp: pipe_inv_def Let_def crashed_def p_def [symmetric] ts_def [symmetric]\<close>)
  next
    case (R_wait m)
    from V show ?thesis
      by (cases rule: sem_take_cases [of V "nstored p" m])
        (use R_wait run' p mv in \<open>auto simp: pipe_inv_def Let_def crashed_def p_def [symmetric] ts_def [symmetric]\<close>)
  next
    case (S_push x)
    then have "holds_slot (ts ! i)" by simp
    with it have "0 < count_if holds_slot ts" by (rule count_if_pos [where P = holds_slot])
    then have "unat (pipe_size p) < pipe_capacity p" using p(3,5) by simp
    from push_item_ok [OF p(1) this, of x] obtain p2 where
      "push_item x p = Inr p2" "ring_ok p2" "pipe_queue p2 = pipe_queue p @ [x]"
      "unat (pipe_size p2) = Suc (unat (pipe_size p))" "pipe_capacity p2 = pipe_capacity p"
      "nempty p2 = nempty p" "nstored p2 = nstored p" "shutdown p2 = shutdown p" by blast
    then show ?thesis
      using S_push run' p mv by (auto simp: pipe_inv_def Let_def crashed_def p_def [symmetric] ts_def [symmetric])
  next
    case R_pop
    then have "holds_item (ts ! i)" by simp
    with it have "0 < count_if holds_item ts" by (rule count_if_pos [where P = holds_item])
    then have pos: "0 < unat (pipe_size p)" using p(6) by simp
    from pop_item_ok [OF p(1) this] obtain p2 where
      p2: "pop_item p = Inr (hd (pipe_queue p), p2)" "ring_ok p2" "pipe_queue p2 = tl (pipe_queue p)"
      "Suc (unat (pipe_size p2)) = unat (pipe_size p)" "pipe_capacity p2 = pipe_capacity p"
      "nempty p2 = nempty p" "nstored p2 = nstored p" "shutdown p2 = shutdown p" by blast
    have "pipe_queue p \<noteq> []" using pos pipe_queue_length [of p] by auto
    then have "pipe_queue p = hd (pipe_queue p) # tl (pipe_queue p)" by simp
    then show ?thesis
      using R_pop run' p mv p2 by (auto simp: pipe_inv_def Let_def crashed_def p_def [symmetric] ts_def [symmetric])
  qed (use V run' p mv ns in \<open>auto simp: pipe_inv_def Let_def crashed_def p_def [symmetric] ts_def [symmetric]\<close>)
qed

lemma pipe_step_inv:
  assumes V: "semaphore_ok V" and inv: "pipe_inv V cap y" and step: "pipe_step V y y'"
    and ns: "\<forall>c \<in> set (y_threads y'). \<not> shutting c"
  shows "pipe_inv V cap y'"
  using step
proof (rule pipe_stepE)
  fix c
  assume c: "y' = y\<lparr>y_threads := y_threads y @ [c]\<rparr>" "starts_call c"
  then show ?thesis using inv ns by (cases c) (auto simp: pipe_inv_def Let_def crashed_def)
next
  fix i p c
  assume a: "y' = y\<lparr>y_pipe := p, y_threads := (y_threads y)[i := c],
      y_sent := y_sent y @ log_sent (y_threads y ! i), y_got := y_got y @ log_got (y_threads y ! i) c\<rparr>"
    "i < length (y_threads y)" "thread_step V (y_pipe y) (y_threads y ! i) = Some (p, c)"
  have "\<not> shutting c" using ns a(1,2) set_update_memI [OF a(2)] by auto
  then have "\<not> shutting (y_threads y ! i)" using a(3) by (cases "y_threads y ! i") auto
  from act_inv [OF V inv a(2,3) this] show ?thesis by (simp add: a(1))
qed

text \<open>A thread that shuts the pipe down stays in the list, so its absence is inherited backwards.\<close>

lemma shutting_stays:
  assumes "pipe_step V y y'" and "\<forall>c \<in> set (y_threads y'). \<not> shutting c"
  shows "\<forall>c \<in> set (y_threads y). \<not> shutting c"
  using assms(1)
proof (rule pipe_stepE)
  fix c
  assume "y' = y\<lparr>y_threads := y_threads y @ [c]\<rparr>"
  then show ?thesis using assms(2) by simp
next
  fix i p c
  assume a: "y' = y\<lparr>y_pipe := p, y_threads := (y_threads y)[i := c],
      y_sent := y_sent y @ log_sent (y_threads y ! i), y_got := y_got y @ log_got (y_threads y ! i) c\<rparr>"
    "i < length (y_threads y)" "thread_step V (y_pipe y) (y_threads y ! i) = Some (p, c)"
  have nc: "\<not> shutting c" using assms(2) a(1,2) set_update_memI [OF a(2)] by auto
  then have ni: "\<not> shutting (y_threads y ! i)" using a(3) by (cases "y_threads y ! i") auto
  show ?thesis
  proof
    fix d
    assume "d \<in> set (y_threads y)"
    then obtain j where j: "j < length (y_threads y)" "d = y_threads y ! j" by (auto simp: in_set_conv_nth)
    show "\<not> shutting d"
    proof (cases "j = i")
      case True
      then show ?thesis using ni j by simp
    next
      case False
      then have "(y_threads y)[i := c] ! j = d" using j by simp
      then have "d \<in> set (y_threads y')" using j(1) a(1) nth_mem [of j "(y_threads y)[i := c]"] by simp
      then show ?thesis using assms(2) by blast
    qed
  qed
qed

lemma reachable_inv:
  assumes "reachable V cap y" and "semaphore_ok V" and "0 < cap"
  shows "(\<forall>c \<in> set (y_threads y). \<not> shutting c) \<longrightarrow> pipe_inv V (unat cap) y"
  using assms(1)
proof (induction rule: reachable.induct)
  case start
  then show ?case
    using pipe_new_ring [OF assms(3), of V] assms(2)
    by (simp add: pipe_inv_def Let_def pipe_new_def pipe_queue_def)
next
  case (step y y')
  then show ?case using pipe_step_inv [OF assms(2) _ step(2)] shutting_stays [OF step(2)] by blast
qed

section \<open>Running a schedule\<close>

datatype 'a event = Call "'a pc" | Act nat

fun run_schedule :: "'s semaphore \<Rightarrow> 'a event list \<Rightarrow> ('s, 'a) pipe_sys \<Rightarrow> ('s, 'a) pipe_sys option" where
  "run_schedule V [] y = Some y"
| "run_schedule V (Call c # es) y =
     (if starts_call c then run_schedule V es (y\<lparr>y_threads := y_threads y @ [c]\<rparr>) else None)"
| "run_schedule V (Act i # es) y =
     (if i < length (y_threads y)
      then (case thread_step V (y_pipe y) (y_threads y ! i) of
              None \<Rightarrow> None
            | Some (p, c) \<Rightarrow> run_schedule V es
                (y\<lparr>y_pipe := p, y_threads := (y_threads y)[i := c],
                   y_sent := y_sent y @ log_sent (y_threads y ! i),
                   y_got := y_got y @ log_got (y_threads y ! i) c\<rparr>))
      else None)"

lemma run_schedule_reachable:
  "run_schedule V es y = Some y' \<Longrightarrow> reachable V cap y \<Longrightarrow> reachable V cap y'"
proof (induction es arbitrary: y)
  case Nil
  then show ?case by simp
next
  case (Cons e es)
  show ?case
  proof (cases e)
    case (Call c)
    with Cons show ?thesis by (auto split: if_splits intro: reachable.step pipe_step.call)
  next
    case (Act i)
    with Cons.prems obtain p c where
      s: "i < length (y_threads y)" "thread_step V (y_pipe y) (y_threads y ! i) = Some (p, c)"
      and r: "run_schedule V es (y\<lparr>y_pipe := p, y_threads := (y_threads y)[i := c],
          y_sent := y_sent y @ log_sent (y_threads y ! i), y_got := y_got y @ log_got (y_threads y ! i) c\<rparr>) = Some y'"
      by (auto split: if_splits option.splits)
    from Cons.IH [OF r] reachable.step [OF Cons.prems(2) pipe_step.act [OF s]] show ?thesis by blast
  qed
qed

section \<open>Properties of the pipe under concurrency\<close>

definition stuck :: "'s semaphore \<Rightarrow> ('s, 'a) pipe_sys \<Rightarrow> bool" where
  "stuck V y \<longleftrightarrow> (\<forall>c \<in> set (y_threads y). thread_step V (y_pipe y) c = None)"

lemma stuck_no_holder:
  assumes "semaphore_ok V" and "stuck V y"
  shows "count_if holds_slot (y_threads y) = 0" and "count_if holds_item (y_threads y) = 0"
proof -
  have "\<not> holds_slot c \<and> \<not> holds_item c" if "c \<in> set (y_threads y)" for c
  proof -
    have "thread_step V (y_pipe y) c = None" using assms(2) that by (simp add: stuck_def)
    then show ?thesis by (cases c) (auto split: sum.splits prod.splits)
  qed
  then show "count_if holds_slot (y_threads y) = 0" and "count_if holds_item (y_threads y) = 0"
    by (auto simp: count_if_zero)
qed

lemma stuck_waits:
  assumes V: "semaphore_ok V" and inv: "pipe_inv V cap y" and st: "stuck V y"
  shows "R_wait Forever \<in> set (y_threads y) \<Longrightarrow> pipe_queue (y_pipe y) = []"
    and "S_wait Forever x \<in> set (y_threads y) \<Longrightarrow> length (pipe_queue (y_pipe y)) = cap"
proof -
  let ?p = "y_pipe y" and ?ts = "y_threads y"
  have i: "sem_count V (nempty ?p) + count_if holds_slot ?ts + unat (pipe_size ?p) = cap"
    "sem_count V (nstored ?p) + count_if holds_item ?ts = unat (pipe_size ?p)"
    using inv by (simp_all add: pipe_inv_def Let_def)
  show "pipe_queue ?p = []" if w: "R_wait Forever \<in> set ?ts"
  proof -
    have th: "thread_step V ?p (R_wait Forever) = None" using st w unfolding stuck_def by blast
    have "sem_count V (nstored ?p) = 0"
      by (rule sem_take_cases [OF V, of "nstored ?p" Forever]) (use th in auto)
    then have "unat (pipe_size ?p) = 0" using i(2) stuck_no_holder(2) [OF V st] by simp
    then show ?thesis using pipe_queue_length [of ?p] by simp
  qed
  show "length (pipe_queue ?p) = cap" if w: "S_wait Forever x \<in> set ?ts"
  proof -
    have th: "thread_step V ?p (S_wait Forever x) = None" using st w unfolding stuck_def by blast
    have "sem_count V (nempty ?p) = 0"
      by (rule sem_take_cases [OF V, of "nempty ?p" Forever]) (use th in auto)
    then show ?thesis using i(1) stuck_no_holder(1) [OF V st] by (simp add: pipe_queue_length)
  qed
qed

text \<open>
  C2. The pipe under any interleaving of senders and receivers, while nobody shuts it down: it never
  runs out of bounds and never holds more than its capacity, so nothing is overwritten; the pointers
  popped so far, followed by those in the ring, are exactly the pointers pushed so far, in order - no
  loss, no duplication, no reordering; and there is no lost wake-up: when no thread can go on, a
  waiting receiver means that the ring is empty and a waiting sender that it is full.
\<close>

theorem pipe_concurrent_fifo:
  assumes "semaphore_ok V" and "0 < cap" and "reachable V cap y"
    and "\<forall>c \<in> set (y_threads y). \<not> shutting c"
  shows "Crashed \<notin> set (y_threads y)
     \<and> length (pipe_queue (y_pipe y)) \<le> unat cap
     \<and> y_sent y = y_got y @ pipe_queue (y_pipe y)
     \<and> (stuck V y \<longrightarrow> R_wait Forever \<in> set (y_threads y) \<longrightarrow> pipe_queue (y_pipe y) = [])
     \<and> (stuck V y \<longrightarrow> (\<exists>x. S_wait Forever x \<in> set (y_threads y)) \<longrightarrow>
          length (pipe_queue (y_pipe y)) = unat cap)"
proof -
  let ?p = "y_pipe y" and ?ts = "y_threads y"
  have inv: "pipe_inv V (unat cap) y" using reachable_inv [OF assms(3,1,2)] assms(4) by blast
  then have i: "ring_ok ?p" "pipe_capacity ?p = unat cap" "count_if crashed ?ts = 0"
    "sem_count V (nempty ?p) + count_if holds_slot ?ts + unat (pipe_size ?p) = unat cap"
    "sem_count V (nstored ?p) + count_if holds_item ?ts = unat (pipe_size ?p)"
    "y_sent y = y_got y @ pipe_queue ?p"
    by (simp_all add: pipe_inv_def Let_def)
  have "Crashed \<notin> set ?ts" using i(3) by (auto simp: count_if_zero crashed_def)
  moreover note stuck_waits [OF assms(1) inv]
  ultimately show ?thesis using i by (auto simp: pipe_queue_length)
qed

abbreviation new_pipe_sys :: "size_t \<Rightarrow> (nat, nat) pipe_sys" where
  "new_pipe_sys cap \<equiv>
     \<lparr>y_pipe = pipe_new counter_semaphore cap, y_threads = [], y_sent = [], y_got = []\<rparr>"

lemmas schedule_defs = pipe_new_def counter_semaphore_def sem_take_def push_item_def pop_item_def

lemma pipe_concurrent_fifo_witness:
  "\<exists>y. run_schedule counter_semaphore
        [Call (S_start Soft (Some 7)), Call (R_wait Forever), Act 0, Act 0, Act 0, Act 0, Act 0, Act 1, Act 1]
        (new_pipe_sys 2) = Some y
     \<and> y_sent y = y_got y @ pipe_queue (y_pipe y) \<and> y_got y = [Some 7]"
proof -
  let ?es = "[Call (S_start Soft (Some 7)), Call (R_wait Forever), Act 0, Act 0, Act 0, Act 0, Act 0, Act 1, Act 1]"
  have "\<exists>y. run_schedule counter_semaphore ?es (new_pipe_sys 2) = Some y \<and> y_got y = [Some 7]
      \<and> (\<forall>c \<in> set (y_threads y). \<not> shutting c)"
    by (simp add: schedule_defs)
  then obtain y where y: "run_schedule counter_semaphore ?es (new_pipe_sys 2) = Some y" "y_got y = [Some 7]"
    "\<forall>c \<in> set (y_threads y). \<not> shutting c" by blast
  have "reachable counter_semaphore 2 y" using run_schedule_reachable [OF y(1)] reachable.start by blast
  from pipe_concurrent_fifo [OF counter_semaphore_ok _ this y(3)] y show ?thesis by auto
qed

text \<open>
  \<open>Shutdown\<close> wakes one sender only: two callers that wait for room in a full pipe of capacity 1
  reach, with \<open>Shutdown\<close> run to its end, a state where no thread can ever move again and one of the two
  is still waiting.
\<close>

lemma shutdown_leaves_sender_waiting:
  "\<exists>y :: (nat, nat) pipe_sys. reachable counter_semaphore 1 y \<and> shutdown (y_pipe y)
     \<and> X_done \<in> set (y_threads y) \<and> S_done True \<in> set (y_threads y)
     \<and> stuck counter_semaphore y \<and> S_wait Forever (Some 3) \<in> set (y_threads y)"
proof -
  let ?es = "[Call (S_start Soft (Some 1)), Act 0, Act 0, Act 0, Act 0, Act 0,
      Call (S_start Forever (Some 2)), Call (S_start Forever (Some 3)), Act 1, Act (Suc 1),
      Call X_flag, Act (Suc (Suc 1)), Act (Suc (Suc 1)), Act (Suc (Suc 1)), Act 1, Act 1]"
  have "\<exists>y. run_schedule counter_semaphore ?es (new_pipe_sys 1) = Some y \<and> shutdown (y_pipe y)
      \<and> X_done \<in> set (y_threads y) \<and> S_done True \<in> set (y_threads y)
      \<and> stuck counter_semaphore y \<and> S_wait Forever (Some 3) \<in> set (y_threads y)"
    by (simp add: schedule_defs stuck_def)
  then show ?thesis using run_schedule_reachable [OF _ reachable.start] by blast
qed

end
