(* ===== verification/Pipe_Calls.thy ===== *)
theory Pipe_Calls
  imports Pipe_Concurrent
begin

text \<open>
  \<open>PipeIPC\<close> (\<^verbatim>\<open>MempoolIPC/src/RouterIPC.h\<close>): how the calls of many threads end. Every call takes a bounded
  number of steps, so that any number of concurrent calls comes to an end, where the calls that are left wait for
  ever; how many these are does not depend on the schedule.
\<close>

section \<open>A call takes at most five steps\<close>

fun steps_left :: "'a pc \<Rightarrow> nat" where
  "steps_left (S_start m x) = 5"
| "steps_left (S_wait m x) = 4"
| "steps_left (S_check x) = 3"
| "steps_left (S_push x) = 2"
| "steps_left S_post = 1"
| "steps_left (R_wait m) = 3"
| "steps_left R_pop = 2"
| "steps_left (R_post x) = 1"
| "steps_left X_flag = 3"
| "steps_left X_stored = 2"
| "steps_left X_empty = 1"
| "steps_left _ = 0"

definition total_steps :: "('s, 'a) pipe_sys \<Rightarrow> nat" where
  "total_steps y = sum_list (map steps_left (y_threads y))"

lemma thread_step_decreases: "thread_step V p c = Some (p', c') \<Longrightarrow> steps_left c' < steps_left c"
  by (cases c) (auto split: option.splits prod.splits sum.splits if_splits)

text \<open>A schedule that lets the threads act and starts no new call.\<close>

abbreviation run_acts :: "'s semaphore \<Rightarrow> nat list \<Rightarrow> ('s, 'a) pipe_sys \<Rightarrow> ('s, 'a) pipe_sys option" where
  "run_acts V js \<equiv> run_schedule V (map Act js)"

lemma act_decreases:
  assumes "i < length (y_threads y)" and "thread_step V (y_pipe y) (y_threads y ! i) = Some (p, c)"
  shows "total_steps (y\<lparr>y_pipe := p, y_threads := (y_threads y)[i := c], y_sent := s, y_got := g\<rparr>) < total_steps y"
proof -
  let ?ls = "map steps_left (y_threads y)"
  have "?ls ! i \<le> sum_list ?ls" using assms(1) elem_le_sum_list [of i ?ls] by simp
  moreover have "steps_left c < ?ls ! i" using thread_step_decreases [OF assms(2)] assms(1) by simp
  moreover have "sum_list (?ls[i := steps_left c]) = sum_list ?ls + steps_left c - ?ls ! i"
    using assms(1) by (intro sum_list_update) simp
  ultimately show ?thesis by (simp add: total_steps_def map_update)
qed

lemma run_acts_bounded: "run_acts V js y = Some y' \<Longrightarrow> length js + total_steps y' \<le> total_steps y"
proof (induction js arbitrary: y)
  case (Cons i js)
  from Cons.prems obtain p c where a: "i < length (y_threads y)" "thread_step V (y_pipe y) (y_threads y ! i) = Some (p, c)"
    by (auto split: if_splits option.splits)
  with Cons.prems have "run_acts V js (y\<lparr>y_pipe := p, y_threads := (y_threads y)[i := c],
      y_sent := y_sent y @ log_sent (y_threads y ! i), y_got := y_got y @ log_got (y_threads y ! i) c\<rparr>) = Some y'"
    by simp
  from Cons.IH [OF this] act_decreases [OF a, where s = "y_sent y @ log_sent (y_threads y ! i)"
      and g = "y_got y @ log_got (y_threads y ! i) c"]
  show ?case by simp
qed simp

lemma run_acts_append:
  "run_acts V (js @ ks) y = (case run_acts V js y of None \<Rightarrow> None | Some y' \<Rightarrow> run_acts V ks y')"
  by (induction js arbitrary: y) (auto split: option.splits)

lemma run_acts_to_stuck: "\<exists>js y'. run_acts V js y = Some y' \<and> stuck V y'"
proof (induction "total_steps y" arbitrary: y rule: less_induct)
  case less
  show ?case
  proof (cases "stuck V y")
    case True
    then show ?thesis by (intro exI [of _ "[]"]) simp
  next
    case False
    then obtain i p c where a: "i < length (y_threads y)" "thread_step V (y_pipe y) (y_threads y ! i) = Some (p, c)"
      by (auto simp: stuck_def in_set_conv_nth)
    from less [OF act_decreases [OF a]] obtain js y' where
      "run_acts V js (y\<lparr>y_pipe := p, y_threads := (y_threads y)[i := c],
          y_sent := y_sent y @ log_sent (y_threads y ! i), y_got := y_got y @ log_got (y_threads y ! i) c\<rparr>) = Some y'"
      "stuck V y'" by blast
    then show ?thesis using a by (intro exI [of _ "i # js"]) simp
  qed
qed

section \<open>How many calls finish\<close>

text \<open>
  Calls of \<open>Send\<close> and \<open>Receive\<close> that wait as long as they have to, at any point of their way, and how far they are.
\<close>

fun is_sender :: "'a pc \<Rightarrow> bool" where
  "is_sender (S_start m x) = (m = Forever)"
| "is_sender (S_wait m x) = (m = Forever)"
| "is_sender (S_check x) = True"
| "is_sender (S_push x) = True"
| "is_sender S_post = True"
| "is_sender (S_done err) = (\<not> err)"
| "is_sender _ = False"

fun is_receiver :: "'a pc \<Rightarrow> bool" where
  "is_receiver (R_wait m) = (m = Forever)"
| "is_receiver R_pop = True"
| "is_receiver (R_post x) = True"
| "is_receiver (R_done timed_out x) = (\<not> timed_out)"
| "is_receiver _ = False"

fun has_pushed :: "'a pc \<Rightarrow> bool" where
  "has_pushed S_post = True"
| "has_pushed (S_done err) = True"
| "has_pushed _ = False"

fun has_popped :: "'a pc \<Rightarrow> bool" where
  "has_popped (R_post x) = True"
| "has_popped (R_done t x) = True"
| "has_popped _ = False"

definition calls_inv :: "'s semaphore \<Rightarrow> nat \<Rightarrow> nat \<Rightarrow> nat \<Rightarrow> ('s, 'a) pipe_sys \<Rightarrow> bool" where
  "calls_inv V cap S R y \<longleftrightarrow> pipe_inv V cap y \<and> (\<forall>c \<in> set (y_threads y). is_sender c \<or> is_receiver c)
     \<and> count_if is_sender (y_threads y) = S \<and> count_if is_receiver (y_threads y) = R
     \<and> length (y_sent y) = count_if has_pushed (y_threads y)
     \<and> length (y_got y) = count_if has_popped (y_threads y)"

lemma sender_not_shutting: "is_sender c \<or> is_receiver c \<Longrightarrow> \<not> shutting c"
  by (cases c) auto

lemma thread_step_call:
  assumes "thread_step V p c = Some (p', c')" and "\<not> shutdown p" and "is_sender c \<or> is_receiver c" and "c' \<noteq> Crashed"
  shows "is_sender c' = is_sender c" and "is_receiver c' = is_receiver c"
    and "has_pushed c' \<longleftrightarrow> has_pushed c \<or> log_sent c \<noteq> []" and "has_popped c' \<longleftrightarrow> has_popped c \<or> log_got c c' \<noteq> []"
    and "length (log_sent c) = (if has_pushed c' \<and> \<not> has_pushed c then 1 else 0)"
    and "length (log_got c c') = (if has_popped c' \<and> \<not> has_popped c then 1 else 0)"
  using assms
  by (cases c; auto simp: sem_take_def split: option.splits prod.splits sum.splits if_splits)+

lemma calls_inv_act:
  assumes V: "semaphore_ok V" and inv: "calls_inv V cap S R y" and i: "i < length (y_threads y)"
    and run: "thread_step V (y_pipe y) (y_threads y ! i) = Some (p, c)"
  shows "calls_inv V cap S R (y\<lparr>y_pipe := p, y_threads := (y_threads y)[i := c],
      y_sent := y_sent y @ log_sent (y_threads y ! i), y_got := y_got y @ log_got (y_threads y ! i) c\<rparr>)"
    (is "calls_inv V cap S R ?y'")
proof -
  let ?d = "y_threads y ! i"
  have d: "is_sender ?d \<or> is_receiver ?d" using inv i by (simp add: calls_inv_def)
  have pi: "pipe_inv V cap ?y'"
    using act_inv [OF V _ i run sender_not_shutting [OF d]] inv by (simp add: calls_inv_def)
  then have "count_if crashed ((y_threads y)[i := c]) = 0" by (simp add: pipe_inv_def Let_def)
  then have nc: "c \<noteq> Crashed" using i set_update_memI [OF i, of c] by (auto simp: count_if_zero crashed_def)
  have "\<not> shutdown (y_pipe y)" using inv by (simp add: calls_inv_def pipe_inv_def Let_def)
  note st = thread_step_call [OF run this d nc]
  note mv = count_if_move [OF i, of is_sender c] count_if_move [OF i, of is_receiver c]
    count_if_move [OF i, of has_pushed c] count_if_move [OF i, of has_popped c]
  have "\<forall>e \<in> set ((y_threads y)[i := c]). is_sender e \<or> is_receiver e"
    using inv d st(1,2) set_update_subset_insert [of "y_threads y" i c] by (auto simp: calls_inv_def)
  moreover have "count_if is_sender ((y_threads y)[i := c]) = S" "count_if is_receiver ((y_threads y)[i := c]) = R"
    using mv(1,2) st(1,2) inv by (auto simp: calls_inv_def split: if_splits)
  moreover have "length (y_sent y @ log_sent ?d) = count_if has_pushed ((y_threads y)[i := c])"
    using mv(3) st(3,5) inv by (auto simp: calls_inv_def split: if_splits)
  moreover have "length (y_got y @ log_got ?d c) = count_if has_popped ((y_threads y)[i := c])"
    using mv(4) st(4,6) inv by (auto simp: calls_inv_def split: if_splits)
  ultimately show ?thesis using pi unfolding calls_inv_def by simp
qed

lemma calls_inv_run:
  assumes "semaphore_ok V" and "calls_inv V cap S R y" and "run_acts V js y = Some y'"
  shows "calls_inv V cap S R y'"
  using assms(2,3)
proof (induction js arbitrary: y)
  case (Cons i js)
  from Cons.prems(2) obtain p c where a: "i < length (y_threads y)" "thread_step V (y_pipe y) (y_threads y ! i) = Some (p, c)"
    by (auto split: if_splits option.splits)
  from Cons.IH [OF calls_inv_act [OF assms(1) Cons.prems(1) a]] Cons.prems(2) a show ?case by simp
qed simp

fun send_returned :: "'a pc \<Rightarrow> bool" where
  "send_returned (S_done err) = (\<not> err)"
| "send_returned _ = False"

fun receive_returned :: "'a pc \<Rightarrow> bool" where
  "receive_returned (R_done timed_out x) = (\<not> timed_out)"
| "receive_returned _ = False"

lemma stuck_call:
  assumes "thread_step V p c = None" and "is_sender c \<or> is_receiver c"
  obtains (send_waits) x where "c = S_wait Forever x" | (send_done) "c = S_done False"
  | (receive_waits) "c = R_wait Forever" | (receive_done) x where "c = R_done False x"
  using assms by (cases c) (auto split: option.splits prod.splits sum.splits)

text \<open>In a stuck state every call has returned or waits.\<close>

lemma count_if_split:
  "\<forall>c \<in> set cs. P c \<longleftrightarrow> Q c \<or> W c \<Longrightarrow> \<forall>c \<in> set cs. \<not> (Q c \<and> W c) \<Longrightarrow> count_if P cs = count_if Q cs + count_if W cs"
  by (induction cs) auto

lemma count_if_cong: "\<forall>c \<in> set cs. P c = Q c \<Longrightarrow> count_if P cs = count_if Q cs"
  by (induction cs) auto

lemma stuck_counts:
  assumes st: "stuck V y" and calls: "\<forall>c \<in> set (y_threads y). is_sender c \<or> is_receiver c"
  shows "count_if has_pushed (y_threads y) = count_if send_returned (y_threads y)"
    and "count_if has_popped (y_threads y) = count_if receive_returned (y_threads y)"
    and "count_if is_sender (y_threads y) =
       count_if send_returned (y_threads y) + count_if (\<lambda>c. \<exists>x. c = S_wait Forever x) (y_threads y)"
    and "count_if is_receiver (y_threads y) =
       count_if receive_returned (y_threads y) + count_if (\<lambda>c. c = R_wait Forever) (y_threads y)"
proof -
  have c: "(has_pushed c \<longleftrightarrow> send_returned c) \<and> (has_popped c \<longleftrightarrow> receive_returned c)
      \<and> (is_sender c \<longleftrightarrow> send_returned c \<or> (\<exists>x. c = S_wait Forever x))
      \<and> (is_receiver c \<longleftrightarrow> receive_returned c \<or> c = R_wait Forever)
      \<and> \<not> (send_returned c \<and> (\<exists>x. c = S_wait Forever x)) \<and> \<not> (receive_returned c \<and> c = R_wait Forever)"
    if "c \<in> set (y_threads y)" for c
  proof -
    have n: "thread_step V (y_pipe y) c = None" and k: "is_sender c \<or> is_receiver c"
      using st calls that by (simp_all add: stuck_def)
    show ?thesis by (rule stuck_call [OF n k]) auto
  qed
  show "count_if has_pushed (y_threads y) = count_if send_returned (y_threads y)"
    "count_if has_popped (y_threads y) = count_if receive_returned (y_threads y)"
    by (rule count_if_cong; use c in blast)+
  show "count_if is_sender (y_threads y) =
       count_if send_returned (y_threads y) + count_if (\<lambda>c. \<exists>x. c = S_wait Forever x) (y_threads y)"
    "count_if is_receiver (y_threads y) =
       count_if receive_returned (y_threads y) + count_if (\<lambda>c. c = R_wait Forever) (y_threads y)"
    by (rule count_if_split; use c in blast)+
qed

lemma stuck_calls_done:
  assumes V: "semaphore_ok V" and cap: "0 < cap" and inv: "calls_inv V cap S R y" and st: "stuck V y"
  shows "count_if send_returned (y_threads y) = min S (R + cap) \<and> count_if receive_returned (y_threads y) = min R S"
proof -
  let ?ts = "y_threads y" and ?q = "length (pipe_queue (y_pipe y))"
  let ?ws = "count_if (\<lambda>c. \<exists>x. c = S_wait Forever x) ?ts" and ?wr = "count_if (\<lambda>c. c = R_wait Forever) ?ts"
  have pi: "pipe_inv V cap y" and calls: "\<forall>c \<in> set ?ts. is_sender c \<or> is_receiver c"
    using inv by (simp_all add: calls_inv_def)
  note n = stuck_counts [OF st calls]
  have S: "S = count_if send_returned ?ts + ?ws" and R: "R = count_if receive_returned ?ts + ?wr"
    using n(3,4) inv by (simp_all add: calls_inv_def)
  have q: "count_if send_returned ?ts = count_if receive_returned ?ts + ?q"
  proof -
    have "y_sent y = y_got y @ pipe_queue (y_pipe y)" using pi by (simp add: pipe_inv_def Let_def)
    from arg_cong [OF this, of length] show ?thesis using inv n(1,2) by (simp add: calls_inv_def)
  qed
  have le: "?q \<le> cap" using pi by (simp add: pipe_inv_def Let_def ring_ok_def pipe_queue_length)
  have "?ws = 0 \<or> ?q = cap" "?wr = 0 \<or> ?q = 0"
    using stuck_waits [OF V pi st] by (auto simp: count_if_zero)
  then show ?thesis using S R q le cap by (auto simp: min_def)
qed

definition pipe_calls :: "'s semaphore \<Rightarrow> size_t \<Rightarrow> 'a pc list \<Rightarrow> ('s, 'a) pipe_sys" where
  "pipe_calls V cap calls = \<lparr>y_pipe = pipe_new V cap, y_threads = calls, y_sent = [], y_got = []\<rparr>"

lemma pipe_calls_start:
  assumes V: "semaphore_ok V" and cap: "0 < cap"
    and calls: "\<forall>c \<in> set calls. (\<exists>x. c = S_start Forever x) \<or> c = R_wait Forever"
  shows "calls_inv V (unat cap) (count_if is_sender calls) (count_if is_receiver calls) (pipe_calls V cap calls)"
    and "total_steps (pipe_calls V cap calls) \<le> 5 * length calls"
proof -
  have z: "count_if P calls = 0" if "\<And>x. \<not> P (S_start Forever x)" "\<not> P (R_wait Forever)" for P
    using calls that by (auto simp: count_if_zero)
  have "count_if crashed calls = 0" "count_if holds_slot calls = 0" "count_if holds_item calls = 0"
    "count_if has_pushed calls = 0" "count_if has_popped calls = 0"
    by (rule z; simp add: crashed_def)+
  then show "calls_inv V (unat cap) (count_if is_sender calls) (count_if is_receiver calls) (pipe_calls V cap calls)"
    using calls pipe_new_ring [OF cap, of V] V
    by (auto simp: calls_inv_def pipe_inv_def pipe_calls_def Let_def pipe_new_def pipe_queue_def)
  have "sum_list (map steps_left calls) \<le> 5 * length calls"
    using calls by (induction calls) fastforce+
  then show "total_steps (pipe_calls V cap calls) \<le> 5 * length calls" by (simp add: total_steps_def pipe_calls_def)
qed

text \<open>
  C11. Concurrent calls come to an end. Let any number of threads call \<open>Send\<close> and \<open>Receive\<close> on a new pipe, all of them ready
  to wait for ever. Whatever the schedule, they take at most five steps each, and there is always a way on to a
  state where no thread can move; and there, whatever the schedule was, exactly as many calls have returned as can:
  a send for each receive and each free slot, a receive for each send. In particular as many receives as sends
  all return.
\<close>

theorem pipe_calls_terminate:
  assumes V: "semaphore_ok V" and cap: "0 < cap"
    and calls: "\<forall>c \<in> set calls. (\<exists>x. c = S_start Forever x) \<or> c = R_wait Forever"
    and run: "run_acts V js (pipe_calls V cap calls) = Some y"
  shows "length js \<le> 5 * length calls
    \<and> (\<exists>ks y'. run_acts V (js @ ks) (pipe_calls V cap calls) = Some y' \<and> stuck V y')
    \<and> (stuck V y \<longrightarrow>
         count_if send_returned (y_threads y) = min (count_if is_sender calls) (count_if is_receiver calls + unat cap)
         \<and> count_if receive_returned (y_threads y) = min (count_if is_receiver calls) (count_if is_sender calls))"
proof (intro conjI impI)
  note start = pipe_calls_start [OF V cap calls]
  show "length js \<le> 5 * length calls" using run_acts_bounded [OF run] start(2) by simp
  show "\<exists>ks y'. run_acts V (js @ ks) (pipe_calls V cap calls) = Some y' \<and> stuck V y'"
    using run_acts_to_stuck [of V y] run by (simp add: run_acts_append del: map_append)
  have c: "0 < unat cap" using cap by (simp add: word_less_nat_alt)
  assume "stuck V y"
  from stuck_calls_done [OF V c calls_inv_run [OF V start(1) run] this]
  show "count_if send_returned (y_threads y) = min (count_if is_sender calls) (count_if is_receiver calls + unat cap)"
    "count_if receive_returned (y_threads y) = min (count_if is_receiver calls) (count_if is_sender calls)" by simp_all
qed

text \<open>Two senders and one receiver on a pipe of capacity 1.\<close>

theorem pipe_calls_terminate_witness:
  "\<exists>y :: (nat, nat) pipe_sys.
     run_acts counter_semaphore [0, 0, 0, 0, 0, 2, 2, 2, Suc 0, Suc 0, Suc 0, Suc 0, Suc 0]
       (pipe_calls counter_semaphore 1 [S_start Forever (Some 1), S_start Forever (Some 2), R_wait Forever]) = Some y
     \<and> count_if send_returned (y_threads y) = 2 \<and> count_if receive_returned (y_threads y) = 1"
proof -
  let ?calls = "[S_start Forever (Some 1), S_start Forever (Some 2), R_wait Forever] :: nat pc list"
  let ?js = "[0, 0, 0, 0, 0, 2, 2, 2, Suc 0, Suc 0, Suc 0, Suc 0, Suc 0] :: nat list"
  have "\<exists>y. run_acts counter_semaphore ?js (pipe_calls counter_semaphore 1 ?calls) = Some y \<and> stuck counter_semaphore y"
    by (simp add: pipe_calls_def schedule_defs stuck_def)
  then obtain y where y: "run_acts counter_semaphore ?js (pipe_calls counter_semaphore 1 ?calls) = Some y"
    "stuck counter_semaphore y" by blast
  have c: "\<forall>c \<in> set ?calls. (\<exists>x. c = S_start Forever x) \<or> c = R_wait Forever" by simp
  from pipe_calls_terminate [OF counter_semaphore_ok _ c y(1)] y show ?thesis by simp
qed

end
