(* ===== verification/Router.thy ===== *)
theory Router
  imports Pipe
begin

text \<open>
  \<^verbatim>\<open>MempoolIPC/src/RouterIPC.h\<close>, class \<open>RouterIPC\<close>: it sends a pointer to every pipe that is
  still alive. The router holds weak pointers; a pipe lives as long as its receiver holds the strong
  one. Pipes are numbered, and \<open>rt_alive\<close> is the segment's view: \<^const>\<open>None\<close> for a pipe that is gone.
  Every operation runs under the router's mutex.
\<close>

section \<open>RouterIPC\<close>

record ('s, 'a) router =
  rt_pipes :: "nat list"
  rt_alive :: "nat \<Rightarrow> ('s, 'a) pipe option"
  rt_next :: nat

definition router_new :: "('s, 'a) router" where
  "router_new = \<lparr>rt_pipes = [], rt_alive = (\<lambda>_. None), rt_next = 0\<rparr>"

text \<open>\<open>constructed\<close>: whether the segment had room for the pipe.\<close>

definition RegisterAsReceiver ::
  "'s semaphore \<Rightarrow> size_t \<Rightarrow> bool \<Rightarrow> ('s, 'a) router \<Rightarrow> nat option \<times> ('s, 'a) router" where
  "RegisterAsReceiver V capacity_in constructed r =
     (if \<not> constructed then (None, r)
      else (Some (rt_next r),
            r\<lparr>rt_alive := (rt_alive r)(rt_next r := Some (pipe_new V capacity_in)),
              rt_next := rt_next r + 1, rt_pipes := rt_pipes r @ [rt_next r]\<rparr>))"

text \<open>The receiver lets go of its pipe: the last strong pointer destroys it.\<close>

definition drop_receiver :: "nat \<Rightarrow> ('s, 'a) router \<Rightarrow> ('s, 'a) router" where
  "drop_receiver k r = r\<lparr>rt_alive := (rt_alive r)(k := None)\<rparr>"

text \<open>
  The loop of \<open>Send\<close>, from index \<open>i\<close>: a dead pipe is overwritten with the last one and the same index
  is tried again.
\<close>

function send_loop ::
  "'s semaphore \<Rightarrow> wait_mode \<Rightarrow> 'a option \<Rightarrow> nat \<Rightarrow> nat \<Rightarrow> ('s, 'a) router
   \<Rightarrow> (nat \<times> ('s, 'a) router) result option" where
  "send_loop V m x i nErrors r =
     (if i < length (rt_pipes r)
      then (case rt_alive r (rt_pipes r ! i) of
              None \<Rightarrow> send_loop V m x i nErrors (r\<lparr>rt_pipes := swap_pop i (rt_pipes r)\<rparr>)
            | Some p \<Rightarrow>
                (case pipe_Send V m x p of
                   None \<Rightarrow> None
                 | Some (Inl e) \<Rightarrow> Some (Inl e)
                 | Some (Inr (had_error, p')) \<Rightarrow>
                     send_loop V m x (i + 1) (if had_error then nErrors + 1 else nErrors)
                       (r\<lparr>rt_alive := (rt_alive r)(rt_pipes r ! i := Some p')\<rparr>)))
      else Some (Inr (nErrors, r)))"
  by pat_completeness auto
termination
  by (relation "measure (\<lambda>(V, m, x, i, n, r). length (rt_pipes r) - i)") auto

declare send_loop.simps [simp del]

definition router_Send ::
  "'s semaphore \<Rightarrow> wait_mode \<Rightarrow> 'a option \<Rightarrow> ('s, 'a) router \<Rightarrow> (nat \<times> ('s, 'a) router) result option" where
  "router_Send V m x r = send_loop V m x 0 0 r"

definition router_Shutdown :: "'s semaphore \<Rightarrow> ('s, 'a) router \<Rightarrow> ('s, 'a) router" where
  "router_Shutdown V r =
     fold (\<lambda>k r'. case rt_alive r' k of
                    None \<Rightarrow> r'
                  | Some p \<Rightarrow> r'\<lparr>rt_alive := (rt_alive r')(k := Some (pipe_Shutdown V p))\<rparr>)
       (rt_pipes r) r"

definition is_alive :: "('s, 'a) router \<Rightarrow> nat \<Rightarrow> bool" where
  "is_alive r k \<longleftrightarrow> rt_alive r k \<noteq> None"

definition NumReceivers :: "('s, 'a) router \<Rightarrow> nat" where
  "NumReceivers r = length (filter (is_alive r) (rt_pipes r))"

section \<open>Pipes that cannot fail\<close>

text \<open>What every operation keeps, also after a shutdown: indices stay inside the ring.\<close>

definition pipe_sane :: "'s semaphore \<Rightarrow> ('s, 'a) pipe \<Rightarrow> bool" where
  "pipe_sane V p \<longleftrightarrow> 0 < pipe_capacity p \<and> length (items p) = pipe_capacity p
     \<and> indexPush p < pipe_capacity p \<and> indexPop p < pipe_capacity p
     \<and> (\<not> shutdown p \<longrightarrow> pipe_idle V p)"

lemma pipe_new_sane:
  assumes "semaphore_ok V" and "0 < cap"
  shows "pipe_sane V (pipe_new V cap)"
proof -
  have "ring_ok (pipe_new V cap :: ('a, 'b) pipe)" by (rule pipe_new_ring [OF assms(2)])
  then show ?thesis
    using assms by (simp add: pipe_sane_def pipe_idle_def pipe_new_def word_less_nat_alt)
qed

lemma pipe_idle_sane: "pipe_idle V p \<Longrightarrow> pipe_sane V p"
  by (auto simp: pipe_sane_def pipe_idle_def ring_ok_def)

lemma pipe_Send_sane:
  assumes "semaphore_ok V" and "pipe_sane V p" and "m \<noteq> Forever"
  shows "\<exists>err p'. pipe_Send V m x p = Some (Inr (err, p')) \<and> pipe_sane V p'
     \<and> (\<not> shutdown p \<longrightarrow> pipe_queue p' = (if err then pipe_queue p else pipe_queue p @ [x])
          \<and> (err \<longleftrightarrow> length (pipe_queue p) = pipe_capacity p) \<and> pipe_capacity p' = pipe_capacity p)"
proof (cases "shutdown p")
  case True
  then show ?thesis using assms by (auto simp: pipe_Send_def)
next
  case False
  then have idle: "pipe_idle V p" using assms(2) by (simp add: pipe_sane_def)
  have le: "length (pipe_queue p) \<le> pipe_capacity p"
    using idle by (simp add: pipe_idle_def ring_ok_def pipe_queue_length)
  from pipe_do_queue [OF assms(1) idle, of "Send m x"] assms(3) le show ?thesis
    by (auto split: if_splits option.splits sum.splits intro: pipe_idle_sane)
qed

lemma pipe_Receive_sane:
  assumes "pipe_sane V p" and "semaphore_ok V" and "m \<noteq> Forever"
  shows "\<exists>t x p'. pipe_Receive V m p = Some (Inr (t, x, p')) \<and> pipe_sane V p'"
proof (cases "shutdown p")
  case False
  then have idle: "pipe_idle V p" using assms(1) by (simp add: pipe_sane_def)
  from pipe_do_queue [OF assms(2) idle, of "Receive m"] assms(3) show ?thesis
    by (auto split: list.splits option.splits sum.splits intro: pipe_idle_sane)
next
  case True
  from assms(2) show ?thesis
  proof (cases rule: sem_take_cases [of V "nstored p" m])
    case blocks
    then show ?thesis using assms(3) by simp
  next
    case gives_up
    then show ?thesis using assms(1) True by (auto simp: pipe_Receive_def pipe_sane_def)
  next
    case (takes s)
    then show ?thesis using assms(1) True by (auto simp: pipe_Receive_def pop_item_def pipe_sane_def)
  qed
qed

lemma pipe_Shutdown_sane: "pipe_sane V p \<Longrightarrow> pipe_sane V (pipe_Shutdown V p)"
  by (simp add: pipe_sane_def pipe_Shutdown_def Let_def)

section \<open>The router's invariant\<close>

definition router_ok :: "'s semaphore \<Rightarrow> ('s, 'a) router \<Rightarrow> bool" where
  "router_ok V r \<longleftrightarrow> distinct (rt_pipes r)
     \<and> (\<forall>k p. rt_alive r k = Some p \<longrightarrow> k \<in> set (rt_pipes r) \<and> pipe_sane V p)
     \<and> (\<forall>k \<in> set (rt_pipes r). k < rt_next r)"

lemma distinct_swap_pop:
  assumes "distinct xs" and "i < length xs"
  shows "distinct (swap_pop i xs) \<and> set (swap_pop i xs) = set xs - {xs ! i}"
proof -
  have m: "add_mset (xs ! i) (mset (swap_pop i xs)) = mset xs" by (rule mset_swap_pop [OF assms(2)])
  moreover have "mset_set (set xs) = mset xs" using assms(1) by (rule mset_set_set)
  moreover have "distinct xs = distinct (xs ! i # swap_pop i xs)"
    by (rule mset_eq_imp_distinct_iff) (simp add: m)
  ultimately have "distinct (xs ! i # swap_pop i xs)" "set xs = set (xs ! i # swap_pop i xs)"
    using assms(1) mset_eq_setD [of "xs ! i # swap_pop i xs" xs] by simp_all
  then show ?thesis by auto
qed

lemma swap_pop_split:
  assumes "distinct xs" and "i < length xs"
  shows "take i (swap_pop i xs) = take i xs" and "set (drop i (swap_pop i xs)) = set (drop i xs) - {xs ! i}"
proof -
  show t: "take i (swap_pop i xs) = take i xs"
    using assms(2) by (intro nth_equalityI) (auto simp: nth_swap_pop)
  have part: "set (drop i ys) = set ys - set (take i ys)" if "distinct ys" for ys :: "'a list"
    using that set_take_disj_set_drop_if_distinct [OF that order_refl, of i]
    by (metis Diff_cancel Diff_triv Un_Diff Un_empty_left append_take_drop_id inf_commute set_append)
  have sp: "distinct (swap_pop i xs)" "set (swap_pop i xs) = set xs - {xs ! i}"
    using distinct_swap_pop [OF assms] by simp_all
  have "set (drop i (swap_pop i xs)) = set xs - {xs ! i} - set (take i xs)"
    using part [OF sp(1)] t sp(2) by simp
  also have "\<dots> = set (drop i xs) - {xs ! i}" using part [OF assms(1)] by blast
  finally show "set (drop i (swap_pop i xs)) = set (drop i xs) - {xs ! i}" .
qed

text \<open>What a send does to pipe \<open>q\<close>, and whether that pipe refused the pointer.\<close>

definition served ::
  "'s semaphore \<Rightarrow> wait_mode \<Rightarrow> 'a option \<Rightarrow> ('s, 'a) router \<Rightarrow> ('s, 'a) router \<Rightarrow> nat \<Rightarrow> bool" where
  "served V m x r r' q \<longleftrightarrow> (case rt_alive r q of
     None \<Rightarrow> rt_alive r' q = None
   | Some p \<Rightarrow> \<exists>err p'. pipe_Send V m x p = Some (Inr (err, p')) \<and> rt_alive r' q = Some p')"

definition refused :: "'s semaphore \<Rightarrow> wait_mode \<Rightarrow> 'a option \<Rightarrow> ('s, 'a) router \<Rightarrow> nat \<Rightarrow> bool" where
  "refused V m x r q \<longleftrightarrow> (\<exists>p p'. rt_alive r q = Some p \<and> pipe_Send V m x p = Some (Inr (True, p')))"

lemma send_step_ok:
  assumes "router_ok V r" and "q \<in> set (rt_pipes r)" and "pipe_sane V p'"
  shows "router_ok V (r\<lparr>rt_alive := (rt_alive r)(q := Some p')\<rparr>)"
  using assms by (auto simp: router_ok_def)

lemma prune_step_ok:
  assumes "router_ok V r" and "i < length (rt_pipes r)" and "rt_alive r (rt_pipes r ! i) = None"
  shows "router_ok V (r\<lparr>rt_pipes := swap_pop i (rt_pipes r)\<rparr>)"
proof -
  have d: "distinct (rt_pipes r)" using assms(1) by (simp add: router_ok_def)
  note sp = distinct_swap_pop [OF d assms(2)]
  have "k \<noteq> rt_pipes r ! i" if "rt_alive r k = Some p" for k p using that assms(3) by auto
  then show ?thesis using assms(1) sp by (auto simp: router_ok_def)
qed

text \<open>
  The loop, from index \<open>i\<close>: the pipes before \<open>i\<close> are alive and done, the others are still to be
  served. At its end the dead ones are gone and every other one has got the pointer exactly once.
\<close>

text \<open>What the loop has done when it returns \<open>r'\<close>, started at position \<open>i\<close> with \<open>k\<close> errors.\<close>

definition loop_post ::
  "'s semaphore \<Rightarrow> wait_mode \<Rightarrow> 'a option \<Rightarrow> nat \<Rightarrow> nat \<Rightarrow> ('s, 'a) router \<Rightarrow> ('s, 'a) router \<Rightarrow> bool" where
  "loop_post V m x i k r r' \<longleftrightarrow>
     send_loop V m x i k r = Some (Inr (k + card {q \<in> set (drop i (rt_pipes r)). refused V m x r q}, r'))
     \<and> router_ok V r' \<and> set (rt_pipes r') = {q \<in> set (rt_pipes r). is_alive r q}
     \<and> rt_next r' = rt_next r
     \<and> (\<forall>q. q \<notin> set (drop i (rt_pipes r)) \<longrightarrow> rt_alive r' q = rt_alive r q)
     \<and> (\<forall>q \<in> set (drop i (rt_pipes r)). served V m x r r' q)"

text \<open>The loop removes a dead pipe and stays where it is, or sends to a living pipe and goes on.\<close>

lemma loop_post_dead:
  assumes ok: "router_ok V r" and lt: "i < length (rt_pipes r)" and dead: "rt_alive r (rt_pipes r ! i) = None"
    and post: "loop_post V m x i k (r\<lparr>rt_pipes := swap_pop i (rt_pipes r)\<rparr>) r'"
  shows "loop_post V m x i k r r'"
proof -
  let ?xs = "rt_pipes r" and ?q = "rt_pipes r ! i"
  let ?r = "r\<lparr>rt_pipes := swap_pop i ?xs\<rparr>"
  have d: "distinct ?xs" using ok by (simp add: router_ok_def)
  note sp = swap_pop_split [OF d lt] distinct_swap_pop [OF d lt]
  have "\<not> refused V m x r ?q" using dead by (simp add: refused_def)
  then have cnt: "{q \<in> set (drop i (rt_pipes ?r)). refused V m x ?r q} = {q \<in> set (drop i ?xs). refused V m x r q}"
    using sp(2) by (auto simp: refused_def)
  have sl: "send_loop V m x i k r = send_loop V m x i k ?r"
    by (subst send_loop.simps) (simp add: lt dead)
  have ih: "send_loop V m x i k ?r = Some (Inr (k + card {q \<in> set (drop i (rt_pipes ?r)). refused V m x ?r q}, r'))"
    "router_ok V r'" "set (rt_pipes r') = {q \<in> set (rt_pipes ?r). is_alive ?r q}" "rt_next r' = rt_next ?r"
    "\<forall>q. q \<notin> set (drop i (rt_pipes ?r)) \<longrightarrow> rt_alive r' q = rt_alive ?r q"
    "\<forall>q \<in> set (drop i (rt_pipes ?r)). served V m x ?r r' q"
    using post unfolding loop_post_def by blast+
  note ih1 = ih(1) [unfolded cnt]
  have "set (rt_pipes r') = {q \<in> set ?xs - {?q}. is_alive r q}"
    using ih(3) conjunct2 [OF sp(3)] by (simp add: is_alive_def)
  also have "\<dots> = {q \<in> set ?xs. is_alive r q}" using dead by (auto simp: is_alive_def)
  finally have "set (rt_pipes r') = {q \<in> set ?xs. is_alive r q}" .
  moreover have "rt_alive r' q = rt_alive r q" if "q \<notin> set (drop i ?xs)" for q
    using ih(5) that sp(2) by simp
  moreover have "served V m x r r' q" if "q \<in> set (drop i ?xs)" for q
  proof (cases "q = ?q")
    case True
    then show ?thesis using ih(5) dead sp(2) by (simp add: served_def)
  next
    case False
    then show ?thesis using ih(6) that sp(2) by (simp add: served_def)
  qed
  ultimately show ?thesis unfolding loop_post_def using sl ih1 ih(2,4) by auto
qed

lemma loop_post_alive:
  assumes d: "distinct (rt_pipes r)" and lt: "i < length (rt_pipes r)" and alive: "rt_alive r (rt_pipes r ! i) = Some p"
    and snd: "pipe_Send V m x p = Some (Inr (err, p'))"
    and post: "loop_post V m x (i + 1) (if err then k + 1 else k) (r\<lparr>rt_alive := (rt_alive r)(rt_pipes r ! i := Some p')\<rparr>) r'"
  shows "loop_post V m x i k r r'"
proof -
  let ?xs = "rt_pipes r" and ?q = "rt_pipes r ! i"
  let ?r = "r\<lparr>rt_alive := (rt_alive r)(?q := Some p')\<rparr>"
  let ?k = "if err then k + 1 else k"
  have dr: "drop i ?xs = ?q # drop (i + 1) ?xs" using Cons_nth_drop_Suc [OF lt] by simp
  have nin: "?q \<notin> set (drop (i + 1) ?xs)"
    using d dr by (metis distinct.simps(2) distinct_drop)
  have rq: "refused V m x r ?q = err" using alive snd by (auto simp: refused_def)
  have rest: "{q \<in> set (drop (i + 1) (rt_pipes ?r)). refused V m x ?r q} = {q \<in> set (drop (i + 1) ?xs). refused V m x r q}"
    using nin by (auto simp: refused_def)
  have "{q \<in> set (drop i ?xs). refused V m x r q} =
      (if err then insert ?q {q \<in> set (drop (i + 1) ?xs). refused V m x r q}
       else {q \<in> set (drop (i + 1) ?xs). refused V m x r q})"
    using rq unfolding dr by auto
  then have cnt: "?k + card {q \<in> set (drop (i + 1) ?xs). refused V m x r q}
      = k + card {q \<in> set (drop i ?xs). refused V m x r q}"
    using nin by simp
  have sl: "send_loop V m x i k r = send_loop V m x (i + 1) ?k ?r"
    by (subst send_loop.simps) (simp add: lt alive snd)
  have ih: "send_loop V m x (i + 1) ?k ?r = Some (Inr (?k + card {q \<in> set (drop (i + 1) (rt_pipes ?r)). refused V m x ?r q}, r'))"
    "router_ok V r'" "set (rt_pipes r') = {q \<in> set (rt_pipes ?r). is_alive ?r q}" "rt_next r' = rt_next ?r"
    "\<forall>q. q \<notin> set (drop (i + 1) (rt_pipes ?r)) \<longrightarrow> rt_alive r' q = rt_alive ?r q"
    "\<forall>q \<in> set (drop (i + 1) (rt_pipes ?r)). served V m x ?r r' q"
    using post unfolding loop_post_def by blast+
  note ih1 = ih(1) [unfolded rest cnt]
  have "set (rt_pipes r') = {q \<in> set ?xs. is_alive r q}"
    using ih(3) alive by (auto simp: is_alive_def)
  moreover have "rt_alive r' q = rt_alive r q" if "q \<notin> set (drop i ?xs)" for q
    using ih(5) that unfolding dr by simp
  moreover have "served V m x r r' q" if "q \<in> set (drop i ?xs)" for q
  proof (cases "q = ?q")
    case True
    have "rt_alive r' ?q = Some p'" using ih(5) nin by simp
    then show ?thesis using True alive snd by (simp add: served_def)
  next
    case False
    then have "q \<in> set (drop (i + 1) ?xs)" using that unfolding dr by simp
    then have "served V m x ?r r' q" using ih(6) by simp
    then show ?thesis using False by (simp add: served_def)
  qed
  ultimately show ?thesis unfolding loop_post_def using sl ih1 ih(2,4) by auto
qed

lemma send_loop_post:
  assumes "semaphore_ok V" and "m \<noteq> Forever"
    and "router_ok V r" and "\<forall>j < i. is_alive r (rt_pipes r ! j)" and "i \<le> length (rt_pipes r)"
  shows "\<exists>r'. loop_post V m x i k r r'"
  using assms
proof (induction V m x i k r rule: send_loop.induct)
  case (1 V m x i k r)
  let ?xs = "rt_pipes r"
  have ok: "router_ok V r" and d: "distinct ?xs" using 1(5) by (simp_all add: router_ok_def)
  consider "i = length ?xs" | "i < length ?xs" "rt_alive r (?xs ! i) = None"
    | p where "i < length ?xs" "rt_alive r (?xs ! i) = Some p" using 1(7) by fastforce
  then show ?case
  proof cases
    case 1
    then have "\<forall>q \<in> set ?xs. is_alive r q" using \<open>\<forall>j < i. is_alive r (rt_pipes r ! j)\<close> by (auto simp: in_set_conv_nth)
    then have "{q \<in> set ?xs. is_alive r q} = set ?xs" by blast
    then show ?thesis using 1 ok unfolding loop_post_def by (subst send_loop.simps) simp
  next
    case 2
    have "\<forall>j < i. is_alive (r\<lparr>rt_pipes := swap_pop i ?xs\<rparr>) (swap_pop i ?xs ! j)"
    proof (intro allI impI)
      fix j
      assume j: "j < i"
      then have "swap_pop i ?xs ! j = ?xs ! j" using swap_pop_split(1) [OF d 2(1)] by (metis nth_take)
      then show "is_alive (r\<lparr>rt_pipes := swap_pop i ?xs\<rparr>) (swap_pop i ?xs ! j)"
        using 1(6) j by (simp add: is_alive_def)
    qed
    then have "\<exists>r'. loop_post V m x i k (r\<lparr>rt_pipes := swap_pop i ?xs\<rparr>) r'"
      using 2(1) by (intro 1(1) [OF 2 1(3,4) prune_step_ok [OF ok 2]]) simp_all
    then show ?thesis using loop_post_dead [OF ok 2] by blast
  next
    case (3 p)
    then have sane: "pipe_sane V p" using ok by (simp add: router_ok_def)
    from pipe_Send_sane [OF 1(3) sane 1(4), of x] obtain err p' where
      snd: "pipe_Send V m x p = Some (Inr (err, p'))" "pipe_sane V p'" by blast
    have q: "?xs ! i \<in> set ?xs" using 3 by simp
    have "\<forall>j < i + 1. is_alive (r\<lparr>rt_alive := (rt_alive r)(?xs ! i := Some p')\<rparr>) (?xs ! j)"
      using 1(6) by (auto simp: is_alive_def less_Suc_eq)
    then have "\<exists>r'. loop_post V m x (i + 1) (if err then k + 1 else k) (r\<lparr>rt_alive := (rt_alive r)(?xs ! i := Some p')\<rparr>) r'"
      using 3(1) by (intro 1(2) [OF 3 snd(1) refl refl 1(3,4) send_step_ok [OF ok q snd(2)]]) simp_all
    then show ?thesis using loop_post_alive [OF d 3 snd(1)] by blast
  qed
qed

lemma send_loop_correct:
  assumes "semaphore_ok V" and "m \<noteq> Forever"
    and "router_ok V r" and "\<forall>j < i. is_alive r (rt_pipes r ! j)" and "i \<le> length (rt_pipes r)"
  shows "\<exists>r'. send_loop V m x i k r = Some (Inr (k + card {q \<in> set (drop i (rt_pipes r)). refused V m x r q}, r'))
     \<and> router_ok V r' \<and> set (rt_pipes r') = {q \<in> set (rt_pipes r). is_alive r q}
     \<and> rt_next r' = rt_next r
     \<and> (\<forall>q. q \<notin> set (drop i (rt_pipes r)) \<longrightarrow> rt_alive r' q = rt_alive r q)
     \<and> (\<forall>q \<in> set (drop i (rt_pipes r)). served V m x r r' q)"
  using send_loop_post [OF assms, of x k] unfolding loop_post_def .

section \<open>Every operation keeps the invariant\<close>

lemma router_send_loop_ok:
  assumes "semaphore_ok V" and "m \<noteq> Forever" and "router_ok V r"
  shows "\<exists>n r'. router_Send V m x r = Some (Inr (n, r')) \<and> router_ok V r'"
  using send_loop_correct [OF assms, of 0 x 0] by (auto simp: router_Send_def)

lemma router_new_ok: "router_ok V router_new"
  by (simp add: router_ok_def router_new_def)

lemma RegisterAsReceiver_ok:
  assumes "semaphore_ok V" and "router_ok V r" and "0 < cap"
  shows "router_ok V (snd (RegisterAsReceiver V cap c r))"
  using assms pipe_new_sane [OF assms(1,3)]
  by (auto simp: router_ok_def RegisterAsReceiver_def less_Suc_eq)

lemma drop_receiver_ok: "router_ok V r \<Longrightarrow> router_ok V (drop_receiver k r)"
  by (auto simp: router_ok_def drop_receiver_def)

lemma router_Shutdown_step:
  assumes "router_ok V r"
  defines "f \<equiv> \<lambda>k r'. case rt_alive r' k of None \<Rightarrow> r'
     | Some p \<Rightarrow> r'\<lparr>rt_alive := (rt_alive r')(k := Some (pipe_Shutdown V p))\<rparr>"
  shows "router_ok V (fold f ks r) \<and> rt_pipes (fold f ks r) = rt_pipes r
     \<and> is_alive (fold f ks r) = is_alive r"
  using assms(1)
proof (induction ks arbitrary: r)
  case Nil
  then show ?case by simp
next
  case (Cons k ks)
  have "router_ok V (f k r) \<and> rt_pipes (f k r) = rt_pipes r \<and> is_alive (f k r) = is_alive r"
    using Cons.prems pipe_Shutdown_sane
    by (auto simp: f_def router_ok_def is_alive_def fun_eq_iff split: option.splits)
  with Cons.IH [of "f k r"] show ?case by simp
qed

lemma router_Shutdown_ok:
  "router_ok V r \<Longrightarrow> router_ok V (router_Shutdown V r) \<and> is_alive (router_Shutdown V r) = is_alive r"
  using router_Shutdown_step [of V r "rt_pipes r"] by (simp add: router_Shutdown_def)

text \<open>A pipe the router does not know is dead, and stays dead.\<close>

lemma served_everywhere:
  assumes "router_ok V r" and "\<forall>q. q \<notin> set (rt_pipes r) \<longrightarrow> rt_alive r' q = rt_alive r q"
    and "\<forall>q \<in> set (rt_pipes r). served V m x r r' q"
  shows "served V m x r r' q"
proof (cases "q \<in> set (rt_pipes r)")
  case True
  then show ?thesis using assms(3) by simp
next
  case False
  then have "rt_alive r q = None" using assms(1) by (cases "rt_alive r q") (auto simp: router_ok_def)
  then show ?thesis using assms(2) False by (simp add: served_def)
qed

lemma router_Send_served:
  assumes "semaphore_ok V" and "m \<noteq> Forever" and "router_ok V r"
  shows "\<exists>n r'. router_Send V m x r = Some (Inr (n, r')) \<and> router_ok V r' \<and> (\<forall>q. served V m x r r' q)"
proof -
  from send_loop_correct [OF assms, of 0 x 0] obtain n r' where
    r: "send_loop V m x 0 0 r = Some (Inr (n, r'))" "router_ok V r'"
      "\<forall>q. q \<notin> set (rt_pipes r) \<longrightarrow> rt_alive r' q = rt_alive r q" "\<forall>q \<in> set (rt_pipes r). served V m x r r' q"
    by auto
  from served_everywhere [OF assms(3) r(3,4)] r(1,2) show ?thesis by (auto simp: router_Send_def)
qed

section \<open>Properties of the router\<close>

text \<open>
  C7. A send reaches every living pipe exactly once. With no caller waiting for ever, \<open>Send\<close> ends
  without a failure, has offered the pointer once to each pipe that is alive (what happens there is what
  \<open>PipeIPC::Send\<close> does), has dropped exactly the dead pipes from the router's list whatever their
  positions, and returns the number of living pipes that refused the pointer.
\<close>

theorem router_send_reaches_every_living_pipe:
  assumes "semaphore_ok V" and "m \<noteq> Forever" and "router_ok V r"
  shows "\<exists>r'. router_Send V m x r = Some (Inr (card {q \<in> set (rt_pipes r). refused V m x r q}, r'))
     \<and> router_ok V r'
     \<and> set (rt_pipes r') = {q \<in> set (rt_pipes r). is_alive r q}
     \<and> (\<forall>q. served V m x r r' q)"
proof -
  from send_loop_correct [OF assms(1-3), of 0 x 0] obtain r' where
    r: "send_loop V m x 0 0 r = Some (Inr (0 + card {q \<in> set (drop 0 (rt_pipes r)). refused V m x r q}, r'))"
      "router_ok V r'" "set (rt_pipes r') = {q \<in> set (rt_pipes r). is_alive r q}"
      "\<forall>q. q \<notin> set (drop 0 (rt_pipes r)) \<longrightarrow> rt_alive r' q = rt_alive r q"
      "\<forall>q \<in> set (drop 0 (rt_pipes r)). served V m x r r' q"
    by auto
  have "served V m x r r' q" for q using served_everywhere [OF assms(3)] r(4,5) by simp
  then have "\<forall>q. served V m x r r' q" by blast
  with r(1-3) show ?thesis by (auto simp: router_Send_def)
qed

definition example_router :: "(nat, nat) router" where
  "example_router = drop_receiver 0
     (snd (RegisterAsReceiver counter_semaphore 1 True
       (snd (RegisterAsReceiver counter_semaphore 2 True router_new))))"

lemma example_router_ok: "router_ok counter_semaphore example_router"
proof -
  have "router_ok counter_semaphore
      (snd (RegisterAsReceiver counter_semaphore 2 True (router_new :: (nat, nat) router)))"
    by (rule RegisterAsReceiver_ok [OF counter_semaphore_ok router_new_ok]) simp
  from drop_receiver_ok [OF RegisterAsReceiver_ok [OF counter_semaphore_ok this]] show ?thesis
    unfolding example_router_def by simp
qed

lemma router_send_reaches_every_living_pipe_witness:
  "\<exists>n r'. router_Send counter_semaphore Soft (Some 5) example_router = Some (Inr (n, r'))
     \<and> set (rt_pipes r') = {1}"
proof -
  have "{q \<in> set (rt_pipes example_router). is_alive example_router q} = {1}"
    by (auto simp: example_router_def drop_receiver_def RegisterAsReceiver_def router_new_def is_alive_def)
  with router_send_reaches_every_living_pipe [OF counter_semaphore_ok _ example_router_ok, of Soft "Some 5"]
  show ?thesis by auto
qed

text \<open>
  The requests of a program: receivers come and go, senders send, receivers receive, somebody shuts
  everything down. A receiver that is gone does not receive.
\<close>

datatype 'a router_op =
    Register size_t bool
  | Drop nat
  | Broadcast wait_mode "'a option"
  | Take_from nat wait_mode
  | Shut_all

fun router_do :: "'s semaphore \<Rightarrow> 'a router_op \<Rightarrow> ('s, 'a) router \<Rightarrow> ('s, 'a) router result option" where
  "router_do V (Register cap c) r = Some (Inr (snd (RegisterAsReceiver V cap c r)))"
| "router_do V (Drop k) r = Some (Inr (drop_receiver k r))"
| "router_do V (Broadcast m x) r =
     (case router_Send V m x r of
        None \<Rightarrow> None
      | Some (Inl e) \<Rightarrow> Some (Inl e)
      | Some (Inr (n, r')) \<Rightarrow> Some (Inr r'))"
| "router_do V (Take_from k m) r =
     (case rt_alive r k of
        None \<Rightarrow> Some (Inr r)
      | Some p \<Rightarrow> (case pipe_Receive V m p of
                     None \<Rightarrow> None
                   | Some (Inl e) \<Rightarrow> Some (Inl e)
                   | Some (Inr (t, x, p')) \<Rightarrow> Some (Inr (r\<lparr>rt_alive := (rt_alive r)(k := Some p')\<rparr>))))"
| "router_do V Shut_all r = Some (Inr (router_Shutdown V r))"

fun router_run :: "'s semaphore \<Rightarrow> 'a router_op list \<Rightarrow> ('s, 'a) router \<Rightarrow> ('s, 'a) router result option" where
  "router_run V [] r = Some (Inr r)"
| "router_run V (a # as) r =
     (case router_do V a r of
        None \<Rightarrow> None
      | Some (Inl e) \<Rightarrow> Some (Inl e)
      | Some (Inr r') \<Rightarrow> router_run V as r')"

fun op_ok :: "'a router_op \<Rightarrow> bool" where
  "op_ok (Register cap c) = (0 < cap)"
| "op_ok (Broadcast m x) = (m \<noteq> Forever)"
| "op_ok (Take_from k m) = (m \<noteq> Forever)"
| "op_ok _ = True"

lemma router_do_ok:
  assumes V: "semaphore_ok V" and ok: "router_ok V r" and a: "op_ok a"
  shows "\<exists>r'. router_do V a r = Some (Inr r') \<and> router_ok V r'"
proof (cases a)
  case (Register cap c)
  then show ?thesis using RegisterAsReceiver_ok [OF V ok] a by simp
next
  case (Drop k)
  then show ?thesis using drop_receiver_ok [OF ok] by simp
next
  case (Broadcast m x)
  have "m \<noteq> Forever" using a Broadcast by simp
  from router_send_loop_ok [OF V this ok, of x] show ?thesis by (auto simp: Broadcast)
next
  case (Take_from k m)
  show ?thesis
  proof (cases "rt_alive r k")
    case None
    then show ?thesis using ok by (simp add: Take_from)
  next
    case (Some p)
    then have p: "pipe_sane V p" "k \<in> set (rt_pipes r)" using ok by (simp_all add: router_ok_def)
    have "m \<noteq> Forever" using a Take_from by simp
    from pipe_Receive_sane [OF p(1) V this] obtain t x p' where
      "pipe_Receive V m p = Some (Inr (t, x, p'))" "pipe_sane V p'" by blast
    then show ?thesis using Some send_step_ok [OF ok p(2)] by (simp add: Take_from)
  qed
next
  case Shut_all
  then show ?thesis using router_Shutdown_ok [OF ok] by simp
qed

text \<open>
  Nothing the clients do breaks the router: any sequence of registering (with a capacity above 0),
  dropping, sending, receiving and shutting down, none of them waiting for ever, runs to its end without
  a failure; afterwards the router knows every living pipe exactly once, and \<open>NumReceivers\<close> counts
  exactly the living pipes.
\<close>

lemma router_never_fails:
  assumes "semaphore_ok V" and "\<forall>a \<in> set as. op_ok a"
  shows "\<exists>r'. router_run V as router_new = Some (Inr r')
     \<and> distinct (rt_pipes r')
     \<and> {k. is_alive r' k} \<subseteq> set (rt_pipes r')
     \<and> NumReceivers r' = card {k. is_alive r' k}"
proof -
  have "\<exists>r'. router_run V as r = Some (Inr r') \<and> router_ok V r'" if "router_ok V r" for r :: "('a, 'b) router"
    using that assms(2)
  proof (induction as arbitrary: r)
    case Nil
    then show ?case by simp
  next
    case (Cons a as)
    then show ?case using router_do_ok [OF assms(1) Cons.prems(1), of a] by fastforce
  qed
  from this [OF router_new_ok] obtain r' :: "('a, 'b) router" where
    r: "router_run V as router_new = Some (Inr r')" "router_ok V r'" by blast
  have d: "distinct (rt_pipes r')" using r(2) by (simp add: router_ok_def)
  have sub: "{k. is_alive r' k} \<subseteq> set (rt_pipes r')" using r(2) by (auto simp: router_ok_def is_alive_def)
  have "NumReceivers r' = card (set (filter (is_alive r') (rt_pipes r')))"
    unfolding NumReceivers_def by (rule distinct_card [OF distinct_filter [OF d], symmetric])
  also have "set (filter (is_alive r') (rt_pipes r')) = {k. is_alive r' k}" using sub by auto
  finally show ?thesis using r(1) d sub by blast
qed

lemma router_never_fails_witness:
  "\<exists>r' :: (nat, nat) router. router_run counter_semaphore
       [Register 2 True, Register 1 True, Drop 0, Broadcast Soft (Some 5), Take_from 1 Timed, Shut_all] router_new
     = Some (Inr r') \<and> NumReceivers r' = card {k. is_alive r' k}"
proof -
  have "\<forall>a \<in> set [Register 2 True, Register 1 True, Drop 0, Broadcast Soft (Some (5 :: nat)), Take_from 1 Timed, Shut_all].
      op_ok a" by simp
  from router_never_fails [OF counter_semaphore_ok this] show ?thesis by blast
qed

end
