(* ===== verification/IPC_Channel.thy ===== *)
theory IPC_Channel
  imports IPC_MemPool Router
begin

text \<open>
  The shared memory part put together (\<^verbatim>\<open>MempoolIPC/examples/Example_MemPoolIPC.cpp\<close> uses it so): a
  \<open>MemPoolIPC\<close>, a \<open>RouterIPC\<close> and its pipes, all in one segment, used by several processes. What the
  router carries are the shared pointers of the pool. Such a pointer is a strong reference, whether a process has it
  in a variable or it lies in a slot of a pipe; the last one to go gives element and control block back.
\<close>

section \<open>The pointers in a pipe\<close>

definition pipe_refs :: "('s, 'a) pipe \<Rightarrow> 'a set" where
  "pipe_refs p = {x. Some x \<in> set (items p)}"

definition queued :: "('s, 'a) router \<Rightarrow> 'a \<Rightarrow> bool" where
  "queued r x \<longleftrightarrow>
     list_ex (\<lambda>k. case rt_alive r k of None \<Rightarrow> False | Some p \<Rightarrow> Some x \<in> set (items p)) (rt_pipes r)"

definition alive_refs :: "(nat \<Rightarrow> ('s, 'a) pipe option) \<Rightarrow> 'a set" where
  "alive_refs al = {x. \<exists>k p. al k = Some p \<and> x \<in> pipe_refs p}"

lemma queued_alive_refs:
  assumes "router_ok V r"
  shows "Collect (queued r) = alive_refs (rt_alive r)"
proof -
  have "queued r x \<longleftrightarrow> (\<exists>k p. rt_alive r k = Some p \<and> x \<in> pipe_refs p)" for x
    using assms by (fastforce simp: queued_def pipe_refs_def router_ok_def list_ex_iff split: option.splits)
  then show ?thesis by (auto simp: alive_refs_def)
qed

lemma alive_refs_upd:
  "alive_refs (al(k := Some p)) \<subseteq> alive_refs al \<union> pipe_refs p"
  "alive_refs (al(k := None)) \<subseteq> alive_refs al"
  "pipe_refs p \<subseteq> alive_refs (al(k := Some p))"
  by (auto simp: alive_refs_def split: if_splits)

lemma alive_refs_old: "alive_refs al \<subseteq> alive_refs (al(k := q)) \<union> (case al k of None \<Rightarrow> {} | Some p \<Rightarrow> pipe_refs p)"
proof
  fix x
  assume "x \<in> alive_refs al"
  then obtain j p where "al j = Some p" "x \<in> pipe_refs p" by (auto simp: alive_refs_def)
  then show "x \<in> alive_refs (al(k := q)) \<union> (case al k of None \<Rightarrow> {} | Some p \<Rightarrow> pipe_refs p)"
    by (cases "j = k") (auto simp: alive_refs_def)
qed

lemma alive_refs_same:
  fixes al :: "nat \<Rightarrow> ('s, 'a) pipe option"
  assumes "(case al k of None \<Rightarrow> {} | Some p \<Rightarrow> pipe_refs p) = (case q of None \<Rightarrow> {} | Some p \<Rightarrow> pipe_refs p)"
  shows "alive_refs (al(k := q)) = alive_refs al"
proof -
  have alt: "alive_refs f = (\<Union>j. case f j of None \<Rightarrow> {} | Some p \<Rightarrow> pipe_refs p)" for f :: "nat \<Rightarrow> ('s, 'a) pipe option"
    by (fastforce simp: alive_refs_def split: option.splits)
  have "(case (al(k := q)) j of None \<Rightarrow> {} | Some p \<Rightarrow> pipe_refs p) = (case al j of None \<Rightarrow> {} | Some p \<Rightarrow> pipe_refs p)" for j
    using assms by simp
  then have "alive_refs (al(k := q)) = (\<Union>j. case al j of None \<Rightarrow> {} | Some p \<Rightarrow> pipe_refs p)"
    unfolding alt by (simp del: fun_upd_apply)
  then show ?thesis unfolding alt .
qed

lemma pipe_new_refs: "pipe_refs (pipe_new V cap) = {}"
  by (auto simp: pipe_refs_def pipe_new_def)

lemma pipe_Shutdown_refs: "pipe_refs (pipe_Shutdown V p) = pipe_refs p"
  by (simp add: pipe_refs_def pipe_Shutdown_def Let_def)

text \<open>A send overwrites an empty slot, so nothing that was in the pipe is lost.\<close>

lemma free_slot:
  assumes "ring_ok p" and "unat (pipe_size p) < pipe_capacity p"
  shows "indexPush p < length (items p)" and "items p ! indexPush p = None"
  using assms by (auto simp: ring_ok_def)

lemma pipe_refs_set:
  assumes "i < length xs" and "xs ! i = None"
  shows "{a. Some a \<in> set (xs[i := x])} = {a. Some a \<in> set xs} \<union> set_option x"
proof -
  have "a \<in> set xs \<longleftrightarrow> a \<in> set (xs[i := x])" if "a \<noteq> None" "a \<noteq> x" for a
    using assms that by (metis in_set_conv_nth length_list_update nth_list_update)
  moreover have "x \<in> set (xs[i := x])" by (rule set_update_memI [OF assms(1)])
  ultimately show ?thesis by (cases x) force+
qed

lemma pipe_Send_refs:
  assumes V: "semaphore_ok V" and p: "pipe_sane V p"
    and run: "pipe_Send V m x p = Some (Inr (err, p'))"
  shows "pipe_refs p' = (if err \<or> shutdown p then pipe_refs p else pipe_refs p \<union> set_option x)"
proof (cases "shutdown p")
  case True
  then show ?thesis using run by (simp add: pipe_Send_def)
next
  case False
  then have idle: "ring_ok p" "sem_count V (nempty p) + unat (pipe_size p) = pipe_capacity p"
    using p by (simp_all add: pipe_sane_def pipe_idle_def)
  from V show ?thesis
  proof (cases rule: sem_take_cases [of V "nempty p" m])
    case blocks
    then show ?thesis using run False by (simp add: pipe_Send_def)
  next
    case gives_up
    then show ?thesis using run False by (auto simp: pipe_Send_def pipe_refs_def)
  next
    case (takes s)
    then have "unat (pipe_size p) < pipe_capacity p" using idle(2) by simp
    note slot = free_slot [OF idle(1) this]
    have run': "\<not> err \<and> items p' = (items p)[indexPush p := x]"
      using takes run False slot(1) by (auto simp: pipe_Send_def push_item_def Let_def split: if_splits)
    then show ?thesis using False pipe_refs_set [OF slot, of x] by (simp add: pipe_refs_def)
  qed
qed

text \<open>A receive moves a pointer out of its slot, to the caller.\<close>

lemma pipe_Receive_refs:
  assumes run: "pipe_Receive V m p = Some (Inr (t, x, p'))"
  shows "pipe_refs p \<subseteq> pipe_refs p' \<union> set_option x" and "pipe_refs p' \<union> set_option x \<subseteq> pipe_refs p"
    and "t \<Longrightarrow> x = None"
proof -
  consider s where "t" "x = None" "p' = p\<lparr>nstored := s\<rparr>"
    | "\<not> t" "indexPop p < length (items p)" "x = items p ! indexPop p"
        "items p' = (items p)[indexPop p := None]"
    using run by (auto simp: pipe_Receive_def pop_item_def split: option.splits bool.splits sum.splits if_splits)
  then have "pipe_refs p \<subseteq> pipe_refs p' \<union> set_option x \<and> pipe_refs p' \<union> set_option x \<subseteq> pipe_refs p
      \<and> (t \<longrightarrow> x = None)"
  proof cases
    case 1
    then show ?thesis by (simp add: pipe_refs_def)
  next
    case 2
    have "a \<in> set (items p') \<or> a = x" if "a \<in> set (items p)" for a
      using that 2 by (auto simp: in_set_conv_nth) (metis nth_list_update_neq)
    moreover have "a \<in> set (items p)" if "a \<in> set (items p')" "a \<noteq> None" for a
      using that 2 set_update_subset_insert [of "items p" "indexPop p" None] by auto
    moreover have "x \<in> set (items p)" using 2 by simp
    ultimately show ?thesis using 2(1) by (auto simp: pipe_refs_def elem_set)
  qed
  then show "pipe_refs p \<subseteq> pipe_refs p' \<union> set_option x" and "pipe_refs p' \<union> set_option x \<subseteq> pipe_refs p"
    and "t \<Longrightarrow> x = None" by blast+
qed

section \<open>The operations of the processes\<close>

text \<open>\<open>ch_owned\<close>: the pointers in variables of processes, with repetition.\<close>

record ('h, 's) channel =
  ch_pool :: "'h mp_sys"
  ch_router :: "('s, sptr) router"
  ch_owned :: "sptr list"

definition channel_start :: "mempool \<Rightarrow> 'h \<Rightarrow> ('h, 's) channel" where
  "channel_start mp h = \<lparr>ch_pool = mp_start mp h, ch_router = router_new, ch_owned = []\<rparr>"

definition referenced :: "('h, 's) channel \<Rightarrow> sptr \<Rightarrow> bool" where
  "referenced c x \<longleftrightarrow> x \<in> set (ch_owned c) \<or> queued (ch_router c) x"

definition position :: "'a \<Rightarrow> 'a list \<Rightarrow> nat" where
  "position x xs = length (takeWhile (\<lambda>y. y \<noteq> x) xs)"

text \<open>After a reference to \<open>x\<close> is gone: the last one releases the element.\<close>

definition collect ::
  "'h segment \<Rightarrow> ipc_layout \<Rightarrow> addr \<Rightarrow> sptr \<Rightarrow> ('h, 's) channel \<Rightarrow> ('h, 's) channel result" where
  "collect S L B x c =
     (if referenced c x then Inr c
      else (case mp_step S L (Release B (position x (ms_held (ch_pool c))) False) (ch_pool c) of
              Inl e \<Rightarrow> Inl e
            | Inr y \<Rightarrow> Inr (c\<lparr>ch_pool := y\<rparr>)))"

text \<open>A list of references goes, one after the other: those still in the list keep their element alive.\<close>

fun collect_all ::
  "'h segment \<Rightarrow> ipc_layout \<Rightarrow> addr \<Rightarrow> sptr list \<Rightarrow> ('h, 's) channel \<Rightarrow> ('h, 's) channel result" where
  "collect_all S L B [] c = Inr c"
| "collect_all S L B (x # xs) c =
     (case (if x \<in> set xs then Inr c else collect S L B x c) of
        Inl e \<Rightarrow> Inl e
      | Inr c' \<Rightarrow> collect_all S L B xs c')"

text \<open>
  \<open>make_pooled\<close>, a copy of a pointer, \<open>RouterIPC::Send\<close> of a pointer (or of null), \<open>PipeIPC::Receive\<close>,
  the end of a variable, \<open>RegisterAsReceiver\<close>, the end of a receiver with its pipe, \<open>RouterIPC::Shutdown\<close>.
\<close>

datatype channel_op =
    Acquire addr bool
  | Copy nat
  | Publish wait_mode "nat option"
  | Take nat wait_mode
  | Let_go addr nat
  | Join size_t bool
  | Leave addr nat
  | Stop

definition ch_acquire ::
  "'h segment \<Rightarrow> ipc_layout \<Rightarrow> addr \<Rightarrow> bool \<Rightarrow> ('h, 's) channel \<Rightarrow> ('h, 's) channel result" where
  "ch_acquire S L B args c =
     (case mp_step S L (Make B args) (ch_pool c) of
        Inl e \<Rightarrow> Inl e
      | Inr y \<Rightarrow> Inr (c\<lparr>ch_pool := y, ch_owned := ch_owned c @ drop (length (ms_held (ch_pool c))) (ms_held y)\<rparr>))"

definition ch_publish ::
  "'s semaphore \<Rightarrow> wait_mode \<Rightarrow> sptr option \<Rightarrow> ('h, 's) channel \<Rightarrow> ('h, 's) channel result option" where
  "ch_publish V m x c =
     (case router_Send V m x (ch_router c) of
        None \<Rightarrow> None
      | Some (Inl e) \<Rightarrow> Some (Inl e)
      | Some (Inr (_, r)) \<Rightarrow> Some (Inr (c\<lparr>ch_router := r\<rparr>)))"

definition ch_take ::
  "'s semaphore \<Rightarrow> nat \<Rightarrow> wait_mode \<Rightarrow> ('h, 's) channel \<Rightarrow> (bool \<times> sptr option \<times> ('h, 's) channel) result option" where
  "ch_take V q m c =
     (case rt_alive (ch_router c) q of
        None \<Rightarrow> Some (Inr (True, None, c))
      | Some p \<Rightarrow>
          (case pipe_Receive V m p of
             None \<Rightarrow> None
           | Some (Inl e) \<Rightarrow> Some (Inl e)
           | Some (Inr (t, x, p')) \<Rightarrow>
               Some (Inr (t, x, c\<lparr>ch_router := (ch_router c)\<lparr>rt_alive := (rt_alive (ch_router c))(q := Some p')\<rparr>,
                                  ch_owned := ch_owned c @ (case x of None \<Rightarrow> [] | Some a \<Rightarrow> [a])\<rparr>))))"

definition ch_let_go ::
  "'h segment \<Rightarrow> ipc_layout \<Rightarrow> addr \<Rightarrow> sptr \<Rightarrow> ('h, 's) channel \<Rightarrow> ('h, 's) channel result" where
  "ch_let_go S L B x c = collect S L B x (c\<lparr>ch_owned := remove1 x (ch_owned c)\<rparr>)"

definition ch_leave ::
  "'h segment \<Rightarrow> ipc_layout \<Rightarrow> addr \<Rightarrow> nat \<Rightarrow> ('h, 's) channel \<Rightarrow> ('h, 's) channel result" where
  "ch_leave S L B q c =
     (case rt_alive (ch_router c) q of
        None \<Rightarrow> Inr c
      | Some p \<Rightarrow> collect_all S L B (List.map_filter (\<lambda>x. x) (items p))
                    (c\<lparr>ch_router := drop_receiver q (ch_router c)\<rparr>))"

fun channel_do ::
  "'s semaphore \<Rightarrow> 'h segment \<Rightarrow> ipc_layout \<Rightarrow> channel_op \<Rightarrow> ('h, 's) channel \<Rightarrow> ('h, 's) channel result option" where
  "channel_do V S L (Acquire B args) c = Some (ch_acquire S L B args c)"
| "channel_do V S L (Copy k) c =
     Some (Inr (if k < length (ch_owned c) then c\<lparr>ch_owned := ch_owned c @ [ch_owned c ! k]\<rparr> else c))"
| "channel_do V S L (Publish m None) c = ch_publish V m None c"
| "channel_do V S L (Publish m (Some k)) c =
     (if k < length (ch_owned c) then ch_publish V m (Some (ch_owned c ! k)) c else Some (Inr c))"
| "channel_do V S L (Take q m) c =
     (case ch_take V q m c of
        None \<Rightarrow> None
      | Some (Inl e) \<Rightarrow> Some (Inl e)
      | Some (Inr (t, x, c')) \<Rightarrow> Some (Inr c'))"
| "channel_do V S L (Let_go B k) c =
     Some (if k < length (ch_owned c) then ch_let_go S L B (ch_owned c ! k) c else Inr c)"
| "channel_do V S L (Join cap room) c =
     Some (Inr (c\<lparr>ch_router := snd (RegisterAsReceiver V cap room (ch_router c))\<rparr>))"
| "channel_do V S L (Leave B q) c = Some (ch_leave S L B q c)"
| "channel_do V S L Stop c = Some (Inr (c\<lparr>ch_router := router_Shutdown V (ch_router c)\<rparr>))"

fun channel_run ::
  "'s semaphore \<Rightarrow> 'h segment \<Rightarrow> ipc_layout \<Rightarrow> channel_op list \<Rightarrow> ('h, 's) channel \<Rightarrow> ('h, 's) channel result option" where
  "channel_run V S L [] c = Some (Inr c)"
| "channel_run V S L (a # as) c =
     (case channel_do V S L a c of
        None \<Rightarrow> None
      | Some (Inl e) \<Rightarrow> Some (Inl e)
      | Some (Inr c') \<Rightarrow> channel_run V S L as c')"

fun channel_op_ok :: "nat \<Rightarrow> channel_op \<Rightarrow> bool" where
  "channel_op_ok Z (Acquire B args) = map_ok Z B"
| "channel_op_ok Z (Publish m x) = (m \<noteq> Forever)"
| "channel_op_ok Z (Take q m) = (m \<noteq> Forever)"
| "channel_op_ok Z (Let_go B k) = map_ok Z B"
| "channel_op_ok Z (Join cap room) = (0 < cap)"
| "channel_op_ok Z (Leave B q) = map_ok Z B"
| "channel_op_ok Z _ = True"

section \<open>The invariant\<close>

text \<open>
  The pool has lent exactly the elements that are referenced, but for those in \<open>G\<close>, whose last reference has
  just gone.
\<close>

definition channel_pre ::
  "nat \<Rightarrow> 's semaphore \<Rightarrow> ipc_layout \<Rightarrow> size_t \<Rightarrow> size_t \<Rightarrow> sptr set \<Rightarrow> ('h, 's) channel \<Rightarrow> bool" where
  "channel_pre Z V L n cnt G c \<longleftrightarrow>
     mp_inv Z L n cnt (ch_pool c) \<and> ms_weak (ch_pool c) = [] \<and> router_ok V (ch_router c)
     \<and> Collect (referenced c) \<subseteq> set (ms_held (ch_pool c))
     \<and> set (ms_held (ch_pool c)) \<subseteq> Collect (referenced c) \<union> G"

abbreviation channel_ok ::
  "nat \<Rightarrow> 's semaphore \<Rightarrow> ipc_layout \<Rightarrow> size_t \<Rightarrow> size_t \<Rightarrow> ('h, 's) channel \<Rightarrow> bool" where
  "channel_ok Z V L n cnt \<equiv> channel_pre Z V L n cnt {}"

lemma referenced_refs:
  "router_ok V (ch_router c) \<Longrightarrow>
     Collect (referenced c) = set (ch_owned c) \<union> alive_refs (rt_alive (ch_router c))"
  by (auto simp: referenced_def simp flip: queued_alive_refs)

lemma referenced_pool [simp]: "referenced (c\<lparr>ch_pool := y\<rparr>) = referenced c"
  by (simp add: referenced_def fun_eq_iff)

lemma position_nth: "x \<in> set xs \<Longrightarrow> position x xs < length xs \<and> xs ! position x xs = x"
  by (induction xs) (auto simp: position_def)

lemma position_none: "x \<notin> set xs \<Longrightarrow> position x xs = length xs"
  by (induction xs) (auto simp: position_def)

lemma mp_release_set:
  assumes inv: "mp_inv Z L n cnt y" and B: "map_ok Z B" and w: "ms_weak y = []" and x: "x \<in> set (ms_held y)"
  shows "\<exists>y'. mp_step S L (Release B (position x (ms_held y)) False) y = Inr y' \<and> mp_inv Z L n cnt y'
       \<and> ms_weak y' = [] \<and> set (ms_held y') = set (ms_held y) - {x}"
proof -
  let ?k = "position x (ms_held y)"
  have k: "?k < length (ms_held y)" "ms_held y ! ?k = x" using position_nth [OF x] by simp_all
  have d: "distinct (ms_held y)" using inv by (auto simp: mp_inv_def distinct_map)
  have "map_ok Z (op_base (Release B ?k False))" using B by simp
  from mp_step_inv [OF inv this, of S] obtain y' where
    y': "mp_step S L (Release B ?k False) y = Inr y'" "mp_inv Z L n cnt y'" by auto
  then have "ms_held y' = drop_nth ?k (ms_held y)" using k(1) by (auto simp: Let_def split: sum.splits)
  then have "set (ms_held y') = set (ms_held y) - {x}" using set_drop_nth [OF d k(1)] k(2) by simp
  moreover have "ms_weak y' = []" using mp_step_no_weak [OF w _ y'(1)] by simp
  ultimately show ?thesis using y' by blast
qed

lemma collect_good:
  assumes pre: "channel_pre Z V L n cnt (insert x G) c" and B: "map_ok Z B"
  shows "\<exists>c'. collect S L B x c = Inr c' \<and> channel_pre Z V L n cnt G c'"
proof (cases "referenced c x \<or> x \<notin> set (ms_held (ch_pool c))")
  case True
  then have "collect S L B x c = Inr c"
    by (auto simp: collect_def position_none)
  then show ?thesis using pre True by (auto simp: channel_pre_def)
next
  case False
  then have x: "x \<in> set (ms_held (ch_pool c))" by simp
  have inv: "mp_inv Z L n cnt (ch_pool c)" "ms_weak (ch_pool c) = []" using pre by (simp_all add: channel_pre_def)
  from mp_release_set [OF inv(1) B inv(2) x, of S] obtain y' where
    y': "mp_step S L (Release B (position x (ms_held (ch_pool c))) False) (ch_pool c) = Inr y'"
      "mp_inv Z L n cnt y'" "ms_weak y' = []" "set (ms_held y') = set (ms_held (ch_pool c)) - {x}" by blast
  then have "collect S L B x c = Inr (c\<lparr>ch_pool := y'\<rparr>)" using False by (simp add: collect_def)
  moreover have "channel_pre Z V L n cnt G (c\<lparr>ch_pool := y'\<rparr>)"
    using pre y'(2-4) False by (auto simp: channel_pre_def)
  ultimately show ?thesis by blast
qed

lemma channel_pre_mono: "channel_pre Z V L n cnt G c \<Longrightarrow> G \<subseteq> H \<Longrightarrow> channel_pre Z V L n cnt H c"
  by (auto simp: channel_pre_def)

lemma collect_all_good:
  assumes "channel_pre Z V L n cnt (set xs) c" and "map_ok Z B"
  shows "\<exists>c'. collect_all S L B xs c = Inr c' \<and> channel_ok Z V L n cnt c'"
  using assms(1)
proof (induction xs arbitrary: c)
  case Nil
  then show ?case by simp
next
  case (Cons x xs)
  have "\<exists>c'. (if x \<in> set xs then Inr c else collect S L B x c) = Inr c' \<and> channel_pre Z V L n cnt (set xs) c'"
    using collect_good [of Z V L n cnt x "set xs" c B S] Cons.prems assms(2) by (auto simp: insert_absorb)
  then show ?case using Cons.IH by fastforce
qed

section \<open>Every operation keeps it\<close>

lemma channel_okE:
  assumes "channel_ok Z V L n cnt c"
  obtains "mp_inv Z L n cnt (ch_pool c)" "ms_weak (ch_pool c) = []" "router_ok V (ch_router c)"
    "set (ms_held (ch_pool c)) = set (ch_owned c) \<union> alive_refs (rt_alive (ch_router c))"
proof -
  have c: "mp_inv Z L n cnt (ch_pool c)" "ms_weak (ch_pool c) = []" "router_ok V (ch_router c)"
    "set (ms_held (ch_pool c)) = Collect (referenced c)"
    using assms by (auto simp: channel_pre_def)
  from that [OF c(1-3)] c(4) referenced_refs [OF c(3)] show thesis by simp
qed

text \<open>What has changed the references only has to say which.\<close>

lemma channel_preI:
  assumes "channel_ok Z V L n cnt c" and "ch_pool c' = ch_pool c" and "router_ok V (ch_router c')"
    and "set (ch_owned c') \<union> alive_refs (rt_alive (ch_router c'))
      \<subseteq> set (ch_owned c) \<union> alive_refs (rt_alive (ch_router c))"
    and "set (ch_owned c) \<union> alive_refs (rt_alive (ch_router c))
      \<subseteq> set (ch_owned c') \<union> alive_refs (rt_alive (ch_router c')) \<union> G"
  shows "channel_pre Z V L n cnt G c'"
  using assms(1)
proof (rule channel_okE)
  assume "mp_inv Z L n cnt (ch_pool c)" "ms_weak (ch_pool c) = []"
    "set (ms_held (ch_pool c)) = set (ch_owned c) \<union> alive_refs (rt_alive (ch_router c))"
  then show ?thesis using assms(2-5) unfolding channel_pre_def referenced_refs [OF assms(3)] by simp
qed

lemma channel_start_ok:
  fixes V :: "'s semaphore" and S :: "'h segment"
  assumes "segment_ok Z S" and "mp_fits L n cnt" and "MemPoolIPC_new S L B n cnt h = Inr (mp, h')"
  shows "channel_ok Z V L n cnt (channel_start mp h')"
proof -
  let ?c = "channel_start mp h' :: ('h, 's) channel"
  have "referenced ?c = (\<lambda>_. False)"
    by (simp add: fun_eq_iff referenced_def channel_start_def queued_def router_new_def)
  moreover have "ch_pool ?c = mp_start mp h'" "ch_router ?c = router_new"
    "ms_weak (mp_start mp h') = []" "ms_held (mp_start mp h') = []"
    by (simp_all add: channel_start_def mp_start_def)
  ultimately show ?thesis
    using mp_start_inv [OF assms] router_new_ok [of V] by (simp add: channel_pre_def)
qed

text \<open>A fresh element, or none.\<close>

lemma ch_acquire_good:
  assumes ok: "channel_ok Z V L n cnt c" and B: "map_ok Z B"
  shows "\<exists>c'. ch_acquire S L B args c = Inr c' \<and> channel_ok Z V L n cnt c' \<and> ch_router c' = ch_router c
     \<and> (if length (ms_held (ch_pool c)) < unat n
        then \<exists>x. ch_owned c' = ch_owned c @ [x] \<and> \<not> referenced c x else c' = c)"
  using ok
proof (rule channel_okE)
  let ?y = "ch_pool c"
  assume inv: "mp_inv Z L n cnt ?y" and w: "ms_weak ?y = []" and r: "router_ok V (ch_router c)"
    and held: "set (ms_held ?y) = set (ch_owned c) \<union> alive_refs (rt_alive (ch_router c))"
  show ?thesis
  proof (cases "length (ms_held ?y) < unat n")
    case True
    then have "length (ms_held ?y) + length (ms_weak ?y) < unat n" using w by simp
    from make_pooled_cases(3) [OF inv B this, of S args "ms_heap ?y"] obtain x ml where
      mk: "make_pooled S L B args (ms_pool ?y) (ms_heap ?y) = Inr (Some x, ml, ms_heap ?y)" by blast
    let ?y' = "?y\<lparr>ms_pool := ml, ms_held := ms_held ?y @ [x]\<rparr>"
    have step: "mp_step S L (Make B args) ?y = Inr ?y'" using mk by simp
    moreover have "map_ok Z (op_base (Make B args))" using B by simp
    ultimately have inv': "mp_inv Z L n cnt ?y'" using mp_step_inv [OF inv, of "Make B args" S] by auto
    let ?c = "c\<lparr>ch_pool := ?y', ch_owned := ch_owned c @ [x]\<rparr>"
    have new: "x \<notin> set (ms_held ?y)" using inv' by (auto simp: mp_inv_def)
    then have "\<not> referenced c x" using held referenced_refs [OF r] by auto
    moreover have "Collect (referenced ?c) = set (ms_held ?y')"
      using held r by (subst referenced_refs) auto
    then have "channel_ok Z V L n cnt ?c"
      using inv' w r by (simp add: channel_pre_def)
    moreover have "ch_acquire S L B args c = Inr ?c" using step by (simp add: ch_acquire_def)
    ultimately show ?thesis using True by (intro exI [of _ ?c]) simp
  next
    case False
    then have "length (ms_held ?y) = unat n" using mp_inv_cards(3) [OF inv] by simp
    from make_pooled_cases(2) [OF inv B this, of S args "ms_heap ?y"]
    have "mp_step S L (Make B args) ?y = Inr ?y" by simp
    then have "ch_acquire S L B args c = Inr c" by (simp add: ch_acquire_def)
    then show ?thesis using ok False by simp
  qed
qed

lemma ch_let_go_good:
  assumes ok: "channel_ok Z V L n cnt c" and B: "map_ok Z B" and x: "x \<in> set (ch_owned c)"
  shows "\<exists>c'. ch_let_go S L B x c = Inr c' \<and> channel_ok Z V L n cnt c'
     \<and> ch_router c' = ch_router c \<and> ch_owned c' = remove1 x (ch_owned c)"
proof -
  let ?c = "c\<lparr>ch_owned := remove1 x (ch_owned c)\<rparr>"
  have r: "router_ok V (ch_router c)" using ok by (rule channel_okE)
  have "set (remove1 x (ch_owned c)) \<subseteq> set (ch_owned c)" by (rule set_remove1_subset)
  moreover have "a \<in> set (remove1 x (ch_owned c))" if "a \<in> set (ch_owned c)" "a \<noteq> x" for a
    using that by (simp add: in_set_remove1)
  ultimately have "channel_pre Z V L n cnt {x} ?c"
    using r by (intro channel_preI [OF ok]) (simp, simp, simp, blast, auto)
  from collect_good [of _ _ _ _ _ x "{}", OF this B, of S] obtain c' where
    c': "collect S L B x ?c = Inr c'" "channel_ok Z V L n cnt c'" by blast
  then have "ch_router c' = ch_router ?c \<and> ch_owned c' = ch_owned ?c"
    by (auto simp: collect_def split: if_splits sum.splits)
  then show ?thesis using c' by (simp add: ch_let_go_def)
qed

lemma collect_all_same:
  "collect_all S L B xs c = Inr c' \<Longrightarrow> ch_owned c' = ch_owned c \<and> ch_router c' = ch_router c"
proof (induction xs arbitrary: c)
  case Nil
  then show ?case by simp
next
  case (Cons x xs)
  then obtain c1 where c1: "(if x \<in> set xs then Inr c else collect S L B x c) = Inr c1"
    "collect_all S L B xs c1 = Inr c'" by (auto split: sum.splits)
  from c1(1) have "ch_owned c1 = ch_owned c \<and> ch_router c1 = ch_router c"
    by (auto simp: collect_def split: if_splits sum.splits)
  then show ?case using Cons.IH [OF c1(2)] by simp
qed

lemma ch_leave_good:
  assumes ok: "channel_ok Z V L n cnt c" and B: "map_ok Z B"
  shows "\<exists>c'. ch_leave S L B q c = Inr c' \<and> channel_ok Z V L n cnt c'
     \<and> ch_owned c' = ch_owned c \<and> ch_router c' = drop_receiver q (ch_router c)"
proof (cases "rt_alive (ch_router c) q")
  case None
  then have "drop_receiver q (ch_router c) = ch_router c" by (simp add: drop_receiver_def fun_upd_idem)
  then show ?thesis using None ok by (simp add: ch_leave_def)
next
  case (Some p)
  let ?r = "drop_receiver q (ch_router c)"
  have r: "router_ok V (ch_router c)" using ok by (rule channel_okE)
  have gone: "set (List.map_filter (\<lambda>x. x) (items p)) = pipe_refs p"
    by (force simp: pipe_refs_def List.map_filter_def image_iff)
  have "alive_refs (rt_alive (ch_router c)) \<subseteq> alive_refs (rt_alive ?r) \<union> pipe_refs p"
    using alive_refs_old [of "rt_alive (ch_router c)" q None] Some by (simp add: drop_receiver_def)
  moreover have "alive_refs (rt_alive ?r) \<subseteq> alive_refs (rt_alive (ch_router c))"
    using alive_refs_upd(2) by (simp add: drop_receiver_def)
  ultimately have "channel_pre Z V L n cnt (set (List.map_filter (\<lambda>x. x) (items p))) (c\<lparr>ch_router := ?r\<rparr>)"
    unfolding gone using drop_receiver_ok [OF r] by (intro channel_preI [OF ok]) auto
  from collect_all_good [OF this B, of S] obtain c' where
    c': "collect_all S L B (List.map_filter (\<lambda>x. x) (items p)) (c\<lparr>ch_router := ?r\<rparr>) = Inr c'"
      "channel_ok Z V L n cnt c'" by blast
  then show ?thesis using Some collect_all_same [OF c'(1)] by (simp add: ch_leave_def)
qed

lemma ch_publish_good:
  assumes V: "semaphore_ok V" and ok: "channel_ok Z V L n cnt c" and m: "m \<noteq> Forever"
    and x: "set_option x \<subseteq> set (ch_owned c)"
  shows "\<exists>c'. ch_publish V m x c = Some (Inr c') \<and> channel_ok Z V L n cnt c' \<and> ch_owned c' = ch_owned c
     \<and> (\<forall>q. served V m x (ch_router c) (ch_router c') q)"
proof -
  have r: "router_ok V (ch_router c)" using ok by (rule channel_okE)
  from router_Send_served [OF V m r, of x] obtain k r' where
    r': "router_Send V m x (ch_router c) = Some (Inr (k, r'))" "router_ok V r'"
      "\<forall>q. served V m x (ch_router c) r' q" by blast
  have "alive_refs (rt_alive r') \<subseteq> set (ch_owned c) \<union> alive_refs (rt_alive (ch_router c))"
  proof
    fix a
    assume "a \<in> alive_refs (rt_alive r')"
    then obtain q p' where q: "rt_alive r' q = Some p'" "a \<in> pipe_refs p'" by (auto simp: alive_refs_def)
    from r'(3) q(1) obtain p err where p: "rt_alive (ch_router c) q = Some p"
      "pipe_Send V m x p = Some (Inr (err, p'))" by (auto simp: served_def split: option.splits dest!: spec [of _ q])
    have "pipe_sane V p" using r p(1) by (simp add: router_ok_def)
    from pipe_Send_refs [OF V this p(2)] q(2) have "a \<in> pipe_refs p \<union> set_option x" by (auto split: if_splits)
    then show "a \<in> set (ch_owned c) \<union> alive_refs (rt_alive (ch_router c))"
      using p(1) x by (auto simp: alive_refs_def)
  qed
  moreover have "alive_refs (rt_alive (ch_router c)) \<subseteq> alive_refs (rt_alive r')"
  proof
    fix a
    assume "a \<in> alive_refs (rt_alive (ch_router c))"
    then obtain q p where q: "rt_alive (ch_router c) q = Some p" "a \<in> pipe_refs p" by (auto simp: alive_refs_def)
    from r'(3) q(1) obtain p' err where p': "rt_alive r' q = Some p'"
      "pipe_Send V m x p = Some (Inr (err, p'))" by (auto simp: served_def dest!: spec [of _ q])
    have "pipe_sane V p" using r q(1) by (simp add: router_ok_def)
    from pipe_Send_refs [OF V this p'(2)] q(2) have "a \<in> pipe_refs p'" by simp
    then show "a \<in> alive_refs (rt_alive r')" using p'(1) by (auto simp: alive_refs_def)
  qed
  ultimately have "channel_ok Z V L n cnt (c\<lparr>ch_router := r'\<rparr>)"
    using r'(2) by (intro channel_preI [OF ok]) auto
  then show ?thesis using r'(1,3) by (simp add: ch_publish_def)
qed

lemma ch_take_good:
  assumes V: "semaphore_ok V" and ok: "channel_ok Z V L n cnt c" and m: "m \<noteq> Forever"
  shows "\<exists>t x c'. ch_take V q m c = Some (Inr (t, x, c')) \<and> channel_ok Z V L n cnt c'
     \<and> ch_owned c' = ch_owned c @ (case x of None \<Rightarrow> [] | Some a \<Rightarrow> [a])"
proof (cases "rt_alive (ch_router c) q")
  case None
  then have "ch_take V q m c = Some (Inr (True, None, c))" by (simp add: ch_take_def)
  then show ?thesis using ok by fastforce
next
  case (Some p)
  let ?al = "rt_alive (ch_router c)"
  have r: "router_ok V (ch_router c)" using ok by (rule channel_okE)
  then have p: "pipe_sane V p" "q \<in> set (rt_pipes (ch_router c))" using Some by (simp_all add: router_ok_def)
  from pipe_Receive_sane [OF p(1) V m] obtain t x p' where
    run: "pipe_Receive V m p = Some (Inr (t, x, p'))" "pipe_sane V p'" by blast
  note refs = pipe_Receive_refs [OF run(1)]
  let ?o = "case x of None \<Rightarrow> [] | Some a \<Rightarrow> [a]"
  let ?c = "c\<lparr>ch_router := (ch_router c)\<lparr>rt_alive := ?al(q := Some p')\<rparr>, ch_owned := ch_owned c @ ?o\<rparr>"
  have o: "set ?o = set_option x" by (cases x) simp_all
  have "pipe_refs p \<subseteq> alive_refs ?al" using Some by (auto simp: alive_refs_def)
  moreover have "alive_refs (?al(q := Some p')) \<subseteq> alive_refs ?al \<union> pipe_refs p'" by (rule alive_refs_upd)
  ultimately have "set_option x \<union> alive_refs (?al(q := Some p')) \<subseteq> alive_refs ?al"
    using refs(2) by blast
  moreover have "alive_refs ?al \<subseteq> set_option x \<union> alive_refs (?al(q := Some p'))"
    using alive_refs_old [of ?al q "Some p'"] alive_refs_upd(3) [of p' ?al q] refs(1) Some by auto
  ultimately have "channel_ok Z V L n cnt ?c"
    using send_step_ok [OF r p(2) run(2)] by (intro channel_preI [OF ok]) (simp_all add: o, blast+)
  then show ?thesis using Some run(1) by (simp add: ch_take_def)
qed

lemma ch_join_good:
  assumes V: "semaphore_ok V" and ok: "channel_ok Z V L n cnt c" and cap: "0 < cap"
  shows "channel_ok Z V L n cnt (c\<lparr>ch_router := snd (RegisterAsReceiver V cap room (ch_router c))\<rparr>)"
proof -
  let ?r = "snd (RegisterAsReceiver V cap room (ch_router c))"
  have r: "router_ok V (ch_router c)" using ok by (rule channel_okE)
  have "rt_alive (ch_router c) (rt_next (ch_router c)) = None"
    using r by (cases "rt_alive (ch_router c) (rt_next (ch_router c))") (auto simp: router_ok_def)
  then have "alive_refs (rt_alive ?r) = alive_refs (rt_alive (ch_router c))"
    by (simp add: RegisterAsReceiver_def alive_refs_same pipe_new_refs)
  then show ?thesis using RegisterAsReceiver_ok [OF V r cap] by (intro channel_preI [OF ok]) auto
qed

lemma router_Shutdown_refs: "alive_refs (rt_alive (router_Shutdown V r)) = alive_refs (rt_alive r)"
proof -
  have "alive_refs (rt_alive (fold (\<lambda>k r'. case rt_alive r' k of None \<Rightarrow> r'
      | Some p \<Rightarrow> r'\<lparr>rt_alive := (rt_alive r')(k := Some (pipe_Shutdown V p))\<rparr>) ks r)) = alive_refs (rt_alive r)" for ks
  proof (induction ks arbitrary: r)
    case Nil
    then show ?case by simp
  next
    case (Cons k ks)
    have "alive_refs ((rt_alive r)(k := Some (pipe_Shutdown V p))) = alive_refs (rt_alive r)"
      if "rt_alive r k = Some p" for p
      using that by (simp add: alive_refs_same pipe_Shutdown_refs)
    then show ?case using Cons.IH by (simp del: fun_upd_apply split: option.splits)
  qed
  then show ?thesis by (simp add: router_Shutdown_def)
qed

lemma ch_stop_good:
  assumes ok: "channel_ok Z V L n cnt c"
  shows "channel_ok Z V L n cnt (c\<lparr>ch_router := router_Shutdown V (ch_router c)\<rparr>)"
proof (rule channel_preI [OF ok])
  have "router_ok V (ch_router c)" using ok by (rule channel_okE)
  from router_Shutdown_ok [OF this]
  show "router_ok V (ch_router (c\<lparr>ch_router := router_Shutdown V (ch_router c)\<rparr>))" by simp
qed (simp_all add: router_Shutdown_refs)

lemma channel_do_good:
  assumes V: "semaphore_ok V" and ok: "channel_ok Z V L n cnt c" and a: "channel_op_ok Z a"
  shows "\<exists>c'. channel_do V S L a c = Some (Inr c') \<and> channel_ok Z V L n cnt c'"
proof (cases "(V, S, L, a, c)" rule: channel_do.cases)
  case (1 V S L B args c)
  then show ?thesis using ch_acquire_good [OF ok, of B S args] a by auto
next
  case (2 V S L k c)
  have r: "router_ok V (ch_router c)" using ok 2 by (auto elim: channel_okE)
  have "channel_ok Z V L n cnt (c\<lparr>ch_owned := ch_owned c @ [ch_owned c ! k]\<rparr>)" if "k < length (ch_owned c)"
  proof (rule channel_preI [of Z V L n cnt c])
    show "channel_ok Z V L n cnt c" using ok 2 by simp
    have "set (ch_owned c @ [ch_owned c ! k]) = set (ch_owned c)" using that by (simp add: insert_absorb)
    then show "set (ch_owned (c\<lparr>ch_owned := ch_owned c @ [ch_owned c ! k]\<rparr>))
        \<union> alive_refs (rt_alive (ch_router (c\<lparr>ch_owned := ch_owned c @ [ch_owned c ! k]\<rparr>)))
      \<subseteq> set (ch_owned c) \<union> alive_refs (rt_alive (ch_router c))" by simp
  qed (auto simp: r)
  then show ?thesis using ok 2 by auto
next
  case (3 V S L m c)
  then show ?thesis using ch_publish_good [OF V ok, of m None] a by auto
next
  case (4 V S L m k c)
  then show ?thesis using ch_publish_good [OF V ok, of m "Some (ch_owned c ! k)"] ok a by auto
next
  case (5 V S L q m c)
  then show ?thesis using ch_take_good [OF V ok, of m q] a by auto
next
  case (6 V S L B k c)
  then show ?thesis using ch_let_go_good [OF ok, of B "ch_owned c ! k" S] ok a by auto
next
  case (7 V S L cap room c)
  then show ?thesis using ch_join_good [OF V ok, of cap room] a by simp
next
  case (8 V S L B q c)
  then show ?thesis using ch_leave_good [OF ok, of B S q] a by auto
next
  case (9 V S L c)
  then show ?thesis using ch_stop_good [OF ok] by simp
qed

lemma channel_run_good:
  assumes "semaphore_ok V" and "channel_ok Z V L n cnt c" and "\<forall>a \<in> set ops. channel_op_ok Z a"
  shows "\<exists>c'. channel_run V S L ops c = Some (Inr c') \<and> channel_ok Z V L n cnt c'"
  using assms(2,3)
proof (induction ops arbitrary: c)
  case Nil
  then show ?case by simp
next
  case (Cons a as)
  have "channel_op_ok Z a" "\<forall>b \<in> set as. channel_op_ok Z b" using Cons.prems(2) by simp_all
  from channel_do_good [OF assms(1) Cons.prems(1) this(1), of S] obtain c1 where
    c1: "channel_do V S L a c = Some (Inr c1)" "channel_ok Z V L n cnt c1" by blast
  from Cons.IH [OF c1(2) \<open>\<forall>b \<in> set as. channel_op_ok Z b\<close>] c1(1) show ?case by simp
qed

section \<open>Properties of the channel\<close>

lemma channel_statistics:
  assumes "channel_ok Z V L n cnt c"
  shows "length (ms_held (ch_pool c)) = card (Collect (referenced c))"
    and "mp_Statistics (fst (ms_pool (ch_pool c)))
      = (card (Collect (referenced c)), unat n - card (Collect (referenced c)))"
    and "live (snd (ms_pool (ch_pool c))) = Some (\<Union>x \<in> Collect (referenced c). element_objects (il_elem L) cnt (fst x))"
proof -
  let ?y = "ch_pool c"
  have inv: "mp_inv Z L n cnt ?y" "ms_weak ?y = []" "set (ms_held ?y) = Collect (referenced c)"
    using assms by (auto simp: channel_pre_def)
  then have "distinct (ms_held ?y)" by (auto simp: mp_inv_def distinct_map)
  from distinct_card [OF this] inv(3) show len: "length (ms_held ?y) = card (Collect (referenced c))" by simp
  from mp_inv_statistics [OF inv(1)] inv(2) len
  show "mp_Statistics (fst (ms_pool ?y)) = (card (Collect (referenced c)), unat n - card (Collect (referenced c)))"
    by simp
  show "live (snd (ms_pool ?y)) = Some (\<Union>x \<in> Collect (referenced c). element_objects (il_elem L) cnt (fst x))"
    using inv(1)
  proof (rule mp_invE)
    fix mp lg
    assume ml: "ms_pool ?y = (mp, lg)" "mp_countPerElement mp = cnt"
      and "mp_good Z L (set (map fst (ms_held ?y))) (set (map snd (ms_held ?y) @ ms_weak ?y)) (mp, lg)"
    then have "live lg = Some (\<Union>p \<in> set (map fst (ms_held ?y)). element_objects (il_elem L) cnt p)"
      by (auto elim: mp_goodE)
    then show ?thesis using ml(1) inv(3) by simp
  qed
qed



text \<open>The places in the living pipes.\<close>

definition room :: "('s, 'a) router \<Rightarrow> nat" where
  "room r = (\<Sum>k \<in> dom (rt_alive r). pipe_capacity (the (rt_alive r k)))"

lemma pipe_refs_card:
  assumes "pipe_sane V p"
  shows "finite (pipe_refs p)" and "card (pipe_refs p) \<le> pipe_capacity p"
proof -
  have eq: "pipe_refs p = the ` (set (items p) - {None})"
    by (force simp: pipe_refs_def image_iff)
  then show "finite (pipe_refs p)" by simp
  have "card (pipe_refs p) \<le> card (set (items p) - {None})" unfolding eq by (rule card_image_le) simp
  also have "\<dots> \<le> card (set (items p))" by (rule card_mono) auto
  also have "\<dots> \<le> length (items p)" by (rule card_length)
  finally show "card (pipe_refs p) \<le> pipe_capacity p" using assms by (simp add: pipe_sane_def)
qed

lemma queued_room:
  assumes "router_ok V r"
  shows "finite (alive_refs (rt_alive r))" and "card (alive_refs (rt_alive r)) \<le> room r"
proof -
  have dom: "dom (rt_alive r) \<subseteq> set (rt_pipes r)" using assms by (auto simp: router_ok_def)
  then have fin: "finite (dom (rt_alive r))" by (rule finite_subset) simp
  have eq: "alive_refs (rt_alive r) = (\<Union>k \<in> dom (rt_alive r). pipe_refs (the (rt_alive r k)))"
    by (force simp: alive_refs_def dom_def)
  have sane: "pipe_sane V (the (rt_alive r k))" if "k \<in> dom (rt_alive r)" for k
    using that assms by (auto simp: router_ok_def)
  show "finite (alive_refs (rt_alive r))"
    unfolding eq using fin sane pipe_refs_card(1) by blast
  have "card (alive_refs (rt_alive r)) \<le> (\<Sum>k \<in> dom (rt_alive r). card (pipe_refs (the (rt_alive r k))))"
    unfolding eq by (rule card_UN_le [OF fin])
  also have "\<dots> \<le> room r"
    unfolding room_def by (rule sum_mono) (rule pipe_refs_card(2) [OF sane])
  finally show "card (alive_refs (rt_alive r)) \<le> room r" .
qed

lemma referenced_card:
  assumes "channel_ok Z V L n cnt c"
  shows "card (Collect (referenced c)) \<le> length (ch_owned c) + room (ch_router c)"
proof -
  have r: "router_ok V (ch_router c)" using assms by (rule channel_okE)
  have "card (Collect (referenced c)) \<le> card (set (ch_owned c)) + card (alive_refs (rt_alive (ch_router c)))"
    unfolding referenced_refs [OF r] by (rule card_Un_le)
  also have "\<dots> \<le> length (ch_owned c) + room (ch_router c)"
    using queued_room(2) [OF r] card_length [of "ch_owned c"] by linarith
  finally show ?thesis .
qed

lemma ch_acquire_room:
  assumes "channel_ok Z V L n cnt c" and "map_ok Z B" and "length (ch_owned c) + room (ch_router c) < unat n"
  shows "\<exists>c' x. ch_acquire S L B args c = Inr c' \<and> ch_owned c' = ch_owned c @ [x] \<and> \<not> referenced c x
     \<and> channel_ok Z V L n cnt c' \<and> ch_router c' = ch_router c"
proof -
  have "length (ms_held (ch_pool c)) < unat n"
    using referenced_card [OF assms(1)] channel_statistics(1) [OF assms(1)] assms(3) by simp
  with ch_acquire_good [OF assms(1,2), of S args] show ?thesis by auto
qed

text \<open>
  C25. How large a pool has to be: if it has more elements than the processes hold pointers and the living pipes have
  places, \<open>make_pooled\<close> does not return null, whatever happened before, but an element nobody refers to. (Null is
  what a caller has to expect otherwise, and not an exception.)
\<close>

theorem channel_never_exhausted:
  assumes "segment_ok Z S" and "semaphore_ok V" and "mp_fits L n cnt"
    and "MemPoolIPC_new S L B n cnt h = Inr (mp, h')" and "\<forall>a \<in> set ops. channel_op_ok Z a"
    and "channel_run V S L ops (channel_start mp h') = Some (Inr c)"
    and "length (ch_owned c) + room (ch_router c) < unat n" and "map_ok Z B'"
  shows "\<exists>c' x. ch_acquire S L B' args c = Inr c' \<and> ch_owned c' = ch_owned c @ [x] \<and> \<not> referenced c x"
proof -
  from channel_run_good [OF assms(2) channel_start_ok [OF assms(1,3,4)] assms(5), of S] assms(6)
  have "channel_ok Z V L n cnt c" by auto
  from ch_acquire_room [OF this assms(8,7)] show ?thesis by blast
qed

lemma channel_never_exhausted_witness:
  "\<exists>mp h' c c' x. channel_run counter_semaphore bump_segment example_ipc_layout [Join 1 True]
       (channel_start mp h') = Some (Inr c)
     \<and> ch_acquire bump_segment example_ipc_layout 65536 True c = Inr c' \<and> ch_owned c' = ch_owned c @ [x]"
proof -
  from example_mempool obtain mp h' where
    mp: "MemPoolIPC_new bump_segment example_ipc_layout 65536 2 3 64 = Inr (mp, h')" by blast
  let ?c = "channel_start mp h'\<lparr>ch_router := snd (RegisterAsReceiver counter_semaphore 1 True router_new)\<rparr>"
  have ops: "\<forall>a \<in> set [Join 1 True]. channel_op_ok 4096 a" by simp
  have run: "channel_run counter_semaphore bump_segment example_ipc_layout [Join 1 True] (channel_start mp h') = Some (Inr ?c)"
    by (simp add: channel_start_def)
  have "dom (rt_alive (ch_router ?c)) = {0}"
    by (auto simp: RegisterAsReceiver_def router_new_def split: if_splits)
  then have "room (ch_router ?c) = 1"
    by (simp add: room_def RegisterAsReceiver_def router_new_def pipe_new_def)
  then have "length (ch_owned ?c) + room (ch_router ?c) < unat (2 :: size_t)" by (simp add: channel_start_def)
  moreover have "map_ok 4096 65536" by (simp add: map_ok_def)
  ultimately show ?thesis
    using channel_never_exhausted [OF bump_segment_ok counter_semaphore_ok example_mempool_fits mp ops run] run by blast
qed

end
