(* ===== verification/IPC_Example.thy ===== *)
theory IPC_Example
  imports IPC_Channel
begin

text \<open>
  \<^verbatim>\<open>MempoolIPC/examples/Example_MemPoolIPC.cpp\<close>: a parent process sends elements of a pool through a router,
  a child process receives them from its pipe. The two run side by side: a step of either is one call of the shared
  objects, and every interleaving of the steps is considered. A timed wait that succeeds late is a step that is taken late.
\<close>

section \<open>The two processes\<close>

text \<open>The points between the calls; \<open>i\<close> is the loop counter, \<open>q\<close> the pipe.\<close>

datatype parent_pc = P_wait nat | P_make nat | P_send nat sptr | P_drop nat sptr | P_done

datatype child_pc = C_start | C_loop nat bool | C_drop nat sptr | C_done

fun parent_step ::
  "'s semaphore \<Rightarrow> 'h segment \<Rightarrow> ipc_layout \<Rightarrow> size_t \<Rightarrow> addr \<Rightarrow> parent_pc \<Rightarrow> ('h, 's) channel
   \<Rightarrow> (parent_pc \<times> ('h, 's) channel) result option" where
  "parent_step V S L poolSize B (P_wait i) c =
     Some (Inr (if i < 5 \<and> NumReceivers (ch_router c) = 0 then P_wait (i + 1) else P_make 0, c))"
| "parent_step V S L poolSize B (P_make i) c =
     (if i < unat (poolSize * 2)
      then (case ch_acquire S L B False c of
              Inl e \<Rightarrow> Some (Inl e)
            | Inr c' \<Rightarrow>
                if length (ch_owned c') = length (ch_owned c) then Some (Inl Null_deref)
                else Some (Inr (P_send i (last (ch_owned c')), c')))
      else Some (Inr (P_done, c\<lparr>ch_router := router_Shutdown V (ch_router c)\<rparr>)))"
| "parent_step V S L poolSize B (P_send i x) c =
     (case ch_publish V Timed (Some x) c of
        None \<Rightarrow> None
      | Some (Inl e) \<Rightarrow> Some (Inl e)
      | Some (Inr c') \<Rightarrow> Some (Inr (P_drop i x, c')))"
| "parent_step V S L poolSize B (P_drop i x) c =
     (case ch_let_go S L B x c of
        Inl e \<Rightarrow> Some (Inl e)
      | Inr c' \<Rightarrow> Some (Inr (P_make (i + 1), c')))"
| "parent_step V S L poolSize B P_done c = Some (Inr (P_done, c))"

text \<open>\<open>room\<close>: whether the segment has room for the pipe. At its end the child lets go of the pipe.\<close>

fun child_step ::
  "'s semaphore \<Rightarrow> 'h segment \<Rightarrow> ipc_layout \<Rightarrow> size_t \<Rightarrow> bool \<Rightarrow> addr \<Rightarrow> child_pc \<Rightarrow> ('h, 's) channel
   \<Rightarrow> (child_pc \<times> ('h, 's) channel) result option" where
  "child_step V S L pipeSize fits B C_start c =
     (case RegisterAsReceiver V pipeSize fits (ch_router c) of
        (None, r) \<Rightarrow> Some (Inr (C_done, c\<lparr>ch_router := r\<rparr>))
      | (Some q, r) \<Rightarrow> Some (Inr (C_loop q False, c\<lparr>ch_router := r\<rparr>)))"
| "child_step V S L pipeSize fits B (C_loop q timedout) c =
     (if (case rt_alive (ch_router c) q of None \<Rightarrow> False | Some p \<Rightarrow> pipe_bool p) \<and> \<not> timedout
      then (case ch_take V q Timed c of
              None \<Rightarrow> None
            | Some (Inl e) \<Rightarrow> Some (Inl e)
            | Some (Inr (t, None, c')) \<Rightarrow> Some (Inr (C_loop q t, c'))
            | Some (Inr (t, Some x, c')) \<Rightarrow> Some (Inr (if t then C_loop q t else C_drop q x, c')))
      else (case ch_leave S L B q c of
              Inl e \<Rightarrow> Some (Inl e)
            | Inr c' \<Rightarrow> Some (Inr (C_done, c'))))"
| "child_step V S L pipeSize fits B (C_drop q x) c =
     (case ch_let_go S L B x c of
        Inl e \<Rightarrow> Some (Inl e)
      | Inr c' \<Rightarrow> Some (Inr (C_loop q False, c')))"
| "child_step V S L pipeSize fits B C_done c = Some (Inr (C_done, c))"

text \<open>A schedule says who is next: \<^const>\<open>True\<close> for the parent. Each has its own base address.\<close>

fun both_run ::
  "'s semaphore \<Rightarrow> 'h segment \<Rightarrow> ipc_layout \<Rightarrow> size_t \<Rightarrow> size_t \<Rightarrow> bool \<Rightarrow> addr \<Rightarrow> addr \<Rightarrow> bool list
   \<Rightarrow> parent_pc \<times> child_pc \<times> ('h, 's) channel \<Rightarrow> (parent_pc \<times> child_pc \<times> ('h, 's) channel) result option" where
  "both_run V S L n cap fits Bp Bc [] z = Some (Inr z)"
| "both_run V S L n cap fits Bp Bc (True # ts) (pp, cp, c) =
     (case parent_step V S L n Bp pp c of
        None \<Rightarrow> None
      | Some (Inl e) \<Rightarrow> Some (Inl e)
      | Some (Inr (pp', c')) \<Rightarrow> both_run V S L n cap fits Bp Bc ts (pp', cp, c'))"
| "both_run V S L n cap fits Bp Bc (False # ts) (pp, cp, c) =
     (case child_step V S L cap fits Bc cp c of
        None \<Rightarrow> None
      | Some (Inl e) \<Rightarrow> Some (Inl e)
      | Some (Inr (cp', c')) \<Rightarrow> both_run V S L n cap fits Bp Bc ts (pp, cp', c'))"

section \<open>The room for pointers\<close>

lemma pipe_Send_capacity: "pipe_Send V m x p = Some (Inr (err, p')) \<Longrightarrow> pipe_capacity p' = pipe_capacity p"
  by (auto simp: pipe_Send_def push_item_def Let_def split: if_splits option.splits sum.splits)

lemma pipe_Receive_capacity: "pipe_Receive V m p = Some (Inr (t, x, p')) \<Longrightarrow> pipe_capacity p' = pipe_capacity p"
  by (auto simp: pipe_Receive_def pop_item_def split: if_splits option.splits bool.splits sum.splits)

text \<open>The capacities of the living pipes.\<close>

definition capacities :: "('s, 'a) router \<Rightarrow> nat \<Rightarrow> nat option" where
  "capacities r k = map_option pipe_capacity (rt_alive r k)"

lemma room_capacities: "room r = (\<Sum>k \<in> dom (capacities r). the (capacities r k))"
proof -
  have "dom (capacities r) = dom (rt_alive r)" by (auto simp: capacities_def)
  then show ?thesis by (auto simp: room_def capacities_def intro!: sum.cong)
qed

lemma served_capacities:
  assumes "\<forall>q. served V m x r r' q"
  shows "capacities r' = capacities r"
proof
  fix q
  show "capacities r' q = capacities r q"
    using spec [OF assms, of q] pipe_Send_capacity
    by (auto simp: served_def capacities_def split: option.splits)
qed

lemma ch_take_capacities:
  assumes "ch_take V q m c = Some (Inr (t, x, c'))"
  shows "capacities (ch_router c') = capacities (ch_router c)"
  using assms pipe_Receive_capacity
  by (auto simp: ch_take_def capacities_def fun_eq_iff split: option.splits sum.splits)

lemma ch_take_timeout: "ch_take V q m c = Some (Inr (True, x, c')) \<Longrightarrow> x = None"
  by (auto simp: ch_take_def split: option.splits sum.splits dest: pipe_Receive_refs(3))

lemma router_Shutdown_capacities: "capacities (router_Shutdown V r) = capacities r"
proof -
  have "capacities (fold (\<lambda>k r'. case rt_alive r' k of None \<Rightarrow> r'
      | Some p \<Rightarrow> r'\<lparr>rt_alive := (rt_alive r')(k := Some (pipe_Shutdown V p))\<rparr>) ks r) = capacities r" for ks
  proof (induction ks arbitrary: r)
    case Nil
    then show ?case by simp
  next
    case (Cons k ks)
    have "capacities (r\<lparr>rt_alive := (rt_alive r)(k := Some (pipe_Shutdown V p))\<rparr>) = capacities r"
      if "rt_alive r k = Some p" for p
      using that by (simp add: capacities_def fun_eq_iff pipe_Shutdown_def Let_def)
    then show ?case using Cons.IH by (simp del: fun_upd_apply split: option.splits)
  qed
  then show ?thesis by (simp add: router_Shutdown_def)
qed

section \<open>The invariant of the two\<close>

fun parent_ptrs :: "parent_pc \<Rightarrow> sptr list" where
  "parent_ptrs (P_send i x) = [x]"
| "parent_ptrs (P_drop i x) = [x]"
| "parent_ptrs _ = []"

fun child_ptrs :: "child_pc \<Rightarrow> sptr list" where
  "child_ptrs (C_drop q x) = [x]"
| "child_ptrs _ = []"

fun child_pipe :: "size_t \<Rightarrow> child_pc \<Rightarrow> nat \<Rightarrow> nat option" where
  "child_pipe cap (C_loop q t) = [q \<mapsto> unat cap]"
| "child_pipe cap (C_drop q x) = [q \<mapsto> unat cap]"
| "child_pipe cap _ = Map.empty"

definition both_inv ::
  "nat \<Rightarrow> 's semaphore \<Rightarrow> ipc_layout \<Rightarrow> size_t \<Rightarrow> size_t \<Rightarrow> size_t \<Rightarrow> parent_pc \<Rightarrow> child_pc \<Rightarrow> ('h, 's) channel \<Rightarrow> bool" where
  "both_inv Z V L n cnt cap pp cp c \<longleftrightarrow>
     channel_ok Z V L n cnt c \<and> mset (ch_owned c) = mset (parent_ptrs pp @ child_ptrs cp)
     \<and> capacities (ch_router c) = child_pipe cap cp"

text \<open>The steps the parent has still to take at most, of \<open>N\<close> elements to send.\<close>

fun parent_left :: "nat \<Rightarrow> parent_pc \<Rightarrow> nat" where
  "parent_left N (P_wait i) = 3 * N + 2 + (5 - i)"
| "parent_left N (P_make i) = 3 * (N - i) + 1"
| "parent_left N (P_send i x) = 3 * (N - Suc i) + 3"
| "parent_left N (P_drop i x) = 3 * (N - Suc i) + 2"
| "parent_left N P_done = 0"

lemma child_room: "both_inv Z V L n cnt cap pp cp c \<Longrightarrow> room (ch_router c) \<le> unat cap"
  by (cases cp) (simp_all add: both_inv_def room_capacities)

lemma child_ptrs_le: "length (child_ptrs cp) \<le> 1"
  by (cases cp) simp_all

lemma both_owned: "both_inv Z V L n cnt cap pp cp c \<Longrightarrow> length (ch_owned c) = length (parent_ptrs pp) + length (child_ptrs cp)"
  unfolding both_inv_def by (metis length_append size_mset)

lemma both_holds:
  assumes "both_inv Z V L n cnt cap pp cp c"
  shows "set (ch_owned c) = set (parent_ptrs pp) \<union> set (child_ptrs cp)"
  using assms mset_eq_setD [of "ch_owned c" "parent_ptrs pp @ child_ptrs cp"] by (simp add: both_inv_def)

lemma parent_step_good:
  assumes V: "semaphore_ok V" and B: "map_ok Z B" and big: "unat cap + 1 < unat n"
    and inv: "both_inv Z V L n cnt cap pp cp c"
  shows "\<exists>pp' c'. parent_step V S L n B pp c = Some (Inr (pp', c')) \<and> both_inv Z V L n cnt cap pp' cp c'
     \<and> parent_left (unat (n * 2)) pp' \<le> parent_left (unat (n * 2)) pp - 1"
proof -
  have ok: "channel_ok Z V L n cnt c" and m: "mset (ch_owned c) = mset (parent_ptrs pp @ child_ptrs cp)"
    and caps: "capacities (ch_router c) = child_pipe cap cp" using inv by (simp_all add: both_inv_def)
  show ?thesis
  proof (cases pp)
    case (P_wait i)
    then show ?thesis using inv by (simp add: both_inv_def) arith
  next
    case (P_make i)
    show ?thesis
    proof (cases "i < unat (n * 2)")
      case True
      have "length (ch_owned c) + room (ch_router c) < unat n"
        using both_owned [OF inv] child_room [OF inv] child_ptrs_le [of cp] big P_make by simp
      from ch_acquire_room [OF ok B this, of S False] obtain c' x where
        c': "ch_acquire S L B False c = Inr c'" "ch_owned c' = ch_owned c @ [x]" "channel_ok Z V L n cnt c'"
          "ch_router c' = ch_router c" by blast
      then show ?thesis using True m caps P_make by (simp add: both_inv_def)
    next
      case False
      have "channel_ok Z V L n cnt (c\<lparr>ch_router := router_Shutdown V (ch_router c)\<rparr>)"
        by (rule ch_stop_good [OF ok])
      then show ?thesis using False m caps P_make by (simp add: both_inv_def router_Shutdown_capacities)
    qed
  next
    case (P_send i x)
    then have "set_option (Some x) \<subseteq> set (ch_owned c)" using both_holds [OF inv] by simp
    from ch_publish_good [OF V ok _ this, of Timed] obtain c' where
      c': "ch_publish V Timed (Some x) c = Some (Inr c')" "channel_ok Z V L n cnt c'" "ch_owned c' = ch_owned c"
        "capacities (ch_router c') = capacities (ch_router c)" using served_capacities by blast
    then show ?thesis using m caps P_send by (simp add: both_inv_def)
  next
    case (P_drop i x)
    then have "x \<in> set (ch_owned c)" using both_holds [OF inv] by simp
    from ch_let_go_good [OF ok B this, of S] obtain c' where
      c': "ch_let_go S L B x c = Inr c'" "channel_ok Z V L n cnt c'" "ch_router c' = ch_router c"
        "ch_owned c' = remove1 x (ch_owned c)" by blast
    then show ?thesis using m caps P_drop by (simp add: both_inv_def)
  next
    case P_done
    then show ?thesis using inv by simp
  qed
qed

lemma child_step_good:
  assumes V: "semaphore_ok V" and B: "map_ok Z B" and cap: "0 < cap"
    and inv: "both_inv Z V L n cnt cap pp cp c"
  shows "\<exists>cp' c'. child_step V S L cap fits B cp c = Some (Inr (cp', c')) \<and> both_inv Z V L n cnt cap pp cp' c'"
proof -
  have ok: "channel_ok Z V L n cnt c" and m: "mset (ch_owned c) = mset (parent_ptrs pp @ child_ptrs cp)"
    and caps: "capacities (ch_router c) = child_pipe cap cp" using inv by (simp_all add: both_inv_def)
  show ?thesis
  proof (cases cp)
    case C_start
    show ?thesis
    proof (cases fits)
      case True
      let ?c = "c\<lparr>ch_router := snd (RegisterAsReceiver V cap True (ch_router c))\<rparr>"
      have "channel_ok Z V L n cnt ?c" by (rule ch_join_good [OF V ok cap])
      moreover have "capacities (ch_router ?c) = (capacities (ch_router c))(rt_next (ch_router c) := Some (unat cap))"
        by (simp add: capacities_def fun_eq_iff RegisterAsReceiver_def pipe_new_def)
      ultimately show ?thesis
        using C_start True m caps by (simp add: both_inv_def RegisterAsReceiver_def)
    next
      case False
      then show ?thesis using C_start inv by (simp add: both_inv_def RegisterAsReceiver_def)
    qed
  next
    case (C_loop q t)
    show ?thesis
    proof (cases "(case rt_alive (ch_router c) q of None \<Rightarrow> False | Some p \<Rightarrow> pipe_bool p) \<and> \<not> t")
      case True
      from ch_take_good [OF V ok, of Timed q] obtain t' x c' where
        c': "ch_take V q Timed c = Some (Inr (t', x, c'))" "channel_ok Z V L n cnt c'"
          "ch_owned c' = ch_owned c @ (case x of None \<Rightarrow> [] | Some a \<Rightarrow> [a])" by blast
      have "t' \<longrightarrow> x = None" using ch_take_timeout c'(1) by auto
      then show ?thesis using True C_loop c' m caps ch_take_capacities [OF c'(1)]
        by (cases x) (auto simp: both_inv_def)
    next
      case False
      from ch_leave_good [OF ok B, of S q] obtain c' where
        c': "ch_leave S L B q c = Inr c'" "channel_ok Z V L n cnt c'" "ch_owned c' = ch_owned c"
          "ch_router c' = drop_receiver q (ch_router c)" by blast
      have "capacities (ch_router c') = (capacities (ch_router c))(q := None)"
        using c'(4) by (simp add: capacities_def drop_receiver_def fun_eq_iff)
      then have "capacities (ch_router c') = Map.empty" using caps C_loop by (simp add: fun_upd_idem)
      moreover have "child_step V S L cap fits B cp c = Some (Inr (C_done, c'))"
        unfolding C_loop child_step.simps if_not_P [OF False] using c'(1) by simp
      ultimately show ?thesis using c'(2,3) m C_loop by (simp add: both_inv_def)
    qed
  next
    case (C_drop q x)
    then have "x \<in> set (ch_owned c)" using both_holds [OF inv] by simp
    from ch_let_go_good [OF ok B this, of S] obtain c' where
      c': "ch_let_go S L B x c = Inr c'" "channel_ok Z V L n cnt c'" "ch_router c' = ch_router c"
        "ch_owned c' = remove1 x (ch_owned c)" by blast
    then show ?thesis using m caps C_drop by (simp add: both_inv_def)
  next
    case C_done
    then show ?thesis using inv by simp
  qed
qed

lemma both_run_good:
  assumes V: "semaphore_ok V" and B: "map_ok Z Bp" "map_ok Z Bc" and cap: "0 < cap" "unat cap + 1 < unat n"
    and inv: "both_inv Z V L n cnt cap pp cp c"
  shows "\<exists>pp' cp' c'. both_run V S L n cap fits Bp Bc ts (pp, cp, c) = Some (Inr (pp', cp', c'))
     \<and> both_inv Z V L n cnt cap pp' cp' c'
     \<and> parent_left (unat (n * 2)) pp' \<le> parent_left (unat (n * 2)) pp - count_list ts True"
  using inv
proof (induction ts arbitrary: pp cp c)
  case Nil
  then show ?case by simp
next
  case (Cons t ts)
  show ?case
  proof (cases t)
    case True
    from parent_step_good [OF V B(1) cap(2) Cons.prems, of S] obtain pp1 c1 where
      s: "parent_step V S L n Bp pp c = Some (Inr (pp1, c1))" "both_inv Z V L n cnt cap pp1 cp c1"
        "parent_left (unat (n * 2)) pp1 \<le> parent_left (unat (n * 2)) pp - 1" by blast
    from Cons.IH [OF s(2)] obtain pp' cp' c' where
      r: "both_run V S L n cap fits Bp Bc ts (pp1, cp, c1) = Some (Inr (pp', cp', c'))"
        "both_inv Z V L n cnt cap pp' cp' c'"
        "parent_left (unat (n * 2)) pp' \<le> parent_left (unat (n * 2)) pp1 - count_list ts True" by blast
    have "parent_left (unat (n * 2)) pp' \<le> parent_left (unat (n * 2)) pp - count_list (t # ts) True"
      using r(3) s(3) True by simp
    moreover have "both_run V S L n cap fits Bp Bc (t # ts) (pp, cp, c) = Some (Inr (pp', cp', c'))"
      using True s(1) r(1) by simp
    ultimately show ?thesis using r(2) by blast
  next
    case False
    from child_step_good [OF V B(2) cap(1) Cons.prems, of S fits] obtain cp1 c1 where
      s: "child_step V S L cap fits Bc cp c = Some (Inr (cp1, c1))" "both_inv Z V L n cnt cap pp cp1 c1" by blast
    from Cons.IH [OF s(2)] False s(1) show ?thesis by simp
  qed
qed

lemma parent_left_done: "parent_left N pp = 0 \<longleftrightarrow> pp = P_done"
  by (cases pp) simp_all

lemma both_statistics:
  assumes "both_inv Z V L n cnt cap pp cp c"
  shows "\<exists>k. mp_Statistics (fst (ms_pool (ch_pool c))) = (k, unat n - k)
     \<and> k \<le> length (parent_ptrs pp) + length (child_ptrs cp) + unat cap
     \<and> (cp = C_done \<longrightarrow> k \<le> length (parent_ptrs pp))"
proof -
  have ok: "channel_ok Z V L n cnt c" using assms by (simp add: both_inv_def)
  let ?k = "card (Collect (referenced c))"
  have "?k \<le> length (ch_owned c) + room (ch_router c)" by (rule referenced_card [OF ok])
  moreover have "room (ch_router c) = 0" if "cp = C_done"
    using assms that by (simp add: both_inv_def room_capacities)
  ultimately show ?thesis
    using channel_statistics(2) [OF ok] both_owned [OF assms] child_room [OF assms] by auto
qed

lemma both_start:
  assumes "segment_ok Z S" and "mp_fits L n cnt" and "MemPoolIPC_new S L B n cnt h = Inr (mp, h')"
  shows "both_inv Z V L n cnt cap (P_wait 0) C_start (channel_start mp h')"
  using channel_start_ok [OF assms, of V]
  by (simp add: both_inv_def) (simp add: channel_start_def router_new_def capacities_def fun_eq_iff)

text \<open>What the parent does not check: an exhausted pool gives it null.\<close>

lemma parent_faults_when_exhausted:
  assumes ok: "channel_ok Z V L n cnt c" and "map_ok Z B" and "i < unat (n * 2)"
    and "card (Collect (referenced c)) = unat n"
  shows "parent_step V S L n B (P_make i) c = Some (Inl Null_deref)"
proof -
  have "\<not> length (ms_held (ch_pool c)) < unat n" using channel_statistics(1) [OF ok] assms(4) by simp
  with ch_acquire_good [OF ok assms(2), of S False] have "ch_acquire S L B False c = Inr c" by auto
  then show ?thesis using assms(3) by simp
qed

section \<open>Properties of the example\<close>

text \<open>
  C24. The example is right for the sizes it has chosen: as long as the pool has at least two elements more than the pipe has
  places (10 and 5 in the code), in no interleaving of parent and child does a call fail or block, and
  \<open>make_pooled\<close> does not return the null that the parent would dereference; the parent has sent its \<open>2 * poolSize\<close> elements
  after at most \<open>6 * poolSize + 7\<close> of its steps; and when both have ended every element is back in the pool, also those
  that nobody has received.
\<close>

theorem example_processes_never_fail:
  assumes "segment_ok Z S" and "semaphore_ok V" and "mp_fits L n cnt"
    and "MemPoolIPC_new S L B n cnt h = Inr (mp, h')"
    and "map_ok Z Bp" and "map_ok Z Bc" and "0 < cap" and "unat cap + 1 < unat n"
  shows "\<exists>pp cp c k. both_run V S L n cap fits Bp Bc ts (P_wait 0, C_start, channel_start mp h') = Some (Inr (pp, cp, c))
     \<and> mp_Statistics (fst (ms_pool (ch_pool c))) = (k, unat n - k) \<and> k \<le> unat cap + 2
     \<and> (3 * unat (n * 2) + 7 \<le> count_list ts True \<longrightarrow> pp = P_done)
     \<and> (pp = P_done \<and> cp = C_done \<longrightarrow> k = 0)"
proof -
  from both_run_good [OF assms(2,5-8) both_start [OF assms(1,3,4)], of S fits ts] obtain pp cp c where
    run: "both_run V S L n cap fits Bp Bc ts (P_wait 0, C_start, channel_start mp h') = Some (Inr (pp, cp, c))"
    and inv: "both_inv Z V L n cnt cap pp cp c"
    and left: "parent_left (unat (n * 2)) pp \<le> parent_left (unat (n * 2)) (P_wait 0) - count_list ts True" by blast
  from both_statistics [OF inv] obtain k where
    k: "mp_Statistics (fst (ms_pool (ch_pool c))) = (k, unat n - k)"
      "k \<le> length (parent_ptrs pp) + length (child_ptrs cp) + unat cap" "cp = C_done \<longrightarrow> k \<le> length (parent_ptrs pp)" by blast
  have "length (parent_ptrs pp) \<le> 1" by (cases pp) simp_all
  then have "k \<le> unat cap + 2" using k(2) child_ptrs_le [of cp] by simp
  moreover have "pp = P_done" if "3 * unat (n * 2) + 7 \<le> count_list ts True"
    using left that parent_left_done [of "unat (n * 2)" pp] by simp
  moreover have "k = 0" if "pp = P_done \<and> cp = C_done" using k(3) that by simp
  ultimately show ?thesis using run k(1) by blast
qed

lemma example_pool_of_three: "\<exists>mp h'. MemPoolIPC_new bump_segment example_ipc_layout 65536 3 3 64 = Inr (mp, h')"
  by (simp add: ipc_construction_defs Let_def)

lemma example_processes_never_fail_witness:
  "\<exists>mp h' pp cp c. both_run counter_semaphore bump_segment example_ipc_layout 3 1 True 65536 131072
       ([False, False] @ replicate 25 True @ [False, False]) (P_wait 0, C_start, channel_start mp h') = Some (Inr (pp, cp, c))
     \<and> pp = P_done"
proof -
  from example_pool_of_three obtain mp h' where
    mp: "MemPoolIPC_new bump_segment example_ipc_layout 65536 3 3 64 = Inr (mp, h')" by blast
  have fits: "mp_fits example_ipc_layout 3 3"
    by (simp add: mp_fits_def ipc_fits_def example_ipc_layout_def example_elem_def)
  have maps: "map_ok 4096 65536" "map_ok 4096 131072" by (simp_all add: map_ok_def)
  have cap: "0 < (1 :: size_t)" "unat (1 :: size_t) + 1 < unat (3 :: size_t)" by simp_all
  let ?ts = "[False, False] @ replicate 25 True @ [False, False]"
  have "count_list (replicate m True) True = m" for m by (induction m) simp_all
  then have "3 * unat ((3 :: size_t) * 2) + 7 \<le> count_list ?ts True" by simp
  with example_processes_never_fail [OF bump_segment_ok counter_semaphore_ok fits mp maps cap, of True ?ts]
  show ?thesis by blast
qed

end
