(* ===== verification/Shared_Objects.thy ===== *)
theory Shared_Objects
  imports IPC_Prelude
begin

text \<open>
  \<^verbatim>\<open>MempoolIPC/src/UtilsIPC.h\<close>: reference-counted objects in a shared memory segment, found by name,
  and the reference-counted segment itself. Every function body after its \<open>find_or_construct\<close> of the
  mutex runs under that mutex, so one call is one step.
\<close>

section \<open>Names\<close>

definition GetObjectMutexName :: "string \<Rightarrow> string" where
  "GetObjectMutexName name = ''__'' @ name @ ''_object_mutex__''"

definition GetObjectCounterName :: "string \<Rightarrow> string" where
  "GetObjectCounterName name = ''__'' @ name @ ''_object_couter__''"

definition GetObjectName :: "string \<Rightarrow> string" where
  "GetObjectName name = ''__'' @ name @ ''_object__''"

definition GetMappingMutexName :: "string \<Rightarrow> string" where
  "GetMappingMutexName name = ''__'' @ name @ ''_mapping_mutex__''"

definition GetMappingCounterName :: "string \<Rightarrow> string" where
  "GetMappingCounterName name = ''__'' @ name @ ''_mapping_count__''"

definition GetMappingName :: "string \<Rightarrow> string" where
  "GetMappingName name = ''__'' @ name @ ''_mapping__''"

lemmas name_defs = GetObjectMutexName_def GetObjectCounterName_def GetObjectName_def
  GetMappingMutexName_def GetMappingCounterName_def GetMappingName_def

section \<open>The segment\<close>

text \<open>
  What the code uses of \<open>ipc::managed_shared_memory\<close>. Objects of the three types live in name spaces
  of their own here; \<open>names_never_clash\<close> below shows that the names differ anyway. Constructing the
  object may find no memory (null, because of \<open>std::nothrow\<close>) or throw.
\<close>

datatype 'o construction = Constructed 'o | No_memory | Threw

record ('h, 'o) shm =
  find_or_construct_mutex :: "string \<Rightarrow> 'h \<Rightarrow> bool \<times> 'h"
  find_or_construct_counter :: "string \<Rightarrow> 'h \<Rightarrow> bool \<times> 'h"
  read_counter :: "string \<Rightarrow> 'h \<Rightarrow> size_t"
  write_counter :: "string \<Rightarrow> size_t \<Rightarrow> 'h \<Rightarrow> 'h"
  find_or_construct_object :: "string \<Rightarrow> 'h \<Rightarrow> 'o construction \<times> 'h"
  destroy_object :: "string \<Rightarrow> 'h \<Rightarrow> 'h"
  shm_mutexes :: "'h \<Rightarrow> string \<Rightarrow> bool"
  shm_counters :: "'h \<Rightarrow> string \<Rightarrow> size_t option"
  shm_objects :: "'h \<Rightarrow> string \<Rightarrow> 'o option"

text \<open>
  The documented behaviour: an operation finds what is there, or makes it, or leaves everything as it
  was; only \<open>destroy\<close> removes an object, and only by its name. The last three fields are the contents
  of the segment, in terms of which this is said.
\<close>

definition mutex_law :: "('h, 'o) shm \<Rightarrow> bool" where
  "mutex_law M \<longleftrightarrow> (\<forall>n h. let (found, h') = find_or_construct_mutex M n h in
     shm_counters M h' = shm_counters M h \<and> shm_objects M h' = shm_objects M h
     \<and> shm_mutexes M h' = (shm_mutexes M h)(n := found)
     \<and> (shm_mutexes M h n \<longrightarrow> found))"

definition counter_law :: "('h, 'o) shm \<Rightarrow> bool" where
  "counter_law M \<longleftrightarrow>
     (\<forall>n h. let (found, h') = find_or_construct_counter M n h in
        shm_objects M h' = shm_objects M h \<and> shm_mutexes M h' = shm_mutexes M h
        \<and> shm_counters M h' = (if found \<and> shm_counters M h n = None
            then (shm_counters M h)(n \<mapsto> 0) else shm_counters M h)
        \<and> (shm_counters M h n \<noteq> None \<longrightarrow> found))
   \<and> (\<forall>n h c. shm_counters M h n = Some c \<longrightarrow> read_counter M n h = c)
   \<and> (\<forall>n c h. shm_objects M (write_counter M n c h) = shm_objects M h
        \<and> shm_mutexes M (write_counter M n c h) = shm_mutexes M h
        \<and> shm_counters M (write_counter M n c h) = (shm_counters M h)(n \<mapsto> c))"

definition object_law :: "('h, 'o) shm \<Rightarrow> bool" where
  "object_law M \<longleftrightarrow>
     (\<forall>n h. let (r, h') = find_or_construct_object M n h in
        shm_counters M h' = shm_counters M h \<and> shm_mutexes M h' = shm_mutexes M h
        \<and> shm_objects M h' = (case r of
             Constructed obj \<Rightarrow> (shm_objects M h)(n \<mapsto> obj) | _ \<Rightarrow> shm_objects M h)
        \<and> (\<forall>obj. shm_objects M h n = Some obj \<longrightarrow> r = Constructed obj))
   \<and> (\<forall>n h. shm_counters M (destroy_object M n h) = shm_counters M h
        \<and> shm_mutexes M (destroy_object M n h) = shm_mutexes M h
        \<and> shm_objects M (destroy_object M n h) = (shm_objects M h)(n := None))"

definition shm_ok :: "('h, 'o) shm \<Rightarrow> bool" where
  "shm_ok M \<longleftrightarrow> mutex_law M \<and> counter_law M \<and> object_law M"

section \<open>Shared objects\<close>

text \<open>
  The pointer returned: \<^const>\<open>None\<close> is an empty \<open>shared_ptr\<close>; \<open>Some obj\<close> owns a deleter, which will
  run even when \<open>obj\<close> is \<^const>\<open>None\<close>, a null pointer.
\<close>

definition find_or_create_shared_object ::
  "('h, 'o) shm \<Rightarrow> size_t \<Rightarrow> string \<Rightarrow> 'h \<Rightarrow> 'o option option \<times> 'h" where
  "find_or_create_shared_object M nProcessMax name h =
     (let (found_mutex, h1) = find_or_construct_mutex M (GetObjectMutexName name) h in
      if \<not> found_mutex then (None, h1)
      else
        let (found_counter, h2) = find_or_construct_counter M (GetObjectCounterName name) h1 in
        if \<not> found_counter then (None, h2)
        else
          let counter = read_counter M (GetObjectCounterName name) h2 in
          if nProcessMax \<le> counter then (None, h2)
          else
            let (r, h3) = find_or_construct_object M (GetObjectName name) h2;
                inc = write_counter M (GetObjectCounterName name) (counter + 1) h3
            in (case r of
                  Constructed obj \<Rightarrow> (Some (Some obj), inc)
                | No_memory \<Rightarrow> (Some None, inc)
                | Threw \<Rightarrow> (Some None, h3)))"

definition destroy_shared_object :: "('h, 'o) shm \<Rightarrow> string \<Rightarrow> 'h \<Rightarrow> 'h" where
  "destroy_shared_object M name h =
     (let (found_mutex, h1) = find_or_construct_mutex M (GetObjectMutexName name) h in
      if \<not> found_mutex then h1
      else
        let (found_counter, h2) = find_or_construct_counter M (GetObjectCounterName name) h1 in
        if \<not> found_counter then h2
        else
          let counterOld = read_counter M (GetObjectCounterName name) h2;
              h3 = (if 0 < counterOld
                    then write_counter M (GetObjectCounterName name) (counterOld - 1) h2 else h2)
          in if counterOld = 1 then destroy_object M (GetObjectName name) h3 else h3)"

section \<open>The segment itself\<close>

text \<open>
  \<open>remove_mapping\<close>: decrement, and tell whether this was the last user. In
  \<open>open_or_create_mapping\<close> a mapping that is absent from the system is created with an empty segment
  \<open>fresh\<close>; on an early return the \<open>shared_ptr\<close> to the segment is dropped, so the deleter runs.
\<close>

definition remove_mapping :: "('h, 'o) shm \<Rightarrow> string \<Rightarrow> 'h \<Rightarrow> bool \<times> 'h" where
  "remove_mapping M name h =
     (let (found_mutex, h1) = find_or_construct_mutex M (GetMappingMutexName name) h in
      if \<not> found_mutex then (False, h1)
      else
        let (found_counter, h2) = find_or_construct_counter M (GetMappingCounterName name) h1 in
        if \<not> found_counter then (False, h2)
        else
          let counterOld = read_counter M (GetMappingCounterName name) h2;
              h3 = (if 0 < counterOld
                    then write_counter M (GetMappingCounterName name) (counterOld - 1) h2 else h2)
          in (counterOld = 1, h3))"

text \<open>The deleter of the mapping; the system knows the segment by name until it is removed.\<close>

definition close_mapping :: "('h, 'o) shm \<Rightarrow> string \<Rightarrow> 'h \<Rightarrow> 'h option" where
  "close_mapping M name h =
     (let (shouldRemove, h') = remove_mapping M name h in if shouldRemove then None else Some h')"

definition open_or_create_mapping ::
  "('h, 'o) shm \<Rightarrow> 'h \<Rightarrow> string \<Rightarrow> 'h option \<Rightarrow> bool \<times> 'h option" where
  "open_or_create_mapping M fresh name mapping =
     (let h = (case mapping of None \<Rightarrow> fresh | Some h \<Rightarrow> h);
          (found_mutex, h1) = find_or_construct_mutex M (GetMappingMutexName name) h
      in if \<not> found_mutex then (False, close_mapping M name h1)
         else
           let (found_counter, h2) = find_or_construct_counter M (GetMappingCounterName name) h1 in
           if \<not> found_counter then (False, close_mapping M name h2)
           else
             let counter = read_counter M (GetMappingCounterName name) h2 in
             (True, Some (write_counter M (GetMappingCounterName name) (counter + 1) h2)))"

section \<open>Users of the objects of a segment\<close>

text \<open>A user holds a pointer that owns a deleter: the name, and the object or null.\<close>

record ('h, 'o) users =
  us_heap :: 'h
  us_held :: "(string \<times> 'o option) list"

datatype use_op = Open size_t string | Close nat

fun use_step :: "('h, 'o) shm \<Rightarrow> use_op \<Rightarrow> ('h, 'o) users \<Rightarrow> ('h, 'o) users" where
  "use_step M (Open nProcessMax name) u =
     (case find_or_create_shared_object M nProcessMax name (us_heap u) of
        (None, h) \<Rightarrow> u\<lparr>us_heap := h\<rparr>
      | (Some obj, h) \<Rightarrow> u\<lparr>us_heap := h, us_held := us_held u @ [(name, obj)]\<rparr>)"
| "use_step M (Close k) u =
     (if k < length (us_held u)
      then u\<lparr>us_heap := destroy_shared_object M (fst (us_held u ! k)) (us_heap u),
             us_held := drop_nth k (us_held u)\<rparr>
      else u)"

definition uses_of :: "string \<Rightarrow> (string \<times> 'o option) list \<Rightarrow> nat" where
  "uses_of name held = count_if (\<lambda>x. fst x = name) held"

section \<open>The names\<close>

definition shared_names :: "(string \<Rightarrow> string) list" where
  "shared_names = [GetObjectMutexName, GetObjectCounterName, GetObjectName,
     GetMappingMutexName, GetMappingCounterName, GetMappingName]"

text \<open>
  The six families of names never clash: names of different kinds are different whatever the users
  called their objects and mappings, and within a kind different names stay different.
\<close>

lemma names_never_clash:
  assumes "f \<in> set shared_names" and "g \<in> set shared_names" and "f \<noteq> g \<or> a \<noteq> b"
  shows "f a \<noteq> g b"
proof
  assume eq: "f a = g b"
  then have key: "take 9 (rev (f a)) = take 9 (rev (g b))" by simp
  from assms(1,2) have "f = g"
    by (simp add: shared_names_def) (elim disjE; use key in \<open>simp add: name_defs\<close>)
  moreover from assms(1) eq \<open>f = g\<close> have "a = b"
    by (auto simp: shared_names_def name_defs)
  ultimately show False using assms(3) by simp
qed

lemma names_never_clash_witness: "GetObjectName ''pool'' \<noteq> GetMappingName ''segment''"
  by (rule names_never_clash) (simp_all add: shared_names_def)

section \<open>What one call does\<close>

text \<open>The count behind a name, and the object.\<close>

definition use_count :: "('h, 'o) shm \<Rightarrow> 'h \<Rightarrow> string \<Rightarrow> nat" where
  "use_count M h name = (case shm_counters M h (GetObjectCounterName name) of None \<Rightarrow> 0 | Some c \<Rightarrow> unat c)"

definition the_object :: "('h, 'o) shm \<Rightarrow> 'h \<Rightarrow> string \<Rightarrow> 'o option" where
  "the_object M h name = shm_objects M h (GetObjectName name)"

definition has_mutex :: "('h, 'o) shm \<Rightarrow> 'h \<Rightarrow> string \<Rightarrow> bool" where
  "has_mutex M h name = shm_mutexes M h (GetObjectMutexName name)"

lemma name_inject [simp]:
  "GetObjectMutexName a = GetObjectMutexName b \<longleftrightarrow> a = b"
  "GetObjectCounterName a = GetObjectCounterName b \<longleftrightarrow> a = b"
  "GetObjectName a = GetObjectName b \<longleftrightarrow> a = b"
  by (simp_all add: name_defs)

lemma mutexD:
  assumes "shm_ok M" and "find_or_construct_mutex M (GetObjectMutexName name) h = (found, h')"
  shows "use_count M h' = use_count M h" and "the_object M h' = the_object M h"
    and "has_mutex M h' = (has_mutex M h)(name := found)" and "has_mutex M h name \<Longrightarrow> found"
proof -
  have law: "mutex_law M" using assms(1) by (simp add: shm_ok_def)
  from law [unfolded mutex_law_def, THEN spec, THEN spec, of "GetObjectMutexName name" h] assms(2)
  have l: "shm_counters M h' = shm_counters M h" "shm_objects M h' = shm_objects M h"
    "shm_mutexes M h' = (shm_mutexes M h)(GetObjectMutexName name := found)"
    "shm_mutexes M h (GetObjectMutexName name) \<longrightarrow> found" by simp_all
  then show "use_count M h' = use_count M h" "the_object M h' = the_object M h"
    "has_mutex M h' = (has_mutex M h)(name := found)" "has_mutex M h name \<Longrightarrow> found"
    by (auto simp: use_count_def the_object_def has_mutex_def fun_eq_iff)
qed

lemma counterD:
  assumes "shm_ok M" and "find_or_construct_counter M (GetObjectCounterName name) h = (found, h')"
  shows "use_count M h' = use_count M h" and "the_object M h' = the_object M h"
    and "has_mutex M h' = has_mutex M h" and "0 < use_count M h name \<Longrightarrow> found"
    and "found \<Longrightarrow> unat (read_counter M (GetObjectCounterName name) h') = use_count M h name"
proof -
  have law: "counter_law M" using assms(1) by (simp add: shm_ok_def)
  from conjunct1 [OF law [unfolded counter_law_def], THEN spec, THEN spec, of "GetObjectCounterName name" h] assms(2)
  have l: "shm_objects M h' = shm_objects M h" "shm_mutexes M h' = shm_mutexes M h"
    "shm_counters M h' = (if found \<and> shm_counters M h (GetObjectCounterName name) = None
       then (shm_counters M h)(GetObjectCounterName name \<mapsto> 0) else shm_counters M h)"
    "shm_counters M h (GetObjectCounterName name) \<noteq> None \<longrightarrow> found" by simp_all
  have rd: "shm_counters M h' n = Some c \<Longrightarrow> read_counter M n h' = c" for n c
    using law by (simp add: counter_law_def)
  show "use_count M h' = use_count M h" "the_object M h' = the_object M h" "has_mutex M h' = has_mutex M h"
    using l by (auto simp: use_count_def the_object_def has_mutex_def fun_eq_iff)
  show "found" if "0 < use_count M h name"
    using that l(4) by (auto simp: use_count_def split: option.splits)
  show "unat (read_counter M (GetObjectCounterName name) h') = use_count M h name" if found
    using that l(3) rd [of "GetObjectCounterName name"] by (auto simp: use_count_def split: if_splits option.splits)
qed

lemma writeD:
  assumes "shm_ok M"
  shows "use_count M (write_counter M (GetObjectCounterName name) c h) = (use_count M h)(name := unat c)"
    and "the_object M (write_counter M n c h) = the_object M h"
    and "has_mutex M (write_counter M n c h) = has_mutex M h"
proof -
  have l: "shm_objects M (write_counter M n c h) = shm_objects M h"
    "shm_mutexes M (write_counter M n c h) = shm_mutexes M h"
    "shm_counters M (write_counter M n c h) = (shm_counters M h)(n \<mapsto> c)" for n
    using assms by (simp_all add: shm_ok_def counter_law_def)
  then show "use_count M (write_counter M (GetObjectCounterName name) c h) = (use_count M h)(name := unat c)"
    "the_object M (write_counter M n c h) = the_object M h"
    "has_mutex M (write_counter M n c h) = has_mutex M h"
    by (auto simp: use_count_def the_object_def has_mutex_def fun_eq_iff)
qed

lemma objectD:
  assumes "shm_ok M" and "find_or_construct_object M (GetObjectName name) h = (r, h')"
  shows "use_count M h' = use_count M h" and "has_mutex M h' = has_mutex M h"
    and "the_object M h' = (case r of Constructed obj \<Rightarrow> (the_object M h)(name := Some obj) | _ \<Rightarrow> the_object M h)"
    and "the_object M h name = Some obj \<Longrightarrow> r = Constructed obj"
proof -
  have law: "object_law M" using assms(1) by (simp add: shm_ok_def)
  from conjunct1 [OF law [unfolded object_law_def], THEN spec, THEN spec, of "GetObjectName name" h] assms(2)
  have l: "shm_counters M h' = shm_counters M h" "shm_mutexes M h' = shm_mutexes M h"
    "shm_objects M h' = (case r of Constructed obj \<Rightarrow> (shm_objects M h)(GetObjectName name \<mapsto> obj) | _ \<Rightarrow> shm_objects M h)"
    "\<forall>obj. shm_objects M h (GetObjectName name) = Some obj \<longrightarrow> r = Constructed obj" by simp_all
  then show "use_count M h' = use_count M h" "has_mutex M h' = has_mutex M h"
    "the_object M h' = (case r of Constructed obj \<Rightarrow> (the_object M h)(name := Some obj) | _ \<Rightarrow> the_object M h)"
    "the_object M h name = Some obj \<Longrightarrow> r = Constructed obj"
    by (auto simp: use_count_def the_object_def has_mutex_def fun_eq_iff split: construction.splits)
qed

lemma destroyD:
  assumes "shm_ok M"
  shows "use_count M (destroy_object M n h) = use_count M h" and "has_mutex M (destroy_object M n h) = has_mutex M h"
    and "the_object M (destroy_object M (GetObjectName name) h) = (the_object M h)(name := None)"
  using assms by (auto simp: shm_ok_def object_law_def use_count_def the_object_def has_mutex_def fun_eq_iff)

lemma open_effect:
  assumes M: "shm_ok M" and run: "find_or_create_shared_object M mx name h = (r, h')"
  shows "(\<forall>n. has_mutex M h n \<longrightarrow> has_mutex M h' n)
     \<and> (case r of
          None \<Rightarrow> use_count M h' = use_count M h \<and> the_object M h' = the_object M h
        | Some ro \<Rightarrow> use_count M h name < unat mx \<and> has_mutex M h' name
            \<and> (\<forall>obj. the_object M h name = Some obj \<longrightarrow> ro = Some obj)
            \<and> (case ro of
                 Some obj \<Rightarrow> the_object M h' = (the_object M h)(name := Some obj)
                   \<and> use_count M h' = (use_count M h)(name := Suc (use_count M h name))
               | None \<Rightarrow> the_object M h' = the_object M h
                   \<and> (use_count M h' = (use_count M h)(name := Suc (use_count M h name))
                      \<or> use_count M h' = use_count M h
                        \<and> (\<exists>hx. fst (find_or_construct_object M (GetObjectName name) hx) = Threw))))"
proof -
  obtain fm h1 where m: "find_or_construct_mutex M (GetObjectMutexName name) h = (fm, h1)" by fastforce
  note m' = mutexD [OF M m]
  show ?thesis
  proof (cases fm)
    case False
    then show ?thesis using run m m' by (auto simp: find_or_create_shared_object_def)
  next
    case True
    obtain fc h2 where c: "find_or_construct_counter M (GetObjectCounterName name) h1 = (fc, h2)" by fastforce
    note c' = counterD [OF M c]
    let ?c = "read_counter M (GetObjectCounterName name) h2"
    have mono: "\<forall>n. has_mutex M h n \<longrightarrow> has_mutex M h2 n" "has_mutex M h2 name"
      using m'(3) c'(3) True by auto
    show ?thesis
    proof (cases "fc \<and> ?c < mx")
      case False
      then show ?thesis using run m c m' c' True mono
        by (cases fc) (auto simp: find_or_create_shared_object_def not_less)
    next
      case lt: True
      obtain ro h3 where ob: "find_or_construct_object M (GetObjectName name) h2 = (ro, h3)" by fastforce
      note ob' = objectD [OF M ob]
      let ?w = "write_counter M (GetObjectCounterName name) (?c + 1) h3"
      have uc: "unat ?c = use_count M h name" using c'(1,5) m'(1) lt by simp
      have "unat ?c < unat mx" using lt by (simp add: word_less_nat_alt)
      then have "unat ?c + unat (1 :: size_t) < 2 ^ 64" using unat_lt_64 [of mx] by (simp only: unat_1)
      then have "unat (?c + 1) = Suc (unat ?c)" using unat_add_lt [of ?c 1] by simp
      then have w: "use_count M ?w = (use_count M h)(name := Suc (use_count M h name))"
        "the_object M ?w = the_object M h3" "has_mutex M ?w = has_mutex M h3"
        using writeD [OF M] ob'(1) c'(1) m'(1) uc by simp_all
      have res: "(r, h') = (case ro of Constructed obj \<Rightarrow> (Some (Some obj), ?w) | No_memory \<Rightarrow> (Some None, ?w)
          | Threw \<Rightarrow> (Some None, h3))"
        using run m c ob True lt leD [of mx ?c]
        by (auto simp: find_or_create_shared_object_def Let_def split: construction.splits if_splits)
      have old: "the_object M h2 = the_object M h" "use_count M h3 = use_count M h" "has_mutex M h3 = has_mutex M h2"
        using c'(1,2) m'(1,2) ob'(1,2) by simp_all
      have less: "use_count M h name < unat mx" using \<open>unat ?c < unat mx\<close> uc by simp
      show ?thesis
      proof (cases ro)
        case (Constructed obj)
        then have "r = Some (Some obj)" "h' = ?w" using res by simp_all
        then show ?thesis using w old ob'(3) ob'(4) mono less Constructed by auto
      next
        case No_memory
        then have "r = Some None" "h' = ?w" using res by simp_all
        then show ?thesis using w old ob'(3) ob'(4) mono less No_memory
          by (cases "the_object M h name") auto
      next
        case Threw
        then have "r = Some None" "h' = h3" using res by simp_all
        moreover have "fst (find_or_construct_object M (GetObjectName name) h2) = Threw" using ob Threw by simp
        ultimately show ?thesis using old ob'(3) ob'(4) mono less Threw
          by (cases "the_object M h name") auto
      qed
    qed
  qed
qed

lemma close_effect:
  assumes M: "shm_ok M" and "has_mutex M h name" and "0 < use_count M h name"
  shows "use_count M (destroy_shared_object M name h) = (use_count M h)(name := use_count M h name - 1)
     \<and> the_object M (destroy_shared_object M name h) =
         (if use_count M h name = 1 then (the_object M h)(name := None) else the_object M h)
     \<and> (\<forall>n. has_mutex M h n \<longrightarrow> has_mutex M (destroy_shared_object M name h) n)"
proof -
  obtain fm h1 where m: "find_or_construct_mutex M (GetObjectMutexName name) h = (fm, h1)" by fastforce
  note m' = mutexD [OF M m]
  have fm: fm using m'(4) assms(2) by simp
  obtain fc h2 where c: "find_or_construct_counter M (GetObjectCounterName name) h1 = (fc, h2)" by fastforce
  note c' = counterD [OF M c]
  have fc: fc using c'(4) m'(1) assms(3) by simp
  let ?c = "read_counter M (GetObjectCounterName name) h2"
  have uc: "unat ?c = use_count M h name" using c'(5) fc m'(1) by simp
  have pos: "0 < ?c" using uc assms(3) by (simp add: word_less_nat_alt)
  let ?w = "write_counter M (GetObjectCounterName name) (?c - 1) h2"
  have "unat (?c - 1) = unat ?c - 1" using pos by (subst unat_sub) (simp_all add: word_le_nat_alt word_less_nat_alt)
  then have w: "use_count M ?w = (use_count M h)(name := use_count M h name - 1)"
    "the_object M ?w = the_object M h" "has_mutex M ?w = (has_mutex M h)(name := True)"
    using writeD [OF M] uc c'(1-3) m'(1-3) fm by simp_all
  have "?c = 1 \<longleftrightarrow> use_count M h name = 1"
    using uc by (metis unat_1 word_unat_eq_iff)
  moreover have "destroy_shared_object M name h =
      (if ?c = 1 then destroy_object M (GetObjectName name) ?w else ?w)"
    using m c fm fc pos by (simp add: destroy_shared_object_def Let_def)
  ultimately show ?thesis using w destroyD [OF M] by auto
qed

section \<open>The invariant of the users\<close>

definition users_ok :: "('h, 'o) shm \<Rightarrow> size_t \<Rightarrow> ('h, 'o) users \<Rightarrow> bool" where
  "users_ok M mx u \<longleftrightarrow>
     (\<forall>n. use_count M (us_heap u) n = uses_of n (us_held u) \<and> uses_of n (us_held u) \<le> unat mx
        \<and> (0 < uses_of n (us_held u) \<longrightarrow> has_mutex M (us_heap u) n)
        \<and> (the_object M (us_heap u) n \<noteq> None \<longrightarrow> 0 < uses_of n (us_held u)))
     \<and> (\<forall>n obj. (n, Some obj) \<in> set (us_held u) \<longrightarrow> the_object M (us_heap u) n = Some obj)"

definition never_throws :: "('h, 'o) shm \<Rightarrow> bool" where
  "never_throws M \<longleftrightarrow> (\<forall>n h. fst (find_or_construct_object M n h) \<noteq> Threw)"

lemma uses_of_append [simp]: "uses_of n (xs @ [x]) = uses_of n xs + (if fst x = n then 1 else 0)"
  by (simp add: uses_of_def)

lemma uses_of_drop:
  "k < length xs \<Longrightarrow> uses_of n (drop_nth k xs) + (if fst (xs ! k) = n then 1 else 0) = uses_of n xs"
  unfolding uses_of_def by (rule count_if_drop_nth)

lemma uses_of_pos: "(n, x) \<in> set xs \<Longrightarrow> 0 < uses_of n xs"
proof -
  assume "(n, x) \<in> set xs"
  then have "\<exists>y \<in> set xs. fst y = n" by (intro bexI [of _ "(n, x)"]) simp_all
  then have "count_if (\<lambda>x. fst x = n) xs \<noteq> 0" unfolding count_if_zero by blast
  then show ?thesis by (simp add: uses_of_def)
qed

text \<open>All calls that name the same object pass the same bound.\<close>

fun op_bound :: "size_t \<Rightarrow> use_op \<Rightarrow> bool" where
  "op_bound mx (Open m name) = (m \<le> mx)"
| "op_bound mx (Close k) = True"

lemma use_open_ok:
  assumes M: "shm_ok M" and nt: "never_throws M" and ok: "users_ok M mx u" and b: "op_bound mx (Open m name)"
  shows "users_ok M mx (use_step M (Open m name) u)"
proof -
  obtain r h where run: "find_or_create_shared_object M m name (us_heap u) = (r, h)" by fastforce
  note e = open_effect [OF M run]
  have mono: "\<And>n. has_mutex M (us_heap u) n \<Longrightarrow> has_mutex M h n" using e by blast
  show ?thesis
  proof (cases r)
    case None
    then have "use_count M h = use_count M (us_heap u)" "the_object M h = the_object M (us_heap u)"
      using e by simp_all
    then show ?thesis using ok run None mono by (simp add: users_ok_def)
  next
    case (Some ro)
    have lt: "use_count M (us_heap u) name < unat mx"
      using e Some b by (auto simp: word_le_nat_alt)
    have hm: "has_mutex M h name" using e Some by simp
    have same: "\<And>obj. the_object M (us_heap u) name = Some obj \<Longrightarrow> ro = Some obj" using e Some by simp
    have uc: "use_count M h = (use_count M (us_heap u))(name := Suc (use_count M (us_heap u) name))"
      using e Some nt by (cases ro) (auto simp: never_throws_def)
    have obj: "the_object M h = (case ro of Some x \<Rightarrow> (the_object M (us_heap u))(name := Some x)
        | None \<Rightarrow> the_object M (us_heap u))"
      using e Some by (cases ro) auto
    have st: "use_step M (Open m name) u = u\<lparr>us_heap := h, us_held := us_held u @ [(name, ro)]\<rparr>"
      using run Some by simp
    have keep: "the_object M h n = Some x" if "(n, Some x) \<in> set (us_held u @ [(name, ro)])" for n x
    proof (cases "(n, Some x) \<in> set (us_held u)")
      case True
      then have old: "the_object M (us_heap u) n = Some x" using ok by (simp add: users_ok_def)
      then show ?thesis using same obj by (cases "n = name") (auto split: option.splits)
    next
      case False
      then have "n = name" "ro = Some x" using that by auto
      then show ?thesis using obj by simp
    qed
    have objs: "the_object M h n \<noteq> None \<longrightarrow> 0 < uses_of n (us_held u @ [(name, ro)])" for n
      using ok obj by (auto simp: users_ok_def split: option.splits if_splits)
    show ?thesis
      unfolding users_ok_def st using ok uc lt hm mono keep objs
      by (auto simp: users_ok_def)
  qed
qed

lemma use_close_ok:
  assumes M: "shm_ok M" and ok: "users_ok M mx u"
  shows "users_ok M mx (use_step M (Close k) u)"
proof (cases "k < length (us_held u)")
  case False
  then show ?thesis using ok by simp
next
  case True
  let ?name = "fst (us_held u ! k)" and ?held = "drop_nth k (us_held u)"
  let ?h = "destroy_shared_object M ?name (us_heap u)"
  have pos: "0 < uses_of ?name (us_held u)"
    using uses_of_pos [of ?name "snd (us_held u ! k)"] True by simp
  have cnt: "\<And>n. use_count M (us_heap u) n = uses_of n (us_held u)"
    and hm: "\<And>n. 0 < uses_of n (us_held u) \<Longrightarrow> has_mutex M (us_heap u) n"
    using ok by (simp_all add: users_ok_def)
  have "0 < use_count M (us_heap u) ?name" using pos cnt by simp
  from close_effect [OF M hm [OF pos] this] have
    e: "use_count M ?h = (use_count M (us_heap u))(?name := use_count M (us_heap u) ?name - 1)"
       "the_object M ?h = (if uses_of ?name (us_held u) = 1 then (the_object M (us_heap u))(?name := None)
          else the_object M (us_heap u))"
       "\<And>n. has_mutex M (us_heap u) n \<Longrightarrow> has_mutex M ?h n"
    using cnt by simp_all
  have drop: "uses_of n ?held = uses_of n (us_held u) - (if ?name = n then 1 else 0)" for n
    using uses_of_drop [OF True, of n] by simp
  have keep: "the_object M ?h n = Some x" if "(n, Some x) \<in> set ?held" for n x
  proof -
    have "(n, Some x) \<in> set (us_held u)" using that set_drop_nth_subset [of k "us_held u"] by blast
    then have old: "the_object M (us_heap u) n = Some x" using ok by (simp add: users_ok_def)
    have "0 < uses_of n ?held" using that by (rule uses_of_pos)
    then show ?thesis using old e(2) drop [of n] by auto
  qed
  have objs: "the_object M ?h n \<noteq> None \<longrightarrow> 0 < uses_of n ?held" for n
    using ok e(2) drop [of n] by (auto simp: users_ok_def split: if_splits)
  have bound: "uses_of n (us_held u) \<le> unat mx" for n using ok by (simp add: users_ok_def)
  have le: "uses_of n ?held \<le> unat mx \<and> (0 < uses_of n ?held \<longrightarrow> has_mutex M ?h n)
      \<and> use_count M ?h n = uses_of n ?held" for n
    using cnt [of n] hm [of n] bound [of n] e(1,3) drop [of n] by auto
  show ?thesis
    using True keep objs le by (simp add: users_ok_def)
qed

lemma use_step_ok:
  assumes "shm_ok M" and "never_throws M" and "users_ok M mx u" and "op_bound mx a"
  shows "users_ok M mx (use_step M a u)"
  using assms use_open_ok use_close_ok by (cases a) (simp_all del: use_step.simps)

section \<open>Properties of shared objects\<close>


text \<open>
  A segment for the examples, with one script of what the next constructions do.
\<close>

type_synonym script_shm = "(string \<Rightarrow> bool) \<times> (string \<Rightarrow> size_t option) \<times> (string \<Rightarrow> nat option) \<times> nat construction list"

definition script_segment :: "(script_shm, nat) shm" where
  "script_segment =
     \<lparr>find_or_construct_mutex = (\<lambda>n (m, c, ob, sc). (True, (m(n := True), c, ob, sc))),
      find_or_construct_counter = (\<lambda>n (m, c, ob, sc).
        (True, (m, if c n = None then c(n \<mapsto> 0) else c, ob, sc))),
      read_counter = (\<lambda>n (m, c, ob, sc). case c n of None \<Rightarrow> 0 | Some x \<Rightarrow> x),
      write_counter = (\<lambda>n x (m, c, ob, sc). (m, c(n \<mapsto> x), ob, sc)),
      find_or_construct_object = (\<lambda>n (m, c, ob, sc).
        case ob n of
          Some x \<Rightarrow> (Constructed x, (m, c, ob, sc))
        | None \<Rightarrow> (case sc of
                     [] \<Rightarrow> (No_memory, (m, c, ob, sc))
                   | r # rs \<Rightarrow> (r, (m, c, case r of Constructed x \<Rightarrow> ob(n \<mapsto> x) | _ \<Rightarrow> ob, rs)))),
      destroy_object = (\<lambda>n (m, c, ob, sc). (m, c, ob(n := None), sc)),
      shm_mutexes = (\<lambda>(m, c, ob, sc). m),
      shm_counters = (\<lambda>(m, c, ob, sc). c),
      shm_objects = (\<lambda>(m, c, ob, sc). ob)\<rparr>"

lemma script_segment_ok: "shm_ok script_segment"
  by (auto simp: shm_ok_def mutex_law_def counter_law_def object_law_def script_segment_def fun_eq_iff
      split: option.splits list.splits construction.splits)

text \<open>The same segment with a constructor that does not throw: an empty script finds no memory.\<close>

definition calm_segment :: "(script_shm, nat) shm" where
  "calm_segment = script_segment\<lparr>find_or_construct_object := (\<lambda>n (m, c, ob, sc).
     case ob n of
       Some x \<Rightarrow> (Constructed x, (m, c, ob, sc))
     | None \<Rightarrow> (Constructed 0, (m, c, ob(n \<mapsto> 0), sc)))\<rparr>"

lemma calm_segment_ok: "shm_ok calm_segment" "never_throws calm_segment"
  by (auto simp: shm_ok_def mutex_law_def counter_law_def object_law_def script_segment_def calm_segment_def
      never_throws_def fun_eq_iff split: option.splits list.splits construction.splits)


text \<open>
  A constructor that throws breaks the count: the pointer returned then is null and was not counted,
  but its deleter still runs. Process 1 opens (the constructor throws), process 2 opens and constructs
  the object, process 1 drops its null pointer - and the object of process 2 is destroyed under it.
\<close>

lemma failed_construction_destroys_live_object:
  "let u = fold (use_step script_segment) [Open 10 ''pool'', Open 10 ''pool'', Close 0]
       \<lparr>us_heap = ((\<lambda>_. False), Map.empty, Map.empty, [Threw, Constructed 7]), us_held = []\<rparr>
   in us_held u = [(''pool'', Some 7)] \<and> the_object script_segment (us_heap u) ''pool'' = None"
  by (simp add: script_segment_def find_or_create_shared_object_def destroy_shared_object_def
      the_object_def drop_nth_def Let_def)

section \<open>Properties of the mapping\<close>

datatype map_op = Attach | Detach

text \<open>The mapping as the system knows it, and the number of users whose call returned a segment.\<close>

fun map_step :: "('h, 'o) shm \<Rightarrow> 'h \<Rightarrow> string \<Rightarrow> map_op \<Rightarrow> 'h option \<times> nat \<Rightarrow> 'h option \<times> nat" where
  "map_step M fresh name Attach (mapping, users) =
     (case open_or_create_mapping M fresh name mapping of
        (got, mapping') \<Rightarrow> (mapping', if got then users + 1 else users))"
| "map_step M fresh name Detach (mapping, users) =
     (case mapping of
        None \<Rightarrow> (mapping, users)
      | Some h \<Rightarrow> if 0 < users then (close_mapping M name h, users - 1) else (mapping, users))"

definition map_count :: "('h, 'o) shm \<Rightarrow> string \<Rightarrow> 'h \<Rightarrow> nat" where
  "map_count M name h = (case shm_counters M h (GetMappingCounterName name) of None \<Rightarrow> 0 | Some c \<Rightarrow> unat c)"

definition map_mutex :: "('h, 'o) shm \<Rightarrow> string \<Rightarrow> 'h \<Rightarrow> bool" where
  "map_mutex M name h = shm_mutexes M h (GetMappingMutexName name)"

lemma map_mutexD:
  assumes "shm_ok M" and "find_or_construct_mutex M (GetMappingMutexName name) h = (found, h')"
  shows "map_count M name h' = map_count M name h" and "map_mutex M name h' = found"
    and "map_mutex M name h \<Longrightarrow> found"
proof -
  have law: "mutex_law M" using assms(1) by (simp add: shm_ok_def)
  from law [unfolded mutex_law_def, THEN spec, THEN spec, of "GetMappingMutexName name" h] assms(2)
  show "map_count M name h' = map_count M name h" "map_mutex M name h' = found" "map_mutex M name h \<Longrightarrow> found"
    by (simp_all add: map_count_def map_mutex_def)
qed

lemma map_counterD:
  assumes "shm_ok M" and "find_or_construct_counter M (GetMappingCounterName name) h = (found, h')"
  shows "map_count M name h' = map_count M name h" and "map_mutex M name h' = map_mutex M name h"
    and "0 < map_count M name h \<Longrightarrow> found"
    and "found \<Longrightarrow> unat (read_counter M (GetMappingCounterName name) h') = map_count M name h"
proof -
  have law: "counter_law M" using assms(1) by (simp add: shm_ok_def)
  from conjunct1 [OF law [unfolded counter_law_def], THEN spec, THEN spec, of "GetMappingCounterName name" h] assms(2)
  have l: "shm_mutexes M h' = shm_mutexes M h"
    "shm_counters M h' = (if found \<and> shm_counters M h (GetMappingCounterName name) = None
       then (shm_counters M h)(GetMappingCounterName name \<mapsto> 0) else shm_counters M h)"
    "shm_counters M h (GetMappingCounterName name) \<noteq> None \<longrightarrow> found" by simp_all
  have rd: "shm_counters M h' n = Some c \<Longrightarrow> read_counter M n h' = c" for n c
    using law by (simp add: counter_law_def)
  show "map_count M name h' = map_count M name h" "map_mutex M name h' = map_mutex M name h"
    using l by (simp_all add: map_count_def map_mutex_def)
  show found if "0 < map_count M name h"
    using that l(3) by (auto simp: map_count_def split: option.splits)
  show "unat (read_counter M (GetMappingCounterName name) h') = map_count M name h" if found
    using that l(2) rd [of "GetMappingCounterName name"] by (auto simp: map_count_def split: if_splits option.splits)
qed

lemma map_writeD:
  assumes "shm_ok M"
  shows "map_count M name (write_counter M (GetMappingCounterName name) c h) = unat c"
    and "map_mutex M name (write_counter M n c h) = map_mutex M name h"
  using assms by (simp_all add: shm_ok_def counter_law_def map_count_def map_mutex_def)

lemma remove_mapping_effect:
  assumes M: "shm_ok M" and run: "remove_mapping M name h = (rm, h')"
  shows "map_mutex M name h \<Longrightarrow> 0 < map_count M name h \<Longrightarrow>
       rm = (map_count M name h = 1) \<and> map_count M name h' = map_count M name h - 1 \<and> map_mutex M name h'"
    and "map_count M name h = 0 \<Longrightarrow> \<not> rm \<and> map_count M name h' = 0"
proof -
  obtain fm h1 where m: "find_or_construct_mutex M (GetMappingMutexName name) h = (fm, h1)" by fastforce
  obtain fc h2 where c: "find_or_construct_counter M (GetMappingCounterName name) h1 = (fc, h2)" by fastforce
  note m' = map_mutexD [OF M m] and c' = map_counterD [OF M c]
  let ?c = "read_counter M (GetMappingCounterName name) h2"
  let ?w = "write_counter M (GetMappingCounterName name) (?c - 1) h2"
  have res: "(rm, h') = (if \<not> fm then (False, h1) else if \<not> fc then (False, h2)
      else (?c = 1, if 0 < ?c then ?w else h2))"
    using run m c by (simp add: remove_mapping_def Let_def split: if_splits)
  have uc: "fc \<Longrightarrow> unat ?c = map_count M name h" using c'(4) m'(1) by simp
  show "rm = (map_count M name h = 1) \<and> map_count M name h' = map_count M name h - 1 \<and> map_mutex M name h'"
    if "map_mutex M name h" "0 < map_count M name h"
  proof -
    have f: fm fc using that m'(1,3) c'(3) by simp_all
    then have pos: "0 < ?c" using uc that(2) by (simp add: word_less_nat_alt)
    then have "unat (?c - 1) = unat ?c - 1"
      by (subst unat_sub) (simp_all add: word_le_nat_alt word_less_nat_alt)
    moreover have "(?c = 1) = (map_count M name h = 1)" using uc [OF f(2)] by (metis unat_1 word_unat_eq_iff)
    ultimately show ?thesis
      using res f pos uc [OF f(2)] map_writeD [OF M] c'(2) m'(2) by simp
  qed
  show "\<not> rm \<and> map_count M name h' = 0" if "map_count M name h = 0"
  proof (cases "fm \<and> fc")
    case False
    then show ?thesis using res that m'(1) c'(1) by (auto split: if_splits)
  next
    case True
    then have "?c = 0" using uc that by (simp add: unat_eq_zero)
    then show ?thesis using res True that m'(1) c'(1) by simp
  qed
qed

definition mapping_ok :: "('h, 'o) shm \<Rightarrow> string \<Rightarrow> 'h option \<times> nat \<Rightarrow> bool" where
  "mapping_ok M name y \<longleftrightarrow>
     (snd y = 0 \<longrightarrow> (\<forall>h. fst y = Some h \<longrightarrow> map_count M name h = 0))
   \<and> (0 < snd y \<longrightarrow> (\<exists>h. fst y = Some h \<and> map_count M name h = snd y \<and> map_mutex M name h))"

lemma map_detach:
  assumes "shm_ok M" and "0 < users" and "map_count M name h = users" and "map_mutex M name h"
  shows "map_step M fresh name Detach (Some h, users) =
      (if users = 1 then None else Some (snd (remove_mapping M name h)), users - 1)"
  using remove_mapping_effect(1) [OF assms(1), of name h] assms(2-4)
  by (cases "remove_mapping M name h") (simp add: close_mapping_def Let_def)

lemma close_unused:
  assumes "shm_ok M" and "map_count M name h = 0"
  shows "close_mapping M name h = Some (snd (remove_mapping M name h))"
    and "map_count M name (snd (remove_mapping M name h)) = 0"
  using remove_mapping_effect(2) [OF assms(1), of name h] assms(2)
  by (cases "remove_mapping M name h"; simp add: close_mapping_def Let_def)+

lemma map_step_ok:
  assumes "shm_ok M" and "shm_counters M fresh = (\<lambda>_. None)"
    and y: "mapping_ok M name y" and small: "snd y + 1 < 2 ^ 64"
  shows "mapping_ok M name (map_step M fresh name a y) \<and> snd (map_step M fresh name a y) \<le> Suc (snd y)"
proof -
  obtain mp us where mu: "y = (mp, us)" by fastforce
  show ?thesis
  proof (cases a)
    case Attach
    define h where "h = (case mp of None \<Rightarrow> fresh | Some h \<Rightarrow> h)"
    have us: "map_count M name h = us" "0 < us \<Longrightarrow> map_mutex M name h"
      using y assms(2) by (auto simp: mapping_ok_def mu h_def map_count_def split: option.splits)
    obtain fm h1 where m: "find_or_construct_mutex M (GetMappingMutexName name) h = (fm, h1)" by fastforce
    obtain fc h2 where c: "find_or_construct_counter M (GetMappingCounterName name) h1 = (fc, h2)" by fastforce
    note m' = map_mutexD [OF assms(1) m] and c' = map_counterD [OF assms(1) c]
    show ?thesis
    proof (cases "fm \<and> fc")
      case True
      let ?c = "read_counter M (GetMappingCounterName name) h2"
      have uc: "unat ?c = us" using True c'(4) m'(1) us(1) by simp
      have "unat (?c + 1) = us + 1"
        using small uc mu unat_add_lt [of ?c 1] by simp
      then show ?thesis
        using True m c c'(2) m'(2) map_writeD [OF assms(1)]
        by (simp add: Attach mu mapping_ok_def open_or_create_mapping_def h_def [symmetric] Let_def)
    next
      case False
      then have "us = 0" using us m'(1,3) c'(3) by (cases "us = 0") auto
      then have cnt0: "map_count M name h1 = 0" "map_count M name h2 = 0" using us(1) m'(1) c'(1) by simp_all
      show ?thesis
        using False m c close_unused [OF assms(1) cnt0(1)] close_unused [OF assms(1) cnt0(2)] \<open>us = 0\<close>
        by (cases fm) (simp_all add: Attach mu mapping_ok_def open_or_create_mapping_def h_def [symmetric] Let_def)
    qed
  next
    case Detach
    show ?thesis
    proof (cases "us = 0")
      case True
      then show ?thesis using y by (auto simp: Detach mu split: option.splits)
    next
      case False
      then obtain h where h: "mp = Some h" "map_count M name h = us" "map_mutex M name h"
        using y by (auto simp: mapping_ok_def mu)
      have pos: "0 < us" using False by simp
      have "map_step M fresh name a y =
          (if us = 1 then None else Some (snd (remove_mapping M name h)), us - 1)"
        using map_detach [OF assms(1) pos h(2,3)] h by (simp add: Detach mu)
      moreover obtain rm h' where "remove_mapping M name h = (rm, h')" by fastforce
      ultimately show ?thesis
        using remove_mapping_effect(1) [OF assms(1), of name h rm h'] h(2,3) pos mu by (auto simp: mapping_ok_def)
    qed
  qed
qed

text \<open>
  The segment lives as long as it has users: processes that attach to it and let go of it, one call
  at a time, never lose it while one of them uses it, and the name is removed from the system by the one
  that lets go last. (Fewer than \<open>2 ^ 64\<close> users.)
\<close>

lemma mapping_lives_while_used:
  assumes "shm_ok M" and "shm_counters M fresh = (\<lambda>_. None)"
    and "length ops < 2 ^ 64"
    and "fold (map_step M fresh name) ops (None, 0) = (mapping, users)"
  shows "(0 < users \<longrightarrow> (\<exists>h. mapping = Some h \<and> map_count M name h = users))
     \<and> (users = 1 \<longrightarrow> fst (map_step M fresh name Detach (mapping, users)) = None)"
proof -
  have run: "mapping_ok M name (fold (map_step M fresh name) os y)"
    if "mapping_ok M name y" "snd y + length os < 2 ^ 64" for os y
    using that
  proof (induction os arbitrary: y)
    case Nil
    then show ?case by simp
  next
    case (Cons a os)
    then have s: "mapping_ok M name (map_step M fresh name a y)" "snd (map_step M fresh name a y) \<le> Suc (snd y)"
      using map_step_ok [OF assms(1,2), of name y a] by simp_all
    then have "snd (map_step M fresh name a y) + length os < 2 ^ 64" using Cons.prems(2) by simp
    from Cons.IH [OF s(1) this] show ?case by simp
  qed
  have "mapping_ok M name (mapping, users)" using run [of "(None, 0)" ops] assms(3,4) by (simp add: mapping_ok_def)
  then show ?thesis
    using map_detach [OF assms(1), where users = 1 and name = name and fresh = fresh] by (auto simp: mapping_ok_def)
qed

lemma mapping_lives_while_used_witness:
  "\<exists>mapping users. fold (map_step calm_segment ((\<lambda>_. False), Map.empty, Map.empty, []) ''m'') [Attach, Attach, Detach] (None, 0)
      = (mapping, users) \<and> users = 1
     \<and> fst (map_step calm_segment ((\<lambda>_. False), Map.empty, Map.empty, []) ''m'' Detach (mapping, users)) = None"
proof -
  let ?f = "((\<lambda>_. False), Map.empty, Map.empty, []) :: script_shm"
  obtain mp us where f: "fold (map_step calm_segment ?f ''m'') [Attach, Attach, Detach] (None, 0) = (mp, us)"
    by fastforce
  then have "us = 1"
    by (auto simp: calm_segment_def script_segment_def open_or_create_mapping_def close_mapping_def
        remove_mapping_def Let_def)
  with mapping_lives_while_used [OF calm_segment_ok(1) _ _ f] f show ?thesis
    by (simp add: calm_segment_def script_segment_def)
qed

end
