(* ===== verification/Shared_Removal.thy ===== *)
theory Shared_Removal
  imports Shared_Objects
begin

text \<open>
  \<^verbatim>\<open>MempoolIPC/src/UtilsIPC.h\<close>, \<open>RemoveSharedMemoryNuclear\<close>: a process that ends without giving its mapping back leaves
  the count of users too high, so that the segment is never removed by the others; the file of the segment is
  removed by hand then.
\<close>

section \<open>Removing the file of a segment\<close>

text \<open>The segments of the system, by the names of their files.\<close>

type_synonym 'h segment_files = "string \<Rightarrow> 'h option"

definition shm_file :: "string \<Rightarrow> string" where
  "shm_file name = ''/dev/shm/'' @ GetMappingName name"

text \<open>
  On Linux. \<open>unlink\<close>: what removing an existing file does, \<^const>\<open>None\<close> when \<open>boost::filesystem::remove\<close> throws. The
  result: whether there was an error. \<open>linux\<close>: the system it is compiled for; the others are not supported.
\<close>

definition RemoveSharedMemoryNuclear ::
  "bool \<Rightarrow> (string \<Rightarrow> bool option) \<Rightarrow> string \<Rightarrow> 'h segment_files \<Rightarrow> (bool \<times> 'h segment_files) result" where
  "RemoveSharedMemoryNuclear linux unlink name fs =
     (if \<not> linux then Inr (True, fs)
      else case fs (shm_file name) of
             None \<Rightarrow> Inr (False, fs)
           | Some h \<Rightarrow>
               (case unlink (shm_file name) of
                  None \<Rightarrow> Inl System_error
                | Some removed \<Rightarrow> Inr (\<not> removed, if removed then fs(shm_file name := None) else fs)))"

lemma shm_file_inject [simp]: "shm_file a = shm_file b \<longleftrightarrow> a = b"
  by (simp add: shm_file_def GetMappingName_def)

text \<open>Without an error the segment is gone, and no other segment is touched in any case.\<close>

lemma nuclear_removes_its_segment:
  assumes "RemoveSharedMemoryNuclear linux unlink name fs = Inr (had_error, fs')"
  shows "\<not> had_error \<Longrightarrow> fs' (shm_file name) = None" and "other \<noteq> name \<Longrightarrow> fs' (shm_file other) = fs (shm_file other)"
    and "had_error \<Longrightarrow> fs' = fs"
  using assms by (auto simp: RemoveSharedMemoryNuclear_def split: if_splits option.splits)

section \<open>A process that crashes\<close>

text \<open>A crash takes a user away whose deleter does not run: \<open>u\<close> users are left of a mapping that counts more.\<close>

lemma detach_keeps_counted:
  assumes M: "shm_ok M" and "map_mutex M name h" and "1 < map_count M name h"
  shows "\<exists>h'. close_mapping M name h = Some h' \<and> map_mutex M name h' \<and> map_count M name h' = map_count M name h - 1"
proof -
  obtain rm h' where r: "remove_mapping M name h = (rm, h')" by fastforce
  from remove_mapping_effect(1) [OF M r assms(2)] assms(3) r show ?thesis by (simp add: close_mapping_def)
qed

lemma crash_keeps_segment:
  assumes M: "shm_ok M" and "map_mutex M name h" and "u < map_count M name h"
  shows "\<exists>h'. fold (map_step M fresh name) (replicate u Detach) (Some h, u) = (Some h', 0)
     \<and> map_mutex M name h' \<and> map_count M name h' = map_count M name h - u"
  using assms(2,3)
proof (induction u arbitrary: h)
  case 0
  then show ?case by simp
next
  case (Suc u)
  from detach_keeps_counted [OF M Suc.prems(1)] Suc.prems(2) obtain h1 where
    h1: "close_mapping M name h = Some h1" "map_mutex M name h1" "map_count M name h1 = map_count M name h - 1" by auto
  have "u < map_count M name h1" using h1(3) Suc.prems(2) by simp
  from Suc.IH [OF h1(2) this] obtain h' where
    h': "fold (map_step M fresh name) (replicate u Detach) (Some h1, u) = (Some h', 0)"
    "map_mutex M name h'" "map_count M name h' = map_count M name h1 - u" by blast
  have "fold (map_step M fresh name) (replicate (Suc u) Detach) (Some h, Suc u) =
      fold (map_step M fresh name) (replicate u Detach) (Some h1, u)"
    using h1(1) by (simp del: fold_replicate)
  moreover have "map_count M name h1 - u = map_count M name h - Suc u" using h1(3) by simp
  ultimately show ?case using h' by metis
qed

text \<open>
  What the removal is for: however many processes have crashed, after it the next one gets a fresh segment, in which nothing of the
  old one is left, and its count starts at one.
\<close>

lemma nuclear_starts_afresh:
  assumes M: "shm_ok M" and fresh: "map_count M name fresh = 0"
    and rm: "RemoveSharedMemoryNuclear linux unlink name fs = Inr (False, fs')"
    and open1: "open_or_create_mapping M fresh name (fs' (shm_file name)) = (True, Some h)"
  shows "map_count M name h = 1 \<and> open_or_create_mapping M fresh name None = (True, Some h)"
proof -
  have none: "fs' (shm_file name) = None" using nuclear_removes_its_segment(1) [OF rm] by simp
  obtain fm h1 where m: "find_or_construct_mutex M (GetMappingMutexName name) fresh = (fm, h1)" by fastforce
  obtain fc h2 where c: "find_or_construct_counter M (GetMappingCounterName name) h1 = (fc, h2)" by fastforce
  note run = open1 [unfolded none]
  have f: "fm" "fc" "h = write_counter M (GetMappingCounterName name) (read_counter M (GetMappingCounterName name) h2 + 1) h2"
    using run m c by (auto simp: open_or_create_mapping_def Let_def split: if_splits)
  have "unat (read_counter M (GetMappingCounterName name) h2) = 0"
    using map_counterD(4) [OF M c f(2)] map_mutexD(1) [OF M m] fresh by simp
  then have "read_counter M (GetMappingCounterName name) h2 = 0" by (simp add: unat_eq_0)
  then show ?thesis using run none map_writeD(1) [OF M] by (simp add: f(3))
qed

end
