(* ===== verification/Process_Sharing.thy ===== *)
theory Process_Sharing
  imports Shared_Removal
begin

text \<open>
  Processes that share a segment by its name, as the programs of \<^verbatim>\<open>MempoolIPC/examples\<close> and
  \<^verbatim>\<open>Networking/examples\<close> do: each opens the mapping (\<open>open_or_create_mapping\<close>), finds or creates the named objects it needs,
  works, and gives everything back in the reverse order. \<open>Shared_Objects\<close> takes each of the two calls on a mapping as one
  step; here they are cut where other processes can come between: a segment is mapped before it is counted, and
  its count is given up before its name is removed.
\<close>

section \<open>The steps of a call\<close>

text \<open>\<open>open_or_create_mapping\<close> after the segment is mapped: whether the process has been counted.\<close>

definition count_user :: "('h, 'o) shm \<Rightarrow> string \<Rightarrow> 'h \<Rightarrow> bool \<times> 'h" where
  "count_user M name h =
     (let (found_mutex, h1) = find_or_construct_mutex M (GetMappingMutexName name) h
      in if \<not> found_mutex then (False, h1)
         else
           let (found_counter, h2) = find_or_construct_counter M (GetMappingCounterName name) h1 in
           if \<not> found_counter then (False, h2)
           else
             let counter = read_counter M (GetMappingCounterName name) h2 in
             (True, write_counter M (GetMappingCounterName name) (counter + 1) h2))"

lemma open_or_create_mapping_steps:
  "open_or_create_mapping M fresh name mapping =
     (case count_user M name (case mapping of None \<Rightarrow> fresh | Some h \<Rightarrow> h) of
        (True, h) \<Rightarrow> (True, Some h)
      | (False, h) \<Rightarrow> (False, close_mapping M name h))"
  by (simp add: open_or_create_mapping_def count_user_def Let_def split: prod.split)

section \<open>Programs and processes\<close>

text \<open>
  The names of the objects a program needs, in the order in which it asks for them, and for each whether the program
  looks at the pointer before it uses it. A pointer a process holds: \<^const>\<open>None\<close> is empty, and so is what it would give back.
\<close>

type_synonym program = "(string \<times> bool) list"

type_synonym 'o pointers = "(string \<times> 'o option option) list"

text \<open>
  Between the calls. \<open>Uncounting\<close> and \<open>Removing\<close> are in the deleter of the mapping; their flag is false when the mapping
  could not be opened, so that the program goes on with a null pointer, which it dereferences before it looks at it.
\<close>

datatype 'o proc_pc =
    Opening
  | Counting nat
  | Finding nat "'o pointers"
  | Working nat "'o pointers"
  | Releasing nat "'o pointers"
  | Uncounting nat bool
  | Removing bool
  | Over bool
  | Crashed nat "'o pointers"

fun is_null :: "'o option option \<Rightarrow> bool" where
  "is_null (Some (Some obj)) \<longleftrightarrow> False"
| "is_null _ \<longleftrightarrow> True"

text \<open>After the objects have been asked for: a null pointer that was checked ends the program, another one kills it.\<close>

definition after_finding :: "program \<Rightarrow> nat \<Rightarrow> 'o pointers \<Rightarrow> 'o proc_pc" where
  "after_finding pg k held =
     (if \<exists>(p, x) \<in> set (zip pg held). snd p \<and> is_null (snd x) then Releasing k held
      else if \<exists>x \<in> set held. is_null (snd x) then Crashed k held
      else Working k held)"

text \<open>\<open>segs\<close>: all segments there ever were, \<open>file\<close>: the one that has the name.\<close>

fun process_step ::
  "('h, 'o) shm \<Rightarrow> 'h \<Rightarrow> string \<Rightarrow> program \<Rightarrow> 'h list \<Rightarrow> nat option \<Rightarrow> 'o proc_pc
   \<Rightarrow> ('h list \<times> nat option \<times> 'o proc_pc) option" where
  "process_step M fresh name pg segs file Opening =
     Some (case file of
        None \<Rightarrow> (segs @ [fresh], Some (length segs), Counting (length segs))
      | Some k \<Rightarrow> (segs, file, Counting k))"
| "process_step M fresh name pg segs file (Counting k) =
     Some (case count_user M name (segs ! k) of
        (counted, h) \<Rightarrow> (segs[k := h], file, if counted then Finding k [] else Uncounting k False))"
| "process_step M fresh name pg segs file (Finding k held) =
     Some (if length held < length pg
       then let n = fst (pg ! length held) in
            case find_or_create_shared_object M (- 1) n (segs ! k) of
              (r, h) \<Rightarrow> (segs[k := h], file, Finding k (held @ [(n, r)]))
       else (segs, file, after_finding pg k held))"
| "process_step M fresh name pg segs file (Working k held) = Some (segs, file, Releasing k held)"
| "process_step M fresh name pg segs file (Releasing k held) =
     Some (case rev held of
        [] \<Rightarrow> (segs, file, Uncounting k True)
      | (n, r) # _ \<Rightarrow>
          (case r of None \<Rightarrow> segs | Some _ \<Rightarrow> segs[k := destroy_shared_object M n (segs ! k)],
           file, Releasing k (butlast held)))"
| "process_step M fresh name pg segs file (Uncounting k ok) =
     Some (case remove_mapping M name (segs ! k) of
        (shouldRemove, h) \<Rightarrow> (segs[k := h], file, if shouldRemove then Removing ok else Over ok))"
| "process_step M fresh name pg segs file (Removing ok) = Some (segs, None, Over ok)"
| "process_step M fresh name pg segs file _ = None"

record ('h, 'o) sharing =
  sh_segments :: "'h list"
  sh_file :: "nat option"
  sh_processes :: "(program \<times> 'o proc_pc) list"

text \<open>
  A process may be killed between its calls; and the system may refuse to map the segment, an exception that ends
  the program.
\<close>

fun mishap :: "'o proc_pc \<Rightarrow> 'o proc_pc option" where
  "mishap Opening = Some (Over True)"
| "mishap (Finding k held) = Some (Crashed k held)"
| "mishap (Working k held) = Some (Crashed k held)"
| "mishap (Releasing k held) = Some (Crashed k held)"
| "mishap _ = None"

inductive sharing_step :: "('h, 'o) shm \<Rightarrow> 'h \<Rightarrow> string \<Rightarrow> ('h, 'o) sharing \<Rightarrow> ('h, 'o) sharing \<Rightarrow> bool"
  for M :: "('h, 'o) shm" and fresh :: 'h and name :: string where
  launch: "sharing_step M fresh name y (y\<lparr>sh_processes := sh_processes y @ [(pg, Opening)]\<rparr>)"
| call: "i < length (sh_processes y) \<Longrightarrow> sh_processes y ! i = (pg, pc) \<Longrightarrow>
     process_step M fresh name pg (sh_segments y) (sh_file y) pc = Some (segs, file, pc') \<Longrightarrow>
     sharing_step M fresh name y \<lparr>sh_segments = segs, sh_file = file, sh_processes = (sh_processes y)[i := (pg, pc')]\<rparr>"
| accident: "i < length (sh_processes y) \<Longrightarrow> sh_processes y ! i = (pg, pc) \<Longrightarrow> mishap pc = Some pc' \<Longrightarrow>
     sharing_step M fresh name y (y\<lparr>sh_processes := (sh_processes y)[i := (pg, pc')]\<rparr>)"

inductive_cases sharing_stepE: "sharing_step M fresh name y y'"

definition nobody :: "('h, 'o) sharing" where
  "nobody = \<lparr>sh_segments = [], sh_file = None, sh_processes = []\<rparr>"

text \<open>What can be reached while a condition on the states holds.\<close>

inductive sharing_reachable ::
  "(('h, 'o) sharing \<Rightarrow> bool) \<Rightarrow> ('h, 'o) shm \<Rightarrow> 'h \<Rightarrow> string \<Rightarrow> ('h, 'o) sharing \<Rightarrow> bool"
  for P :: "('h, 'o) sharing \<Rightarrow> bool" and M :: "('h, 'o) shm" and fresh :: 'h and name :: string where
  start: "sharing_reachable P M fresh name nobody"
| step: "sharing_reachable P M fresh name y \<Longrightarrow> sharing_step M fresh name y y' \<Longrightarrow> P y' \<Longrightarrow>
     sharing_reachable P M fresh name y'"

text \<open>Whether a process is counted in a segment, whether it has mapped one, and the pointers it owns in it.\<close>

fun counted_in :: "nat \<Rightarrow> 'o proc_pc \<Rightarrow> bool" where
  "counted_in k (Finding j held) \<longleftrightarrow> j = k"
| "counted_in k (Working j held) \<longleftrightarrow> j = k"
| "counted_in k (Releasing j held) \<longleftrightarrow> j = k"
| "counted_in k (Uncounting j ok) \<longleftrightarrow> j = k \<and> ok"
| "counted_in k (Crashed j held) \<longleftrightarrow> j = k"
| "counted_in k _ \<longleftrightarrow> False"

definition own_pointers :: "'o pointers \<Rightarrow> (string \<times> 'o option) list" where
  "own_pointers held = [(fst x, the (snd x)). x \<leftarrow> held, snd x \<noteq> None]"

fun held_in :: "nat \<Rightarrow> 'o proc_pc \<Rightarrow> (string \<times> 'o option) list" where
  "held_in k (Finding j held) = (if j = k then own_pointers held else [])"
| "held_in k (Working j held) = (if j = k then own_pointers held else [])"
| "held_in k (Releasing j held) = (if j = k then own_pointers held else [])"
| "held_in k (Crashed j held) = (if j = k then own_pointers held else [])"
| "held_in k _ = []"

definition users_of :: "nat \<Rightarrow> ('h, 'o) sharing \<Rightarrow> nat" where
  "users_of k y = count_if (\<lambda>p. counted_in k (snd p)) (sh_processes y)"

definition holdings :: "nat \<Rightarrow> ('h, 'o) sharing \<Rightarrow> (string \<times> 'o option) list" where
  "holdings k y = concat (map (\<lambda>p. held_in k (snd p)) (sh_processes y))"

text \<open>No process is between mapping the segment and being counted while another is about to remove the name.\<close>

definition undisturbed :: "('h, 'o) sharing \<Rightarrow> bool" where
  "undisturbed y \<longleftrightarrow> \<not> ((\<exists>p \<in> set (sh_processes y). \<exists>ok. snd p = Removing ok)
     \<and> (\<exists>p \<in> set (sh_processes y). \<exists>k. snd p = Counting k))"

text \<open>The mutex and the counter of the mapping, the first things made in it, find room.\<close>

definition counter_fits :: "('h, 'o) shm \<Rightarrow> string \<Rightarrow> bool" where
  "counter_fits M name \<longleftrightarrow> (\<forall>h. fst (find_or_construct_mutex M (GetMappingMutexName name) h)
     \<and> fst (find_or_construct_counter M (GetMappingCounterName name) h))"

section \<open>Objects and the count of the mapping do not interfere\<close>

text \<open>Their names differ: \<open>names_never_clash\<close>.\<close>

lemma mapping_name_apart [simp]:
  "GetMappingMutexName a \<noteq> GetObjectMutexName b" "GetObjectMutexName b \<noteq> GetMappingMutexName a"
  "GetMappingCounterName a \<noteq> GetObjectCounterName b" "GetObjectCounterName b \<noteq> GetMappingCounterName a"
  by (simp_all add: name_defs)

definition same_objects :: "('h, 'o) shm \<Rightarrow> 'h \<Rightarrow> 'h \<Rightarrow> bool" where
  "same_objects M h h' \<longleftrightarrow> use_count M h' = use_count M h \<and> the_object M h' = the_object M h
     \<and> has_mutex M h' = has_mutex M h"

definition same_mapping :: "('h, 'o) shm \<Rightarrow> string \<Rightarrow> 'h \<Rightarrow> 'h \<Rightarrow> bool" where
  "same_mapping M name h h' \<longleftrightarrow> map_count M name h' = map_count M name h \<and> map_mutex M name h' = map_mutex M name h"

lemma same_objects_trans: "same_objects M h1 h2 \<Longrightarrow> same_objects M h2 h3 \<Longrightarrow> same_objects M h1 h3"
  by (simp add: same_objects_def)

lemma same_mapping_trans: "same_mapping M name h1 h2 \<Longrightarrow> same_mapping M name h2 h3 \<Longrightarrow> same_mapping M name h1 h3"
  by (simp add: same_mapping_def)

lemma mapping_calls_keep_objects:
  assumes "shm_ok M"
  shows "find_or_construct_mutex M (GetMappingMutexName name) h = (f, h') \<Longrightarrow> same_objects M h h'"
    and "find_or_construct_counter M (GetMappingCounterName name) h = (f, h') \<Longrightarrow> same_objects M h h'"
    and "same_objects M h (write_counter M (GetMappingCounterName name) c h)"
proof -
  have laws: "mutex_law M" "counter_law M" using assms by (simp_all add: shm_ok_def)
  show "find_or_construct_mutex M (GetMappingMutexName name) h = (f, h') \<Longrightarrow> same_objects M h h'"
    using laws(1) [unfolded mutex_law_def, THEN spec, THEN spec, of "GetMappingMutexName name" h]
    by (auto simp: same_objects_def use_count_def the_object_def has_mutex_def fun_eq_iff)
  show "find_or_construct_counter M (GetMappingCounterName name) h = (f, h') \<Longrightarrow> same_objects M h h'"
    using conjunct1 [OF laws(2) [unfolded counter_law_def], THEN spec, THEN spec, of "GetMappingCounterName name" h]
    by (auto simp: same_objects_def use_count_def the_object_def has_mutex_def fun_eq_iff)
  show "same_objects M h (write_counter M (GetMappingCounterName name) c h)"
    using laws(2) by (simp add: counter_law_def same_objects_def use_count_def the_object_def has_mutex_def fun_eq_iff)
qed

lemma object_calls_keep_mapping:
  assumes "shm_ok M"
  shows "find_or_construct_mutex M (GetObjectMutexName n) h = (f, h') \<Longrightarrow> same_mapping M name h h'"
    and "find_or_construct_counter M (GetObjectCounterName n) h = (f, h') \<Longrightarrow> same_mapping M name h h'"
    and "same_mapping M name h (write_counter M (GetObjectCounterName n) c h)"
    and "find_or_construct_object M o' h = (r, h') \<Longrightarrow> same_mapping M name h h'"
    and "same_mapping M name h (destroy_object M o' h)"
proof -
  have laws: "mutex_law M" "counter_law M" "object_law M" using assms by (simp_all add: shm_ok_def)
  show "find_or_construct_mutex M (GetObjectMutexName n) h = (f, h') \<Longrightarrow> same_mapping M name h h'"
    using laws(1) [unfolded mutex_law_def, THEN spec, THEN spec, of "GetObjectMutexName n" h]
    by (auto simp: same_mapping_def map_count_def map_mutex_def)
  show "find_or_construct_counter M (GetObjectCounterName n) h = (f, h') \<Longrightarrow> same_mapping M name h h'"
    using conjunct1 [OF laws(2) [unfolded counter_law_def], THEN spec, THEN spec, of "GetObjectCounterName n" h]
    by (auto simp: same_mapping_def map_count_def map_mutex_def)
  show "same_mapping M name h (write_counter M (GetObjectCounterName n) c h)"
    using laws(2) by (simp add: counter_law_def same_mapping_def map_count_def map_mutex_def)
  show "find_or_construct_object M o' h = (r, h') \<Longrightarrow> same_mapping M name h h'"
    using conjunct1 [OF laws(3) [unfolded object_law_def], THEN spec, THEN spec, of o' h]
    by (auto simp: same_mapping_def map_count_def map_mutex_def)
  show "same_mapping M name h (destroy_object M o' h)"
    using laws(3) by (simp add: object_law_def same_mapping_def map_count_def map_mutex_def)
qed

lemma remove_mapping_keeps_objects:
  assumes "shm_ok M" and "remove_mapping M name h = (rm, h')"
  shows "same_objects M h h'"
proof -
  obtain fm h1 where m: "find_or_construct_mutex M (GetMappingMutexName name) h = (fm, h1)" by fastforce
  obtain fc h2 where c: "find_or_construct_counter M (GetMappingCounterName name) h1 = (fc, h2)" by fastforce
  note k = mapping_calls_keep_objects [OF assms(1)]
  have s: "same_objects M h h1" "same_objects M h h2" using k(1) [OF m] k(2) [OF c] by (simp_all add: same_objects_def)
  then show ?thesis
    using assms(2) m c same_objects_trans [OF s(2) k(3)] by (auto simp: remove_mapping_def Let_def split: if_splits)
qed

lemma find_or_create_keeps_mapping:
  assumes "shm_ok M" and "find_or_create_shared_object M mx n h = (r, h')"
  shows "same_mapping M name h h'"
proof -
  obtain fm h1 where m: "find_or_construct_mutex M (GetObjectMutexName n) h = (fm, h1)" by fastforce
  obtain fc h2 where c: "find_or_construct_counter M (GetObjectCounterName n) h1 = (fc, h2)" by fastforce
  obtain ro h3 where ob: "find_or_construct_object M (GetObjectName n) h2 = (ro, h3)" by fastforce
  note k = object_calls_keep_mapping [OF assms(1)]
  have s: "same_mapping M name h h1" "same_mapping M name h h2" "same_mapping M name h h3"
    using k(1) [OF m, of name] k(2) [OF c, of name] k(4) [OF ob, of name] by (simp_all add: same_mapping_def)
  then show ?thesis
    using assms(2) m c ob same_mapping_trans [OF s(3) k(3)]
    by (auto simp: find_or_create_shared_object_def Let_def split: if_splits construction.splits)
qed

lemma destroy_keeps_mapping:
  assumes "shm_ok M"
  shows "same_mapping M name h (destroy_shared_object M n h)"
proof -
  obtain fm h1 where m: "find_or_construct_mutex M (GetObjectMutexName n) h = (fm, h1)" by fastforce
  obtain fc h2 where c: "find_or_construct_counter M (GetObjectCounterName n) h1 = (fc, h2)" by fastforce
  note k = object_calls_keep_mapping [OF assms(1)]
  have s: "same_mapping M name h h1" "same_mapping M name h h2"
    using k(1) [OF m, of name] k(2) [OF c, of name] by (simp_all add: same_mapping_def)
  show ?thesis
    using m c s same_mapping_trans [OF s(2) k(3)] same_mapping_trans [OF s(2) k(5)]
      same_mapping_trans [OF same_mapping_trans [OF s(2) k(3)] k(5)]
    by (simp add: destroy_shared_object_def Let_def)
qed

lemma count_user_effect:
  assumes M: "shm_ok M" and fits: "counter_fits M name" and run: "count_user M name h = (got, h')"
    and small: "map_count M name h + 1 < 2 ^ 64"
  shows "got" and "map_count M name h' = map_count M name h + 1" and "map_mutex M name h'" and "same_objects M h h'"
proof -
  obtain h1 where m: "find_or_construct_mutex M (GetMappingMutexName name) h = (True, h1)"
    using fits unfolding counter_fits_def by (metis prod.collapse)
  obtain h2 where c: "find_or_construct_counter M (GetMappingCounterName name) h1 = (True, h2)"
    using fits unfolding counter_fits_def by (metis prod.collapse)
  note m' = map_mutexD [OF M m] and c' = map_counterD [OF M c] and k = mapping_calls_keep_objects [OF M]
  let ?c = "read_counter M (GetMappingCounterName name) h2"
  have uc: "unat ?c = map_count M name h" using c'(4) m'(1) by simp
  have "unat ?c + unat (1 :: size_t) < 2 ^ 64" using small uc by simp
  then have inc: "unat (?c + 1) = map_count M name h + 1" using uc by (simp only: unat_add_lt unat_1)
  have res: "got" "h' = write_counter M (GetMappingCounterName name) (?c + 1) h2"
    using run m c by (simp_all add: count_user_def Let_def)
  show got by (rule res(1))
  show "map_count M name h' = map_count M name h + 1" "map_mutex M name h'"
    using res(2) inc map_writeD [OF M] c'(2) m'(2) by simp_all
  show "same_objects M h h'"
    using res(2) k(1) [OF m] k(2) [OF c] k(3) [of h2 name "?c + 1"] by (simp add: same_objects_def)
qed

section \<open>One segment\<close>

definition segment_inv :: "('h, 'o) shm \<Rightarrow> string \<Rightarrow> 'h \<Rightarrow> nat \<Rightarrow> (string \<times> 'o option) list \<Rightarrow> bool" where
  "segment_inv M name h users held \<longleftrightarrow> map_count M name h = users \<and> (0 < users \<longrightarrow> map_mutex M name h)
     \<and> users_ok M (- 1) \<lparr>us_heap = h, us_held = held\<rparr>"

lemma users_ok_mset:
  assumes "mset xs = mset ys"
  shows "users_ok M mx \<lparr>us_heap = h, us_held = xs\<rparr> = users_ok M mx \<lparr>us_heap = h, us_held = ys\<rparr>"
proof -
  have "uses_of n xs = uses_of n ys" for n using count_if_mset [OF assms] by (simp add: uses_of_def)
  moreover have "set xs = set ys" using assms by (rule mset_eq_setD)
  ultimately show ?thesis by (simp add: users_ok_def)
qed

lemma segment_inv_mset: "mset xs = mset ys \<Longrightarrow> segment_inv M name h u xs = segment_inv M name h u ys"
  by (simp add: segment_inv_def users_ok_mset [of xs ys])

lemma users_ok_same_objects:
  "same_objects M h h' \<Longrightarrow> users_ok M mx \<lparr>us_heap = h', us_held = xs\<rparr> = users_ok M mx \<lparr>us_heap = h, us_held = xs\<rparr>"
  by (simp add: users_ok_def same_objects_def)

lemma segment_fresh:
  assumes "shm_counters M fresh = (\<lambda>_. None)" and "shm_objects M fresh = (\<lambda>_. None)"
  shows "segment_inv M name fresh 0 []"
  using assms by (simp add: segment_inv_def map_count_def users_ok_def use_count_def the_object_def uses_of_def)

lemma segment_count:
  assumes M: "shm_ok M" "counter_fits M name" and "segment_inv M name h u xs" and "u + 1 < 2 ^ 64"
    and run: "count_user M name h = (got, h')"
  shows "got \<and> segment_inv M name h' (u + 1) xs"
proof -
  have small: "map_count M name h + 1 < 2 ^ 64" using assms(3,4) by (simp add: segment_inv_def)
  note e = count_user_effect [OF M run small]
  show ?thesis using e assms(3) users_ok_same_objects [OF e(4)] by (simp add: segment_inv_def)
qed

lemma segment_find:
  assumes M: "shm_ok M" "never_throws M" and inv: "segment_inv M name h u xs"
    and run: "find_or_create_shared_object M (- 1) n h = (r, h')"
  shows "segment_inv M name h' u (xs @ (case r of None \<Rightarrow> [] | Some x \<Rightarrow> [(n, x)]))"
proof -
  have "users_ok M (- 1) (use_step M (Open (- 1) n) \<lparr>us_heap = h, us_held = xs\<rparr>)"
    using inv by (intro use_open_ok [OF M]) (simp_all add: segment_inv_def)
  then show ?thesis
    using inv run find_or_create_keeps_mapping [OF M(1) run, of name]
    by (auto simp: segment_inv_def same_mapping_def split: option.splits)
qed

lemma segment_destroy:
  assumes M: "shm_ok M" and inv: "segment_inv M name h u (xs @ [(n, x)])"
  shows "segment_inv M name (destroy_shared_object M n h) u xs"
proof -
  have "users_ok M (- 1) (use_step M (Close (length xs)) \<lparr>us_heap = h, us_held = xs @ [(n, x)]\<rparr>)"
    using inv by (intro use_close_ok [OF M]) (simp add: segment_inv_def)
  then show ?thesis
    using inv destroy_keeps_mapping [OF M, of name h n]
    by (simp add: segment_inv_def same_mapping_def drop_nth_def)
qed

lemma segment_uncount:
  assumes M: "shm_ok M" and inv: "segment_inv M name h (u + 1) xs" and run: "remove_mapping M name h = (rm, h')"
  shows "segment_inv M name h' u xs \<and> rm = (u = 0)"
proof -
  have c: "map_mutex M name h" "0 < map_count M name h" "map_count M name h = u + 1"
    using inv by (simp_all add: segment_inv_def)
  show ?thesis
    using remove_mapping_effect(1) [OF M run c(1,2)] c(3) inv users_ok_same_objects [OF remove_mapping_keeps_objects [OF M run]]
    by (simp add: segment_inv_def)
qed

section \<open>One step of one process\<close>

fun in_segment :: "nat \<Rightarrow> 'o proc_pc \<Rightarrow> bool" where
  "in_segment k (Counting j) \<longleftrightarrow> j = k"
| "in_segment k (Uncounting j ok) \<longleftrightarrow> j = k"
| "in_segment k pc \<longleftrightarrow> counted_in k pc"

text \<open>A process that has not failed to open the mapping.\<close>

fun well_opened :: "'o proc_pc \<Rightarrow> bool" where
  "well_opened (Uncounting k ok) \<longleftrightarrow> ok"
| "well_opened (Removing ok) \<longleftrightarrow> ok"
| "well_opened (Over ok) \<longleftrightarrow> ok"
| "well_opened _ \<longleftrightarrow> True"

lemma own_pointers_simps [simp]:
  "own_pointers [] = []"
  "own_pointers (xs @ ys) = own_pointers xs @ own_pointers ys"
  "own_pointers ((n, r) # xs) = (case r of None \<Rightarrow> [] | Some x \<Rightarrow> [(n, x)]) @ own_pointers xs"
  by (simp_all add: own_pointers_def split: option.splits)

text \<open>
  The rest of the system has \<open>U k\<close> users in the segment \<open>k\<close> that own the pointers \<open>X k\<close>; a segment that does not exist
  yet has none.
\<close>

definition rest_ok ::
  "('h, 'o) shm \<Rightarrow> string \<Rightarrow> (nat \<Rightarrow> nat) \<Rightarrow> (nat \<Rightarrow> (string \<times> 'o option) list) \<Rightarrow> 'h list \<Rightarrow> 'o proc_pc \<Rightarrow> bool" where
  "rest_ok M name U X segs pc \<longleftrightarrow>
     (\<forall>k < length segs. segment_inv M name (segs ! k) (U k + (if counted_in k pc then 1 else 0)) (X k @ held_in k pc))
     \<and> (\<forall>k. length segs \<le> k \<longrightarrow> U k = 0 \<and> X k = []) \<and> (\<forall>k. in_segment k pc \<longrightarrow> k < length segs) \<and> well_opened pc"

text \<open>A step changes one segment at most.\<close>

lemma rest_ok_update:
  assumes "rest_ok M name U X segs pc" and "j < length segs"
    and "segment_inv M name h (U j + (if counted_in j pc' then 1 else 0)) (X j @ held_in j pc')"
    and "\<forall>k. k \<noteq> j \<longrightarrow> counted_in k pc' = counted_in k pc \<and> held_in k pc' = held_in k pc \<and> \<not> in_segment k pc'"
    and "well_opened pc'"
  shows "rest_ok M name U X (segs[j := h]) pc'"
  using assms by (fastforce simp: rest_ok_def nth_list_update)

lemma rest_ok_same:
  assumes "rest_ok M name U X segs pc" and "\<forall>k. counted_in k pc' = counted_in k pc \<and> held_in k pc' = held_in k pc"
    and "\<forall>k. in_segment k pc' \<longrightarrow> in_segment k pc" and "well_opened pc'"
  shows "rest_ok M name U X segs pc'"
  using assms by (simp add: rest_ok_def)

lemma after_finding_cases:
  "after_finding pg k held \<in> {Releasing k held, Crashed k held, Working k held}"
  by (simp add: after_finding_def)

lemma process_step_ok:
  assumes M: "shm_ok M" "never_throws M" "counter_fits M name"
    and fresh: "shm_counters M fresh = (\<lambda>_. None)" "shm_objects M fresh = (\<lambda>_. None)"
    and ok: "rest_ok M name U X segs pc" and nm: "\<forall>k. file = Some k \<longrightarrow> k < length segs"
    and small: "\<forall>k. U k + 1 < 2 ^ 64"
    and run: "process_step M fresh name pg segs file pc = Some (segs', file', pc')"
  shows "rest_ok M name U X segs' pc'"
proof (cases pc)
  case Opening
  show ?thesis
  proof (cases "file")
    case None
    then have r: "segs' = segs @ [fresh]" "pc' = Counting (length segs)" using run Opening by simp_all
    then show ?thesis
      using ok Opening segment_fresh [OF fresh, of name] by (auto simp: rest_ok_def nth_append less_Suc_eq)
  next
    case (Some k)
    then show ?thesis using run Opening ok nm by (auto simp: rest_ok_def)
  qed
next
  case (Counting k)
  obtain got h where c: "count_user M name (segs ! k) = (got, h)" by fastforce
  have k: "k < length segs" "segment_inv M name (segs ! k) (U k) (X k)" using ok Counting by (auto simp: rest_ok_def)
  have g: "got" "segment_inv M name h (U k + 1) (X k)" using segment_count [OF M(1,3) k(2) _ c] small by simp_all
  then have r: "segs' = segs[k := h]" "pc' = Finding k []" using run c Counting by simp_all
  show ?thesis unfolding r using g Counting by (intro rest_ok_update [OF ok k(1)]) simp_all
next
  case (Finding k held)
  have k: "k < length segs" "segment_inv M name (segs ! k) (U k + 1) (X k @ own_pointers held)"
    using ok Finding by (auto simp: rest_ok_def)
  show ?thesis
  proof (cases "length held < length pg")
    case True
    let ?n = "fst (pg ! length held)"
    obtain r h where f: "find_or_create_shared_object M (- 1) ?n (segs ! k) = (r, h)" by fastforce
    have s: "segs' = segs[k := h]" "pc' = Finding k (held @ [(?n, r)])" using run f True Finding by (simp_all add: Let_def)
    have "segment_inv M name h (U k + 1) ((X k @ own_pointers held) @ (case r of None \<Rightarrow> [] | Some x \<Rightarrow> [(?n, x)]))"
      by (rule segment_find [OF M(1,2) k(2) f])
    then show ?thesis unfolding s using Finding by (intro rest_ok_update [OF ok k(1)]) simp_all
  next
    case False
    then have "segs' = segs" "pc' = after_finding pg k held" using run Finding by simp_all
    then show ?thesis using after_finding_cases [of pg k held] Finding ok by (auto simp: rest_ok_def)
  qed
next
  case (Working k held)
  then show ?thesis using run ok by (auto simp: rest_ok_def)
next
  case (Releasing k held)
  have k: "k < length segs" "segment_inv M name (segs ! k) (U k + 1) (X k @ own_pointers held)"
    using ok Releasing by (auto simp: rest_ok_def)
  show ?thesis
  proof (cases held rule: rev_cases)
    case Nil
    then show ?thesis using run Releasing ok by (auto simp: rest_ok_def split: if_splits)
  next
    case (snoc xs x)
    obtain n r where x: "x = (n, r)" by fastforce
    show ?thesis
    proof (cases r)
      case None
      then show ?thesis using run Releasing snoc x ok by (auto simp: rest_ok_def split: if_splits)
    next
      case (Some y)
      then have s: "segs' = segs[k := destroy_shared_object M n (segs ! k)]" "pc' = Releasing k xs"
        using run Releasing snoc x by simp_all
      have "segment_inv M name (destroy_shared_object M n (segs ! k)) (U k + 1) (X k @ own_pointers xs)"
        using segment_destroy [OF M(1), of name "segs ! k" "U k + 1" "X k @ own_pointers xs" n y] k(2) snoc x Some by simp
      then show ?thesis unfolding s using Releasing by (intro rest_ok_update [OF ok k(1)]) simp_all
    qed
  qed
next
  case (Uncounting k good)
  obtain rm h where c: "remove_mapping M name (segs ! k) = (rm, h)" by fastforce
  have k: "k < length segs" "good" "segment_inv M name (segs ! k) (U k + 1) (X k)"
    using ok Uncounting by (auto simp: rest_ok_def)
  have s: "segs' = segs[k := h]" "pc' = (if rm then Removing good else Over good)" using run c Uncounting by simp_all
  have u: "segment_inv M name h (U k) (X k)" using segment_uncount [OF M(1) k(3) c] by simp
  show ?thesis unfolding s using u k(2) Uncounting by (intro rest_ok_update [OF ok k(1)]) simp_all
next
  case (Removing good)
  then show ?thesis using run ok by (auto simp: rest_ok_def)
qed (use run in simp_all)

section \<open>The invariant of the system\<close>

definition processes_ok :: "('h, 'o) shm \<Rightarrow> string \<Rightarrow> 'h list \<Rightarrow> (program \<times> 'o proc_pc) list \<Rightarrow> bool" where
  "processes_ok M name segs ps \<longleftrightarrow>
     (\<forall>k < length segs. segment_inv M name (segs ! k) (count_if (\<lambda>p. counted_in k (snd p)) ps)
        (concat (map (\<lambda>p. held_in k (snd p)) ps)))
     \<and> (\<forall>p \<in> set ps. (\<forall>k. in_segment k (snd p) \<longrightarrow> k < length segs) \<and> well_opened (snd p))"

text \<open>A segment that has the name has a process that will see to its removal.\<close>

definition file_ok :: "nat option \<Rightarrow> nat \<Rightarrow> (program \<times> 'o proc_pc) list \<Rightarrow> bool" where
  "file_ok file n ps \<longleftrightarrow> (\<forall>k. file = Some k \<longrightarrow> k < n \<and> (\<exists>p \<in> set ps. in_segment k (snd p) \<or> snd p = Removing True))"

lemma counted_in_segment: "counted_in k pc \<Longrightarrow> in_segment k pc"
  by (cases pc) simp_all

lemma held_in_segment: "held_in k pc \<noteq> [] \<Longrightarrow> in_segment k pc"
  by (cases pc) (simp_all split: if_splits)

lemma mset_concat_drop_nth:
  assumes "i < length ps"
  shows "mset (concat (map f ps)) = mset (concat (map f (drop_nth i ps)) @ f (ps ! i))"
proof -
  have "mset (concat (map f ps)) = mset (concat (map f (take i ps @ ps ! i # drop (Suc i) ps)))"
    using id_take_nth_drop [OF assms] by simp
  then show ?thesis by (simp add: drop_nth_def)
qed

lemma drop_nth_update: "i < length ps \<Longrightarrow> drop_nth i (ps[i := p]) = drop_nth i ps"
  by (simp add: drop_nth_def)

lemma processes_rest:
  assumes ok: "processes_ok M name segs ps" and i: "i < length ps"
  shows "rest_ok M name (\<lambda>k. count_if (\<lambda>p. counted_in k (snd p)) (drop_nth i ps))
     (\<lambda>k. concat (map (\<lambda>p. held_in k (snd p)) (drop_nth i ps))) segs (snd (ps ! i))"
proof -
  let ?U = "\<lambda>k. count_if (\<lambda>p. counted_in k (snd p)) (drop_nth i ps)"
  let ?X = "\<lambda>k. concat (map (\<lambda>p. held_in k (snd p)) (drop_nth i ps))"
  have "segment_inv M name (segs ! k) (?U k + (if counted_in k (snd (ps ! i)) then 1 else 0)) (?X k @ held_in k (snd (ps ! i)))"
    if "k < length segs" for k
  proof -
    have "segment_inv M name (segs ! k) (count_if (\<lambda>p. counted_in k (snd p)) ps) (concat (map (\<lambda>p. held_in k (snd p)) ps))"
      using ok that by (simp add: processes_ok_def)
    then show ?thesis
      unfolding count_if_drop_nth [OF i, of "\<lambda>p. counted_in k (snd p)", symmetric]
        segment_inv_mset [OF mset_concat_drop_nth [OF i]] .
  qed
  moreover have "?U k = 0 \<and> ?X k = []" if "length segs \<le> k" for k
  proof -
    have "\<not> in_segment k (snd p)" if "p \<in> set (drop_nth i ps)" for p
      using ok set_drop_nth_subset [of i ps] \<open>length segs \<le> k\<close> that by (fastforce simp: processes_ok_def)
    then have "\<not> counted_in k (snd p) \<and> held_in k (snd p) = []" if "p \<in> set (drop_nth i ps)" for p
      using that counted_in_segment held_in_segment by blast
    then show ?thesis unfolding count_if_zero concat_eq_Nil_conv by auto
  qed
  moreover have "(\<forall>k. in_segment k (snd (ps ! i)) \<longrightarrow> k < length segs) \<and> well_opened (snd (ps ! i))"
    using ok nth_mem [OF i] by (simp add: processes_ok_def)
  ultimately show ?thesis by (simp add: rest_ok_def)
qed

lemma rest_processes:
  assumes ok: "processes_ok M name segs ps" and i: "i < length ps" and n: "length segs \<le> length segs'"
    and rest: "rest_ok M name (\<lambda>k. count_if (\<lambda>p. counted_in k (snd p)) (drop_nth i ps))
     (\<lambda>k. concat (map (\<lambda>p. held_in k (snd p)) (drop_nth i ps))) segs' pc'"
  shows "processes_ok M name segs' (ps[i := (pg, pc')])"
proof -
  let ?ps = "ps[i := (pg, pc')]"
  have i': "i < length ?ps" using i by simp
  have d: "drop_nth i ?ps = drop_nth i ps" by (rule drop_nth_update [OF i])
  have "segment_inv M name (segs' ! k) (count_if (\<lambda>p. counted_in k (snd p)) ?ps)
      (concat (map (\<lambda>p. held_in k (snd p)) ?ps))" if "k < length segs'" for k
    using rest that i
    unfolding count_if_drop_nth [OF i', of "\<lambda>p. counted_in k (snd p)", symmetric]
      segment_inv_mset [OF mset_concat_drop_nth [OF i']] d
    by (simp add: rest_ok_def)
  moreover have "(\<forall>k. in_segment k (snd p) \<longrightarrow> k < length segs') \<and> well_opened (snd p)" if "p \<in> set ?ps" for p
  proof -
    have "p = (pg, pc') \<or> p \<in> set ps" using that set_update_subset_insert [of ps i "(pg, pc')"] by blast
    then show ?thesis
    proof
      assume "p = (pg, pc')"
      then show ?thesis using rest by (simp add: rest_ok_def)
    next
      assume "p \<in> set ps"
      then show ?thesis using ok n by (fastforce simp: processes_ok_def)
    qed
  qed
  ultimately show ?thesis by (simp add: processes_ok_def)
qed

lemma process_step_length:
  "process_step M fresh name pg segs file pc = Some (segs', file', pc') \<Longrightarrow> length segs \<le> length segs'"
  by (cases pc) (auto simp: Let_def split: option.splits prod.splits if_splits list.splits)

text \<open>The name: it passes to a new segment, or is removed, or stays.\<close>

lemma process_step_file:
  assumes M: "shm_ok M" and rest: "rest_ok M name U X segs pc"
    and run: "process_step M fresh name pg segs file pc = Some (segs', file', pc')"
  shows "(pc = Opening \<and> file = None \<and> file' = Some (length segs) \<and> length segs' = Suc (length segs) \<and> pc' = Counting (length segs))
     \<or> (pc = Removing True \<and> file' = None)
     \<or> (file' = file \<and> length segs' = length segs
        \<and> (\<forall>k. in_segment k pc \<longrightarrow> in_segment k pc' \<or> pc' = Removing True \<or> 0 < U k) \<and> pc \<noteq> Removing True)"
proof (cases pc)
  case (Finding k held)
  then show ?thesis using run after_finding_cases [of pg k held] by (auto simp: Let_def split: prod.splits if_splits)
next
  case (Releasing k held)
  then show ?thesis using run by (auto split: list.splits option.splits prod.splits)
next
  case (Uncounting k ok)
  then have "ok" "segment_inv M name (segs ! k) (U k + 1) (X k)" using rest by (auto simp: rest_ok_def)
  then show ?thesis using run Uncounting segment_uncount [OF M, of name "segs ! k" "U k" "X k"] by (auto split: prod.splits)
next
  case (Counting k)
  then show ?thesis using run by (auto split: prod.splits if_splits)
next
  case (Removing ok)
  then show ?thesis using run rest by (simp add: rest_ok_def)
qed (use run in \<open>auto split: option.splits\<close>)

definition sharing_inv :: "('h, 'o) shm \<Rightarrow> string \<Rightarrow> ('h, 'o) sharing \<Rightarrow> bool" where
  "sharing_inv M name y \<longleftrightarrow> processes_ok M name (sh_segments y) (sh_processes y)
     \<and> file_ok (sh_file y) (length (sh_segments y)) (sh_processes y)"

lemma in_list_update: "i < length xs \<Longrightarrow> x \<in> set (xs[i := x])"
  by (metis length_list_update nth_list_update_eq nth_mem)

lemma other_in_list_update:
  assumes "p \<in> set ps" and "p \<noteq> ps ! i"
  shows "p \<in> set (ps[i := x])"
proof -
  obtain j where "j < length ps" "p = ps ! j" using assms(1) by (auto simp: in_set_conv_nth)
  then show ?thesis using assms(2) by (metis length_list_update nth_list_update_neq nth_mem)
qed

lemma set_list_update: "i < length ps \<Longrightarrow> set (ps[i := x]) = insert x (set (drop_nth i ps))"
  by (auto simp: drop_nth_def upd_conv_take_nth_drop)

lemma drop_nth_in_list_update:
  assumes "p \<in> set (drop_nth i ps)" and "i < length ps"
  shows "p \<in> set (ps[i := x])"
  using assms by (simp add: set_list_update)

lemma file_ok_call:
  assumes M: "shm_ok M" and i: "i < length ps" "ps ! i = (pg, pc)"
    and rest: "rest_ok M name (\<lambda>k. count_if (\<lambda>p. counted_in k (snd p)) (drop_nth i ps)) X segs pc"
    and nm: "file_ok file (length segs) ps"
    and run: "process_step M fresh name pg segs file pc = Some (segs', file', pc')"
  shows "file_ok file' (length segs') (ps[i := (pg, pc')])"
  using process_step_file [OF M rest run]
proof (elim disjE conjE)
  assume "file' = Some (length segs)" "length segs' = Suc (length segs)" "pc' = Counting (length segs)"
  then show ?thesis using in_list_update [OF i(1), of "(pg, pc')"] by (auto simp: file_ok_def intro!: bexI)
next
  assume "file' = None"
  then show ?thesis by (simp add: file_ok_def)
next
  assume same: "file' = file" "length segs' = length segs" "pc \<noteq> Removing True"
    and move: "\<forall>k. in_segment k pc \<longrightarrow> in_segment k pc' \<or> pc' = Removing True
      \<or> 0 < count_if (\<lambda>p. counted_in k (snd p)) (drop_nth i ps)"
  have "\<exists>q \<in> set (ps[i := (pg, pc')]). in_segment k (snd q) \<or> snd q = Removing True" if k: "file = Some k" for k
  proof -
    obtain p where p: "p \<in> set ps" "in_segment k (snd p) \<or> snd p = Removing True" using nm k by (auto simp: file_ok_def)
    show ?thesis
    proof (cases "p = ps ! i")
      case False
      then show ?thesis using other_in_list_update [OF p(1), of i "(pg, pc')"] p(2) by blast
    next
      case True
      then have "in_segment k pc" using p(2) i(2) same(3) by simp
      then consider "in_segment k pc' \<or> pc' = Removing True" | q where "q \<in> set (drop_nth i ps)" "counted_in k (snd q)"
        using move by (metis count_if_zero neq0_conv)
      then show ?thesis
      proof cases
        case 1
        then show ?thesis using in_list_update [OF i(1), of "(pg, pc')"] by force
      next
        case 2
        then show ?thesis using drop_nth_in_list_update [OF 2(1) i(1)] counted_in_segment by blast
      qed
    qed
  qed
  then show ?thesis using nm same by (auto simp: file_ok_def)
qed

lemma mishap_same:
  "mishap pc = Some pc' \<Longrightarrow> counted_in k pc' = counted_in k pc \<and> held_in k pc' = held_in k pc
     \<and> in_segment k pc' = in_segment k pc \<and> well_opened pc' \<and> (pc' = Removing r) = (pc = Removing r)
     \<and> pc' \<noteq> Counting k"
  by (cases pc) auto

lemma sharing_step_inv:
  assumes M: "shm_ok M" "never_throws M" "counter_fits M name"
    and fresh: "shm_counters M fresh = (\<lambda>_. None)" "shm_objects M fresh = (\<lambda>_. None)"
    and inv: "sharing_inv M name y" and small: "length (sh_processes y) < 2 ^ 64" and s: "sharing_step M fresh name y y'"
  shows "sharing_inv M name y'"
  using s
proof cases
  case (launch pg)
  then show ?thesis using inv by (auto simp: sharing_inv_def processes_ok_def file_ok_def)
next
  case (call i pg pc segs' file' pc')
  let ?ps = "sh_processes y" and ?segs = "sh_segments y"
  note pr = processes_rest [of M name ?segs ?ps i, unfolded call(3) snd_conv]
  have ok: "processes_ok M name ?segs ?ps" and nm: "file_ok (sh_file y) (length ?segs) ?ps"
    using inv by (simp_all add: sharing_inv_def)
  have lt: "\<forall>k. count_if (\<lambda>p. counted_in k (snd p)) (drop_nth i ?ps) + 1 < 2 ^ 64"
  proof
    fix k
    have "count_if (\<lambda>p. counted_in k (snd p)) (drop_nth i ?ps) \<le> length ?ps - 1"
      using count_if_le_length [of _ "drop_nth i ?ps"] length_drop_nth [OF call(2)] by simp
    then show "count_if (\<lambda>p. counted_in k (snd p)) (drop_nth i ?ps) + 1 < 2 ^ 64" using small call(2) by linarith
  qed
  have f: "\<forall>k. sh_file y = Some k \<longrightarrow> k < length ?segs" using nm by (simp add: file_ok_def)
  have "processes_ok M name segs' (?ps[i := (pg, pc')])"
    by (rule rest_processes [OF ok call(2) process_step_length [OF call(4)]
          process_step_ok [OF M fresh pr [OF ok call(2)] f lt call(4)]])
  moreover have "file_ok file' (length segs') (?ps[i := (pg, pc')])"
    by (rule file_ok_call [OF M(1) call(2,3) pr [OF ok call(2)] nm call(4)])
  ultimately show ?thesis by (simp add: call(1) sharing_inv_def)
next
  case (accident i pg pc pc')
  let ?ps = "sh_processes y" and ?segs = "sh_segments y"
  have ok: "processes_ok M name ?segs ?ps" and nm: "file_ok (sh_file y) (length ?segs) ?ps"
    using inv by (simp_all add: sharing_inv_def)
  note same = mishap_same [OF accident(4)]
  have "processes_ok M name ?segs (?ps[i := (pg, pc')])"
    using processes_rest [OF ok accident(2), unfolded accident(3) snd_conv] same
    by (intro rest_processes [OF ok accident(2) order_refl]) (erule rest_ok_same, simp_all)
  moreover have "file_ok (sh_file y) (length ?segs) (?ps[i := (pg, pc')])"
  proof -
    have "\<exists>q \<in> set (?ps[i := (pg, pc')]). in_segment k (snd q) \<or> snd q = Removing True"
      if "p \<in> set ?ps" "in_segment k (snd p) \<or> snd p = Removing True" for p k
    proof (cases "p = ?ps ! i")
      case True
      then have "in_segment k pc' \<or> pc' = Removing True" using that(2) accident(3) same by auto
      then show ?thesis using in_list_update [OF accident(2), of "(pg, pc')"] by force
    qed (use that other_in_list_update [OF that(1), of i] in blast)
    then show ?thesis using nm by (simp add: file_ok_def) blast
  qed
  ultimately show ?thesis by (simp add: accident(1) sharing_inv_def)
qed

lemma sharing_step_more: "sharing_step M fresh name y y' \<Longrightarrow> length (sh_processes y) \<le> length (sh_processes y')"
  by (auto elim!: sharing_stepE)

lemma sharing_reachable_inv:
  assumes M: "shm_ok M" "never_throws M" "counter_fits M name"
    and fresh: "shm_counters M fresh = (\<lambda>_. None)" "shm_objects M fresh = (\<lambda>_. None)"
    and "sharing_reachable P M fresh name y" and "length (sh_processes y) < 2 ^ 64"
  shows "sharing_inv M name y"
  using assms(6,7)
proof induction
  case start
  then show ?case by (simp add: sharing_inv_def nobody_def processes_ok_def file_ok_def)
next
  case (step y y')
  then have "length (sh_processes y) < 2 ^ 64" using sharing_step_more by (metis order_le_less_trans)
  then show ?case using step sharing_step_inv [OF M fresh] by blast
qed

section \<open>Who shares the segment that has the name\<close>

definition all_named :: "('h, 'o) sharing \<Rightarrow> bool" where
  "all_named y \<longleftrightarrow> (\<forall>p \<in> set (sh_processes y). \<forall>k. in_segment k (snd p) \<longrightarrow> sh_file y = Some k)"

text \<open>A process that is about to remove the name is alone.\<close>

definition removes_alone :: "('h, 'o) sharing \<Rightarrow> bool" where
  "removes_alone y \<longleftrightarrow> ((\<exists>p \<in> set (sh_processes y). \<exists>r. snd p = Removing r) \<longrightarrow>
     (\<forall>q \<in> set (sh_processes y). \<forall>k. \<not> in_segment k (snd q)))"

definition somebody_over :: "('h, 'o) sharing \<Rightarrow> bool" where
  "somebody_over y \<longleftrightarrow> (\<exists>p \<in> set (sh_processes y). \<exists>r. snd p = Over r)"

lemma process_step_in_segment:
  assumes run: "process_step M fresh name pg segs file pc = Some (segs', file', pc')" and k: "in_segment k pc'"
  shows "in_segment k pc \<or> (pc = Opening \<and> file' = Some k \<and> pc' = Counting k)"
proof (cases pc)
  case (Finding j held)
  then show ?thesis using run k after_finding_cases [of pg j held] by (auto simp: Let_def split: prod.splits if_splits)
qed (use run k in \<open>auto split: option.splits prod.splits if_splits list.splits\<close>)

lemma process_step_keeps_file:
  assumes "process_step M fresh name pg segs file pc = Some (segs', file', pc')" and "file = Some k"
  shows "file' = Some k \<or> (\<exists>r. pc = Removing r)"
  using assms by (cases pc) (auto simp: Let_def split: prod.splits if_splits list.splits)

lemma in_list_updateE: "p \<in> set (xs[i := x]) \<Longrightarrow> p = x \<or> p \<in> set xs"
  using set_update_subset_insert [of xs i x] by blast

text \<open>A step keeps the processes at the segment with the name, unless it removes the name.\<close>

lemma all_named_call:
  assumes named: "all_named y" and i: "i < length (sh_processes y)" "sh_processes y ! i = (pg, pc)"
    and run: "process_step M fresh name pg (sh_segments y) (sh_file y) pc = Some (segs', file', pc')"
    and rm: "\<And>r. pc \<noteq> Removing r"
  shows "all_named \<lparr>sh_segments = segs', sh_file = file', sh_processes = (sh_processes y)[i := (pg, pc')]\<rparr>"
proof -
  have keep: "sh_file y = Some k \<Longrightarrow> file' = Some k" for k using process_step_keeps_file [OF run] rm by blast
  have pc: "(pg, pc) \<in> set (sh_processes y)" using i by (metis nth_mem)
  have "file' = Some k" if "p \<in> set ((sh_processes y)[i := (pg, pc')])" "in_segment k (snd p)" for p k
    using in_list_updateE [OF that(1)]
  proof
    assume "p = (pg, pc')"
    then show ?thesis using process_step_in_segment [OF run] that(2) named pc keep by (fastforce simp: all_named_def)
  next
    assume "p \<in> set (sh_processes y)"
    then show ?thesis using that(2) named keep by (simp add: all_named_def)
  qed
  then show ?thesis by (simp add: all_named_def)
qed

lemma all_named_accident:
  assumes "all_named y" and "i < length (sh_processes y)" "sh_processes y ! i = (pg, pc)" and "mishap pc = Some pc'"
  shows "all_named (y\<lparr>sh_processes := (sh_processes y)[i := (pg, pc')]\<rparr>)"
proof -
  have "(pg, pc) \<in> set (sh_processes y)" using assms(2,3) by (metis nth_mem)
  then have "in_segment k (snd p) \<Longrightarrow> sh_file y = Some k" if "p \<in> set ((sh_processes y)[i := (pg, pc')])" for p k
    using in_list_updateE [OF that] assms(1) mishap_same [OF assms(4), of k] by (auto simp: all_named_def)
  then show ?thesis by (simp add: all_named_def)
qed

lemma named_or_over_step:
  assumes "all_named y \<or> somebody_over y" and s: "sharing_step M fresh name y y'"
  shows "all_named y' \<or> somebody_over y'"
  using s
proof cases
  case (launch pg)
  then show ?thesis using assms(1) by (auto simp: all_named_def somebody_over_def)
next
  case (call i pg pc segs' file' pc')
  show ?thesis
  proof (cases "somebody_over y \<or> (\<exists>r. pc = Removing r)")
    case True
    then show ?thesis
    proof
      assume "somebody_over y"
      then obtain p r where p: "p \<in> set (sh_processes y)" "snd p = Over r" by (auto simp: somebody_over_def)
      moreover have "p \<noteq> sh_processes y ! i" using call(3,4) p(2) by auto
      ultimately show ?thesis using other_in_list_update [OF p(1), of i] call(1) by (auto simp: somebody_over_def)
    next
      assume "\<exists>r. pc = Removing r"
      then show ?thesis using call in_list_update [OF call(2), of "(pg, pc')"] by (force simp: somebody_over_def)
    qed
  next
    case False
    then show ?thesis using assms(1) all_named_call [OF _ call(2-4)] call(1) by blast
  qed
next
  case (accident i pg pc pc')
  show ?thesis
  proof (cases "somebody_over y")
    case True
    then obtain p r where p: "p \<in> set (sh_processes y)" "snd p = Over r" by (auto simp: somebody_over_def)
    moreover have "p \<noteq> sh_processes y ! i" using accident(3,4) p(2) by auto
    ultimately show ?thesis using other_in_list_update [OF p(1), of i] accident(1) by (auto simp: somebody_over_def)
  next
    case False
    then show ?thesis using assms(1) all_named_accident [OF _ accident(2-4)] accident(1) by blast
  qed
qed

text \<open>A process that comes to remove the name was the last one counted; the others can only be about to be counted.\<close>

lemma last_user_removes:
  assumes M: "shm_ok M" and inv: "sharing_inv M name y" and named: "all_named y"
    and i: "i < length (sh_processes y)" "sh_processes y ! i = (pg, pc)" and new: "\<And>r. pc \<noteq> Removing r"
    and run: "process_step M fresh name pg (sh_segments y) (sh_file y) pc = Some (segs', file', Removing r)"
    and q: "q \<in> set (drop_nth i (sh_processes y))" "in_segment k (snd q)"
  shows "snd q = Counting k"
proof -
  let ?ps = "sh_processes y"
  have rest: "rest_ok M name (\<lambda>k. count_if (\<lambda>p. counted_in k (snd p)) (drop_nth i ?ps))
      (\<lambda>k. concat (map (\<lambda>p. held_in k (snd p)) (drop_nth i ?ps))) (sh_segments y) pc"
    using processes_rest [of M name "sh_segments y" ?ps i] inv i by (simp add: sharing_inv_def)
  obtain j good rm h where un: "pc = Uncounting j good" "remove_mapping M name (sh_segments y ! j) = (rm, h)" "rm"
    using run by (cases pc) (auto simp: Let_def after_finding_def split: option.splits prod.splits if_splits list.splits)
  have seg: "segment_inv M name (sh_segments y ! j) (count_if (\<lambda>p. counted_in j (snd p)) (drop_nth i ?ps) + 1)
      (concat (map (\<lambda>p. held_in j (snd p)) (drop_nth i ?ps)))"
    using rest un(1) by (auto simp: rest_ok_def)
  have zero: "\<forall>p \<in> set (drop_nth i ?ps). \<not> counted_in j (snd p)"
    using segment_uncount [OF M seg un(2)] un(3) unfolding count_if_zero by simp
  have qy: "q \<in> set ?ps" by (rule subsetD [OF set_drop_nth_subset q(1)])
  have pc: "(pg, pc) \<in> set ?ps" using i by (metis nth_mem)
  have "in_segment j (snd (pg, pc))" using un(1) by simp
  then have "sh_file y = Some j" "sh_file y = Some k" using named pc qy q(2) unfolding all_named_def by blast+
  then have "\<not> counted_in k (snd q)" using zero q(1) by simp
  moreover have "well_opened (snd q)" using inv qy by (auto simp: sharing_inv_def processes_ok_def)
  ultimately show ?thesis using q(2) by (cases "snd q") auto
qed

text \<open>While one is about to remove the name nobody else comes to a segment.\<close>

lemma removing_keeps_out:
  assumes alone: "removes_alone y" and rm: "q \<in> set (sh_processes y)" "snd q = Removing r"
    and i: "i < length (sh_processes y)" "sh_processes y ! i = (pg, pc)"
    and run: "process_step M fresh name pg (sh_segments y) (sh_file y) pc = Some (segs', file', pc')"
    and quiet: "undisturbed \<lparr>sh_segments = segs', sh_file = file', sh_processes = (sh_processes y)[i := (pg, pc')]\<rparr>"
    and p: "p \<in> set ((sh_processes y)[i := (pg, pc')])"
  shows "\<not> in_segment k (snd p)"
proof
  assume k: "in_segment k (snd p)"
  have none: "\<And>q k. q \<in> set (sh_processes y) \<Longrightarrow> \<not> in_segment k (snd q)" using alone rm by (auto simp: removes_alone_def)
  have pc: "(pg, pc) \<in> set (sh_processes y)" using i by (metis nth_mem)
  have new: "p = (pg, pc')" using in_list_updateE [OF p] none k by blast
  then have o: "pc = Opening" "pc' = Counting k" using process_step_in_segment [OF run] none [OF pc] k by auto
  then have "q \<noteq> sh_processes y ! i" using rm(2) i(2) by auto
  then have "q \<in> set ((sh_processes y)[i := (pg, pc')])" by (rule other_in_list_update [OF rm(1)])
  then show False using quiet rm(2) p new o(2) by (force simp: undisturbed_def)
qed

lemma undisturbed_call:
  assumes M: "shm_ok M" and inv: "sharing_inv M name y" and named: "all_named y" "removes_alone y"
    and i: "i < length (sh_processes y)" "sh_processes y ! i = (pg, pc)"
    and run: "process_step M fresh name pg (sh_segments y) (sh_file y) pc = Some (segs', file', pc')"
    and y': "y' = \<lparr>sh_segments = segs', sh_file = file', sh_processes = (sh_processes y)[i := (pg, pc')]\<rparr>"
    and quiet: "undisturbed y'"
  shows "all_named y' \<and> removes_alone y'"
proof (cases "\<exists>q \<in> set (sh_processes y). \<exists>r. snd q = Removing r")
  case True
  then obtain q r where q: "q \<in> set (sh_processes y)" "snd q = Removing r" by blast
  have "\<not> in_segment k (snd p)" if "p \<in> set (sh_processes y')" for p k
    using that removing_keeps_out [OF named(2) q i run quiet [unfolded y']] y' by simp
  then show ?thesis by (auto simp: all_named_def removes_alone_def)
next
  case False
  have "(pg, pc) \<in> set (sh_processes y)" using i by (metis nth_mem)
  then have new: "\<And>r. pc \<noteq> Removing r" using False by force
  have n': "all_named y'" using all_named_call [OF named(1) i run new] y' by simp
  have "\<not> in_segment k (snd q)" if q: "q \<in> set (sh_processes y')" and p: "p \<in> set (sh_processes y')" "snd p = Removing r"
    for p q r k
  proof
    assume k: "in_segment k (snd q)"
    have pc': "pc' = Removing r" using p False in_list_updateE [of p "sh_processes y" i "(pg, pc')"] y' by auto
    have other: "q \<in> set (drop_nth i (sh_processes y))"
      using q k pc' y' set_list_update [OF i(1), of "(pg, pc')"] by auto
    have "snd q = Counting k" by (rule last_user_removes [OF M inv named(1) i new run [unfolded pc'] other k])
    then show False using quiet q p by (auto simp: undisturbed_def)
  qed
  then show ?thesis using n' by (auto simp: removes_alone_def)
qed

lemma undisturbed_step:
  assumes M: "shm_ok M" and inv: "sharing_inv M name y" and named: "all_named y" "removes_alone y"
    and s: "sharing_step M fresh name y y'" and quiet: "undisturbed y'"
  shows "all_named y' \<and> removes_alone y'"
  using s
proof cases
  case (launch pg)
  then show ?thesis using named by (auto simp: all_named_def removes_alone_def)
next
  case (call i pg pc segs' file' pc')
  then show ?thesis using undisturbed_call [OF M inv named call(2-4,1) quiet] by simp
next
  case (accident i pg pc pc')
  have pc: "(pg, pc) \<in> set (sh_processes y)" using accident(2,3) by (metis nth_mem)
  note same = mishap_same [OF accident(4)]
  have old: "\<exists>q \<in> set (sh_processes y). (snd p = Removing r \<longrightarrow> snd q = Removing r)
      \<and> (in_segment k (snd p) \<longrightarrow> in_segment k (snd q))" if "p \<in> set (sh_processes y')" for p r k
    using in_list_updateE [of p "sh_processes y" i "(pg, pc')"] that accident(1) pc same [of k r] by force
  have "removes_alone y'"
    using named(2) old unfolding removes_alone_def by meson
  then show ?thesis using all_named_accident [OF named(1) accident(2-4)] accident(1) by blast
qed

section \<open>Sharing\<close>

lemma reachable_named_or_over:
  assumes "sharing_reachable P M fresh name y"
  shows "all_named y \<or> somebody_over y"
  using assms
proof induction
  case start
  then show ?case by (simp add: all_named_def nobody_def)
next
  case (step y y')
  show ?case by (rule named_or_over_step [OF step.IH step(2)])
qed

lemma reachable_undisturbed:
  assumes M: "shm_ok M" "never_throws M" "counter_fits M name"
    and fresh: "shm_counters M fresh = (\<lambda>_. None)" "shm_objects M fresh = (\<lambda>_. None)"
    and "sharing_reachable P M fresh name y" and "length (sh_processes y) < 2 ^ 64" and P: "\<And>y. P y \<Longrightarrow> undisturbed y"
  shows "all_named y \<and> removes_alone y"
  using assms(6,7)
proof induction
  case start
  then show ?case by (simp add: all_named_def removes_alone_def nobody_def)
next
  case (step y y')
  have small: "length (sh_processes y) < 2 ^ 64" using sharing_step_more [OF step(2)] step.prems by simp
  have inv: "sharing_inv M name y" by (rule sharing_reachable_inv [OF M fresh step(1) small])
  show ?case using step.IH [OF small] by (intro undisturbed_step [OF M(1) inv _ _ step(2) P [OF step(3)]]) simp_all
qed

text \<open>Of two processes that use segments at the same time neither is over.\<close>

lemma two_processes:
  assumes "length ps \<le> 2" and "p \<in> set ps" "q \<in> set ps" "r \<in> set ps"
    and "r \<noteq> p" "r \<noteq> q"
  shows "p = q"
proof -
  have "card {p, q, r} \<le> card (set ps)" using assms by (intro card_mono) auto
  also have "\<dots> \<le> 2" using card_length [of ps] assms(1) by simp
  finally show ?thesis using assms(5,6) by (cases "p = q") auto
qed

lemma users_share_segment:
  assumes M: "shm_ok M" "never_throws M" "counter_fits M name"
    and fresh: "shm_counters M fresh = (\<lambda>_. None)" "shm_objects M fresh = (\<lambda>_. None)"
    and reach: "sharing_reachable P M fresh name y" and small: "length (sh_processes y) < 2 ^ 64"
    and few: "length (sh_processes y) \<le> 2 \<or> (\<forall>y. P y \<longrightarrow> undisturbed y)"
    and p: "p \<in> set (sh_processes y)" "counted_in j (snd p)" and q: "q \<in> set (sh_processes y)" "counted_in k (snd q)"
  shows "j = k"
proof -
  have seg: "in_segment j (snd p)" "in_segment k (snd q)" using p q counted_in_segment by blast+
  have "j = k" if "all_named y"
  proof -
    have "sh_file y = Some j" "sh_file y = Some k" using that seg p(1) q(1) unfolding all_named_def by blast+
    then show ?thesis by simp
  qed
  moreover have "j = k" if over: "somebody_over y" and two: "length (sh_processes y) \<le> 2"
  proof -
    obtain r s where r: "r \<in> set (sh_processes y)" "snd r = Over s" using over unfolding somebody_over_def by blast
    have "r \<noteq> p" "r \<noteq> q" using r(2) p(2) q(2) by auto
    then have "p = q" by (rule two_processes [OF two p(1) q(1) r(1)])
    then show ?thesis using p(2) q(2) by (cases "snd p") auto
  qed
  moreover have "all_named y" if "\<forall>y. P y \<longrightarrow> undisturbed y"
    using reachable_undisturbed [OF M fresh reach small] that by blast
  ultimately show ?thesis using few reachable_named_or_over [OF reach] by blast
qed

lemma holdings_sound:
  assumes "sharing_inv M name y" and "k < length (sh_segments y)"
  shows "map_count M name (sh_segments y ! k) = users_of k y"
    and "\<And>n obj. (n, Some obj) \<in> set (holdings k y) \<Longrightarrow> the_object M (sh_segments y ! k) n = Some obj"
    and "\<And>n. uses_of n (holdings k y) = 0 \<Longrightarrow> the_object M (sh_segments y ! k) n = None"
proof -
  have ok: "segment_inv M name (sh_segments y ! k) (users_of k y) (holdings k y)"
    using assms by (simp add: sharing_inv_def processes_ok_def users_of_def holdings_def)
  then show "map_count M name (sh_segments y ! k) = users_of k y" by (simp add: segment_inv_def)
  have u: "users_ok M (- 1) \<lparr>us_heap = sh_segments y ! k, us_held = holdings k y\<rparr>" using ok by (simp add: segment_inv_def)
  show "the_object M (sh_segments y ! k) n = Some obj" if "(n, Some obj) \<in> set (holdings k y)" for n obj
    using u that by (simp add: users_ok_def)
  have "the_object M (sh_segments y ! k) n \<noteq> None \<longrightarrow> 0 < uses_of n (holdings k y)" for n
    using u by (simp add: users_ok_def)
  then show "the_object M (sh_segments y ! k) n = None" if "uses_of n (holdings k y) = 0" for n
    using that by (metis less_numeral_extra(3))
qed

lemma nothing_left_behind:
  assumes "sharing_inv M name y" and "\<forall>p \<in> set (sh_processes y). \<exists>r. snd p = Over r"
  shows "sh_file y = None"
proof (rule ccontr)
  assume "sh_file y \<noteq> None"
  then obtain k where "sh_file y = Some k" by blast
  then obtain p where p: "p \<in> set (sh_processes y)" "in_segment k (snd p) \<or> snd p = Removing True"
    using assms(1) unfolding sharing_inv_def file_ok_def by blast
  moreover obtain r where "snd p = Over r" using assms(2) p(1) by blast
  ultimately show False by simp
qed


section \<open>What a working process has\<close>

definition found_ok :: "program \<times> 'o proc_pc \<Rightarrow> bool" where
  "found_ok p \<longleftrightarrow> (case snd p of
      Finding k held \<Rightarrow> map fst held = take (length held) (map fst (fst p))
    | Working k held \<Rightarrow> map fst held = map fst (fst p) \<and> (\<forall>x \<in> set held. \<not> is_null (snd x))
    | _ \<Rightarrow> True)"

lemma found_ok_step:
  assumes ok: "found_ok (pg, pc)" and run: "process_step M fresh name pg segs file pc = Some (segs', file', pc')"
  shows "found_ok (pg, pc')"
proof (cases pc)
  case (Finding k held)
  then have h: "map fst held = take (length held) (map fst pg)" using ok by (simp add: found_ok_def)
  show ?thesis
  proof (cases "length held < length pg")
    case True
    then show ?thesis using run h
      by (auto simp: Finding found_ok_def Let_def take_Suc_conv_app_nth split: prod.splits)
  next
    case False
    then have "pc' = after_finding pg k held" "map fst held = map fst pg" using run Finding h by simp_all
    then show ?thesis by (simp add: after_finding_def found_ok_def)
  qed
qed (use run in \<open>auto simp: found_ok_def split: option.splits prod.splits list.splits if_splits\<close>)

lemma found_ok_mishap: "mishap pc = Some pc' \<Longrightarrow> found_ok (pg, pc')"
  by (cases pc) (auto simp: found_ok_def)

lemma reachable_found:
  assumes "sharing_reachable P M fresh name y" and "p \<in> set (sh_processes y)"
  shows "found_ok p"
  using assms
proof (induction arbitrary: p)
  case start
  then show ?case by (simp add: nobody_def)
next
  case (step y y')
  from step(2) show ?case
  proof cases
    case (launch pg)
    have "found_ok (pg, Opening)" by (simp add: found_ok_def)
    then show ?thesis using step.IH [of p] step.prems launch by auto
  next
    case (call i pg pc segs' file' pc')
    have "found_ok (pg, pc)" using step.IH nth_mem [OF call(2)] call(3) by simp
    then show ?thesis using found_ok_step [OF _ call(4)] step.IH step.prems call(1) in_list_updateE by fastforce
  next
    case (accident i pg pc pc')
    then show ?thesis using found_ok_mishap [OF accident(4)] step.IH step.prems in_list_updateE by fastforce
  qed
qed

text \<open>
  So two processes that work at the same time, like parent and child, use the same objects: what \<open>IPC_Example\<close> starts from.
\<close>

lemma working_processes_meet:
  assumes M: "shm_ok M" "never_throws M" "counter_fits M name"
    and fresh: "shm_counters M fresh = (\<lambda>_. None)" "shm_objects M fresh = (\<lambda>_. None)"
    and reach: "sharing_reachable P M fresh name y" and two: "length (sh_processes y) \<le> 2"
    and p: "(pg, Working j held) \<in> set (sh_processes y)" and q: "(pg', Working k held') \<in> set (sh_processes y)"
    and n: "n \<in> fst ` set pg" "n \<in> fst ` set pg'"
  shows "\<exists>obj. (n, Some (Some obj)) \<in> set held \<and> (n, Some (Some obj)) \<in> set held'"
proof -
  have small: "length (sh_processes y) < 2 ^ 64" using two by simp
  have inv: "sharing_inv M name y" by (rule sharing_reachable_inv [OF M fresh reach small])
  have "j = k" using users_share_segment [OF M fresh reach small _ p _ q] two by simp
  have own: "\<exists>obj. (n, Some (Some obj)) \<in> set hs \<and> the_object M (sh_segments y ! i) n = Some obj"
    if w: "(g, Working i hs) \<in> set (sh_processes y)" "n \<in> fst ` set g" for g i hs
  proof -
    have f: "map fst hs = map fst g" "\<forall>x \<in> set hs. \<not> is_null (snd x)"
      using reachable_found [OF reach w(1)] by (simp_all add: found_ok_def)
    have "n \<in> fst ` set hs" using w(2) f(1) by (metis list.set_map)
    then obtain x where x: "(n, x) \<in> set hs" by force
    then obtain obj where obj: "x = Some (Some obj)" using f(2) by (cases x; fastforce elim: is_null.elims)
    have "(n, Some obj) \<in> set (own_pointers hs)" using x obj by (force simp: own_pointers_def)
    then have h: "(n, Some obj) \<in> set (holdings i y)" using w(1) by (force simp: holdings_def)
    have "i < length (sh_segments y)" using inv w(1) by (fastforce simp: sharing_inv_def processes_ok_def)
    then show ?thesis using holdings_sound(2) [OF inv _ h] x obj by blast
  qed
  from own [OF p n(1)] own [OF q n(2)] \<open>j = k\<close> show ?thesis by auto
qed

section \<open>The example programs\<close>

text \<open>The segment and the objects each program asks for before it starts to work.\<close>

definition segment_name :: string where
  "segment_name = ''MySharedMemory''"

definition ParentProcess :: program where
  "ParentProcess = [(''pool'', True), (''Router'', True)]"

definition ChildProcess :: program where
  "ChildProcess = [(''Router'', True)]"

definition array_Process :: program where
  "array_Process = [(''poolArray'', True)]"

definition grower_ChildProcess :: program where
  "grower_ChildProcess = [(''pool'', True)]"

definition ProducerProcess :: program where
  "ProducerProcess = [(''pool'', True)]"

text \<open>The consumer looks at the pointer to the segment only.\<close>

definition ConsumerProcess :: program where
  "ConsumerProcess = [(''pool'', False), (''Router'', False)]"

text \<open>
  The \<open>main\<close> functions: what an earlier run has left is removed, then the second process is started beside the first. The result of the
  removal is ignored, so that an old segment may still be there.
\<close>

definition start_programs :: "program list \<Rightarrow> 'h option \<Rightarrow> ('h, 'o) sharing" where
  "start_programs pgs old =
     (case old of
        None \<Rightarrow> \<lparr>sh_segments = [], sh_file = None, sh_processes = map (\<lambda>pg. (pg, Opening)) pgs\<rparr>
      | Some h \<Rightarrow> \<lparr>sh_segments = [h], sh_file = Some 0, sh_processes = map (\<lambda>pg. (pg, Opening)) pgs\<rparr>)"

definition wipe_and_start ::
  "program list \<Rightarrow> bool \<Rightarrow> (string \<Rightarrow> bool option) \<Rightarrow> 'h segment_files \<Rightarrow> ('h, 'o) sharing result" where
  "wipe_and_start pgs linux unlink fs =
     (case RemoveSharedMemoryNuclear linux unlink segment_name fs of
        Inl e \<Rightarrow> Inl e
      | Inr (had_error, fs') \<Rightarrow> Inr (start_programs pgs (fs' (shm_file segment_name))))"

definition ipc_main :: "bool \<Rightarrow> (string \<Rightarrow> bool option) \<Rightarrow> 'h segment_files \<Rightarrow> ('h, 'o) sharing result" where
  "ipc_main = wipe_and_start [ParentProcess, ChildProcess]"

definition array_main :: "bool \<Rightarrow> (string \<Rightarrow> bool option) \<Rightarrow> 'h segment_files \<Rightarrow> ('h, 'o) sharing result" where
  "array_main = wipe_and_start [array_Process]"

text \<open>This one opens the mapping in \<open>main\<close> itself; its child is launched while it waits.\<close>

definition grower_main_process :: program where
  "grower_main_process = [(''pool'', True)]"

definition grower_main :: "bool \<Rightarrow> (string \<Rightarrow> bool option) \<Rightarrow> 'h segment_files \<Rightarrow> ('h, 'o) sharing result" where
  "grower_main = wipe_and_start [grower_main_process]"

definition networking_main :: "bool \<Rightarrow> (string \<Rightarrow> bool option) \<Rightarrow> 'h segment_files \<Rightarrow> ('h, 'o) sharing result" where
  "networking_main = wipe_and_start [ProducerProcess, ConsumerProcess]"

lemmas program_defs = ParentProcess_def ChildProcess_def array_Process_def grower_ChildProcess_def
  ProducerProcess_def ConsumerProcess_def segment_name_def

lemma launch_reachable:
  "sharing_reachable (\<lambda>_. True) M fresh name (nobody\<lparr>sh_processes := map (\<lambda>pg. (pg, Opening)) pgs\<rparr>)"
proof (induction pgs rule: rev_induct)
  case Nil
  have "(nobody :: ('a, 'b) sharing)\<lparr>sh_processes := map (\<lambda>pg. (pg, Opening)) []\<rparr> = nobody" by (simp add: nobody_def)
  then show ?case by (simp only: sharing_reachable.start)
next
  case (snoc pg pgs)
  show ?case using sharing_reachable.step [OF snoc sharing_step.launch [of M fresh name _ pg]] by simp
qed

text \<open>A removal that worked lets the theorem above speak of everything the two processes do.\<close>

lemma wipe_and_start_reachable:
  assumes "RemoveSharedMemoryNuclear linux unlink segment_name fs = Inr (False, fs')"
  shows "\<exists>y. wipe_and_start pgs linux unlink fs = Inr y \<and> sharing_reachable (\<lambda>_. True) M fresh name y"
  using nuclear_removes_its_segment(1) [OF assms] assms launch_reachable [of M fresh name pgs]
  by (simp add: wipe_and_start_def start_programs_def nobody_def)

text \<open>Calls in a given order.\<close>

definition sharing_call :: "('h, 'o) shm \<Rightarrow> 'h \<Rightarrow> string \<Rightarrow> nat \<Rightarrow> ('h, 'o) sharing \<Rightarrow> ('h, 'o) sharing" where
  "sharing_call M fresh name i y =
     (if i < length (sh_processes y)
      then case process_step M fresh name (fst (sh_processes y ! i)) (sh_segments y) (sh_file y) (snd (sh_processes y ! i)) of
             None \<Rightarrow> y
           | Some (segs, file, pc) \<Rightarrow>
               \<lparr>sh_segments = segs, sh_file = file, sh_processes = (sh_processes y)[i := (fst (sh_processes y ! i), pc)]\<rparr>
      else y)"

lemma sharing_call_reachable:
  assumes "sharing_reachable (\<lambda>_. True) M fresh name y"
  shows "sharing_reachable (\<lambda>_. True) M fresh name (fold (sharing_call M fresh name) is y)"
  using assms
proof (induction "is" arbitrary: y)
  case (Cons i "is")
  have "sharing_reachable (\<lambda>_. True) M fresh name (sharing_call M fresh name i y)"
  proof (cases "i < length (sh_processes y)")
    case True
    then show ?thesis
      using Cons.prems sharing_reachable.step [OF Cons.prems sharing_step.call [OF True surjective_pairing]]
      by (auto simp: sharing_call_def split: option.splits)
  qed (simp add: sharing_call_def Cons.prems)
  then show ?case using Cons.IH by simp
qed simp

section \<open>Examples\<close>

abbreviation empty_script :: "nat construction list \<Rightarrow> script_shm" where
  "empty_script sc \<equiv> ((\<lambda>_. False), Map.empty, Map.empty, sc)"

text \<open>What \<open>pgs\<close> do from an empty system, in the order \<open>is\<close>.\<close>

definition example_run :: "(script_shm, nat) shm \<Rightarrow> nat construction list \<Rightarrow> program list \<Rightarrow> nat list \<Rightarrow> (script_shm, nat) sharing" where
  "example_run M sc pgs is = fold (sharing_call M (empty_script sc) segment_name) is (start_programs pgs None)"

lemma example_run_reachable: "sharing_reachable (\<lambda>_. True) M (empty_script sc) segment_name (example_run M sc pgs is)"
proof -
  have "(start_programs pgs None :: (script_shm, nat) sharing) = nobody\<lparr>sh_processes := map (\<lambda>pg. (pg, Opening)) pgs\<rparr>"
    by (simp add: start_programs_def nobody_def)
  then show ?thesis
    unfolding example_run_def by (simp only: sharing_call_reachable [OF launch_reachable])
qed

lemma no_bound: "\<not> (- 1 :: size_t) \<le> 0" "\<not> (- 1 :: size_t) \<le> 1" "\<not> (- 1 :: size_t) \<le> 2"
  by (simp_all add: word_order.extremum_unique)

lemmas example_run_simps = no_bound example_run_def sharing_call_def start_programs_def program_defs script_segment_def calm_segment_def
  count_user_def remove_mapping_def find_or_create_shared_object_def destroy_shared_object_def after_finding_def name_defs Let_def

lemma calm_segment_fits: "counter_fits calm_segment name"
  by (auto simp: counter_fits_def calm_segment_def script_segment_def)

text \<open>Parent and child ask for the same objects at the same time.\<close>

definition side_by_side :: "(script_shm, nat) sharing" where
  "side_by_side = example_run calm_segment [] [ParentProcess, ChildProcess] [0, 1, 0, 1, 0, 1, 0, 1, 0]"

lemma side_by_side_processes:
  "sh_processes side_by_side =
     [(ParentProcess, Working 0 [(''pool'', Some (Some 0)), (''Router'', Some (Some 0))]),
      (ChildProcess, Working 0 [(''Router'', Some (Some 0))])]" "length (sh_segments side_by_side) = 1"
  by (simp_all add: side_by_side_def example_run_simps)


text \<open>
  Three processes: the second maps the segment before the first, which was its last user, removes the name; the third gets a
  new segment. Both ask for the pool, and each has one of its own.
\<close>

definition three_processes :: "(script_shm, nat) sharing" where
  "three_processes = example_run calm_segment [] [grower_ChildProcess, grower_ChildProcess, grower_ChildProcess]
     ([0, 0, 0, 0, 0, 0, 0, 0] @ [1] @ [0] @ [1, 1, 1] @ [2, 2, 2, 2])"

lemma third_process_apart:
  "map snd (sh_processes three_processes) =
     [Over True, Working 0 [(''pool'', Some (Some 0))], Working 1 [(''pool'', Some (Some 0))]]"
  by (simp add: three_processes_def example_run_simps)

text \<open>The name that is removed may be that of a newer segment, whose user is not told.\<close>

definition late_removal :: "(script_shm, nat) sharing" where
  "late_removal = example_run calm_segment [] [grower_ChildProcess, grower_ChildProcess, grower_ChildProcess]
     ([0, 0, 0, 0, 0, 0, 0, 0] @ [1, 1, 1, 1, 1, 1, 1, 1, 1] @ [2, 2, 2, 2] @ [0])"

lemma removal_hits_newer_segment:
  "map snd (sh_processes late_removal) = [Over True, Over True, Working 1 [(''pool'', Some (Some 0))]]
     \<and> sh_file late_removal = None"
  by (simp add: late_removal_def example_run_simps)

text \<open>
  Where the pool finds no memory the producer ends in order and the segment goes with it; the consumer, which does not
  look at its pointers, dies, and the segment keeps its name for good.
\<close>

lemma producer_without_pool:
  "let y = example_run script_segment [] [ProducerProcess] [0, 0, 0, 0, 0, 0, 0, 0]
   in map snd (sh_processes y) = [Over True] \<and> sh_file y = None"
  by (simp add: example_run_simps)

lemma consumer_without_pool:
  "let y = example_run script_segment [] [ConsumerProcess] [0, 0, 0, 0, 0]
   in map snd (sh_processes y) = [Crashed 0 [(''pool'', Some None), (''Router'', Some None)]] \<and> sh_file y = Some 0"
  by (simp add: example_run_simps)

text \<open>
  A segment without room for the mutex of the mapping at the first call. The process whose open failed was not counted, but the
  deleter of its mapping counts it down: another process, which found room in the meantime, loses the name of its segment.
\<close>

definition tight_segment :: "(script_shm, nat) shm" where
  "tight_segment = calm_segment\<lparr>find_or_construct_mutex := (\<lambda>n (m, c, ob, sc).
     if \<not> m n \<and> sc \<noteq> [] then (False, (m, c, ob, tl sc)) else (True, (m(n := True), c, ob, sc)))\<rparr>"

lemma tight_segment_ok: "shm_ok tight_segment" "never_throws tight_segment"
  by (auto simp: shm_ok_def mutex_law_def counter_law_def object_law_def script_segment_def calm_segment_def tight_segment_def
      never_throws_def fun_eq_iff split: option.splits list.splits construction.splits)

lemma failed_open_uncounts_another:
  "let y = example_run tight_segment [No_memory] [grower_ChildProcess, grower_ChildProcess] [0, 0, 1, 1, 1, 1, 0, 0]
   in map snd (sh_processes y) = [Over False, Working 0 [(''pool'', Some (Some 0))]]
     \<and> sh_file y = None \<and> map_count tight_segment segment_name (sh_segments y ! 0) = 0"
  by (simp add: example_run_simps tight_segment_def map_count_def)

end
