(* ===== verification/Send_Queue.thy ===== *)
theory Send_Queue
  imports IPC_Prelude "HOL-Library.Sublist"
begin

text \<open>
  What \<open>websocket_session\<close> and \<open>http_session\<close> have in common: a queue of
  messages, each with the caller's completion handler, of which the first is being written; a message
  that finds the queue too long replaces older ones that need not be sent.

  A handler of a session runs on the session's strand, so an operation of the model is one handler from
  its beginning to its end. It returns what it did to the outside as a list of effects. The Boost.Asio
  side is the list of the operations that were started and have not been completed: each of them
  completes once, at some later time, with some result.
\<close>

section \<open>Messages and effects\<close>

text \<open>\<open>SpanAndHandlerT\<close>. A completion handler is known by a number; \<^const>\<open>None\<close> is an empty function.\<close>

record item =
  it_ptr :: addr
  it_size :: size_t
  it_handler :: "nat option"
  it_force :: bool

datatype error_code = Success | Operation_aborted | Ws_closed | Not_connected | End_of_stream | Other_error nat

text \<open>
  \<open>Call k ec n\<close>: completion handler \<open>k\<close> is called. \<open>Async_write\<close> and \<open>Post_aborted\<close> start an operation
  that will call the session's write handler: a write to the socket, or the write handler itself posted
  with \<open>operation_aborted\<close>. \<open>Report\<close>: the user's error callback.
\<close>

datatype effect =
    Call nat error_code nat
  | Async_write addr size_t
  | Post_aborted
  | Report error_code
  | Upgrade
  | Downgrade
  | Set_read_max nat
  | Set_binary
  | Async_read
  | Deliver nat

fun is_start :: "effect \<Rightarrow> bool" where
  "is_start (Async_write p n) = True"
| "is_start Post_aborted = True"
| "is_start _ = False"

fun called :: "effect \<Rightarrow> nat list" where
  "called (Call k ec n) = [k]"
| "called _ = []"

definition starts :: "effect list \<Rightarrow> effect list" where
  "starts es = filter is_start es"

definition calls :: "effect list \<Rightarrow> nat list" where
  "calls es = concat (map called es)"

lemma is_start_called [simp]: "is_start e \<Longrightarrow> called e = []"
  by (cases e) simp_all

lemma starts_simps [simp]:
  "starts [] = []"
  "starts (e # es) = (if is_start e then e # starts es else starts es)"
  "starts (es @ fs) = starts es @ starts fs"
  by (simp_all add: starts_def)

lemma calls_simps [simp]:
  "calls [] = []"
  "calls (e # es) = called e @ calls es"
  "calls (es @ fs) = calls es @ calls fs"
  by (simp_all add: calls_def)

text \<open>Calling a handler, if there is one.\<close>

definition notify :: "item \<Rightarrow> error_code \<Rightarrow> nat \<Rightarrow> effect list" where
  "notify it ec n = (case it_handler it of None \<Rightarrow> [] | Some k \<Rightarrow> [Call k ec n])"

definition handler_of :: "item \<Rightarrow> nat list" where
  "handler_of it = (case it_handler it of None \<Rightarrow> [] | Some k \<Rightarrow> [k])"

definition handlers :: "item list \<Rightarrow> nat list" where
  "handlers q = concat (map handler_of q)"

lemma handlers_simps [simp]:
  "handlers [] = []"
  "handlers (it # q) = handler_of it @ handlers q"
  "handlers (q @ r) = handlers q @ handlers r"
  by (simp_all add: handlers_def)

lemma notify_simps [simp]:
  "calls (notify it ec n) = handler_of it"
  "starts (notify it ec n) = []"
  by (simp_all add: notify_def handler_of_def split: option.splits)

text \<open>\<open>msgPtr != nullptr && msgSize > 0\<close>\<close>

definition sendable :: "item \<Rightarrow> bool" where
  "sendable it \<longleftrightarrow> it_ptr it \<noteq> nullptr \<and> 0 < it_size it"

text \<open>The operation that was started for a message.\<close>

definition start_for :: "item \<Rightarrow> effect \<Rightarrow> bool" where
  "start_for it e \<longleftrightarrow> e = Post_aborted \<or> (e = Async_write (it_ptr it) (it_size it) \<and> sendable it)"

lemma start_for_is_start: "start_for it e \<Longrightarrow> is_start e"
  by (auto simp: start_for_def)

section \<open>Making room\<close>

text \<open>
  The loop at the beginning of \<open>on_send\<close>: from index \<open>i\<close> on, messages that need not be sent are erased and
  their handlers called, while the queue is at least \<open>mx\<close> long. Erasing keeps \<open>i\<close> where it is.
\<close>

function trim :: "nat \<Rightarrow> nat \<Rightarrow> item list \<Rightarrow> item list \<times> effect list" where
  "trim mx i q =
     (if i < length q \<and> mx \<le> length q
      then (if it_force (q ! i) then trim mx (Suc i) q
            else case trim mx i (drop_nth i q) of
                   (q', es) \<Rightarrow> (q', notify (q ! i) Operation_aborted 0 @ es))
      else (q, []))"
  by pat_completeness auto
termination
  by (relation "measure (\<lambda>(mx, i, q). length q - i)") (auto simp: length_drop_nth)

declare trim.simps [simp del]

lemma take_drop_nth:
  assumes "i < length xs"
  shows "take i (drop_nth i xs) = take i xs"
  using assms by (simp add: drop_nth_def)

lemma subseq_drop_nth: "subseq (drop_nth i xs) xs"
proof (cases "i < length xs")
  case True
  then have "xs = take i xs @ xs ! i # drop (Suc i) xs" by (rule id_take_nth_drop)
  moreover have "subseq (take i xs @ drop (Suc i) xs) (take i xs @ xs ! i # drop (Suc i) xs)"
    by (intro list_emb_append_mono) auto
  ultimately show ?thesis by (simp add: drop_nth_def)
next
  case False
  then show ?thesis by (simp add: drop_nth_def)
qed

lemma filter_drop_nth:
  assumes "i < length q" and "\<not> P (q ! i)"
  shows "filter P (drop_nth i q) = filter P q"
proof -
  have "filter P q = filter P (take i q @ q ! i # drop (Suc i) q)" using id_take_nth_drop [OF assms(1)] by simp
  with assms(2) show ?thesis by (simp add: drop_nth_def)
qed

lemma handlers_drop_nth:
  assumes "i < length q"
  shows "mset (handlers q) = mset (handler_of (q ! i)) + mset (handlers (drop_nth i q))"
proof -
  have "mset (handlers q) = mset (handlers (take i q @ q ! i # drop (Suc i) q))"
    using id_take_nth_drop [OF assms] by simp
  then show ?thesis by (simp add: drop_nth_def)
qed

text \<open>What making room does, whatever the queue: the messages before \<open>i\<close> stay, ...\<close>

lemma trim_take: "i \<le> length q \<Longrightarrow> take i (fst (trim mx i q)) = take i q"
proof (induction mx i q rule: trim.induct)
  case (1 mx i q)
  show ?case
  proof (cases "i < length q \<and> mx \<le> length q")
    case True
    show ?thesis
    proof (cases "it_force (q ! i)")
      case force: True
      have "take (Suc i) (fst (trim mx (Suc i) q)) = take (Suc i) q"
        using 1(1) [OF True force] True by simp
      then have "take i (take (Suc i) (fst (trim mx (Suc i) q))) = take i (take (Suc i) q)" by simp
      then show ?thesis using True force by (simp add: trim.simps [of mx i q])
    next
      case False
      have "i < length q" using True by simp
      then have "i \<le> length (drop_nth i q)" by (simp add: length_drop_nth)
      from 1(2) [OF True False this] True False take_drop_nth [of i q] show ?thesis
        by (cases "trim mx i (drop_nth i q)") (simp add: trim.simps [of mx i q])
    qed
  next
    case False
    then show ?thesis by (auto simp: trim.simps [of mx i q])
  qed
qed

lemma trim_nil:
  "fst (trim mx 2 q) = [] \<longleftrightarrow> q = []"
proof (cases "2 \<le> length q")
  case True
  then have "take 2 (fst (trim mx 2 q)) = take 2 q" by (rule trim_take)
  then show ?thesis using True by (cases q) auto
next
  case False
  then show ?thesis by (simp add: trim.simps [of _ 2])
qed

text \<open>... nothing is reordered and nothing that must be sent is lost, ...\<close>

lemma trim_subseq: "subseq (fst (trim mx i q)) q"
proof (induction mx i q rule: trim.induct)
  case (1 mx i q)
  then show ?case
    using subseq_order.trans [OF _ subseq_drop_nth [of i q]]
    by (auto simp: trim.simps [of mx i q] split: prod.splits)
qed

lemma trim_forced: "filter it_force (fst (trim mx i q)) = filter it_force q"
proof (induction mx i q rule: trim.induct)
  case (1 mx i q)
  then show ?case
    using filter_drop_nth [of i q it_force]
    by (auto simp: trim.simps [of mx i q] split: prod.splits)
qed

text \<open>... the handler of every message that goes is called, ...\<close>

lemma trim_handlers:
  "mset (handlers q) = mset (calls (snd (trim mx i q))) + mset (handlers (fst (trim mx i q)))"
proof (induction mx i q rule: trim.induct)
  case (1 mx i q)
  then show ?case
    using handlers_drop_nth [of i q]
    by (auto simp: trim.simps [of mx i q] split: prod.splits)
qed

lemma trim_starts: "starts (snd (trim mx i q)) = []"
proof (induction mx i q rule: trim.induct)
  case (1 mx i q)
  then show ?case by (auto simp: trim.simps [of mx i q] split: prod.splits)
qed

text \<open>... and there is room afterwards, unless everything from \<open>i\<close> on must be sent.\<close>

lemma trim_room:
  assumes "\<forall>j < i. j0 \<le> j \<longrightarrow> j < length q \<longrightarrow> it_force (q ! j)"
  shows "length (fst (trim mx i q)) < mx \<or> (\<forall>it \<in> set (drop j0 (fst (trim mx i q))). it_force it)"
  using assms
proof (induction mx i q rule: trim.induct)
  case (1 mx i q)
  show ?case
  proof (cases "i < length q \<and> mx \<le> length q")
    case True
    then have i: "i < length q" by simp
    show ?thesis
    proof (cases "it_force (q ! i)")
      case force: True
      have "\<forall>j < Suc i. j0 \<le> j \<longrightarrow> j < length q \<longrightarrow> it_force (q ! j)"
        using 1(3) force by (auto simp: less_Suc_eq)
      from 1(1) [OF True force this] True force show ?thesis by (simp add: trim.simps [of mx i q])
    next
      case False
      have "\<forall>j < i. j0 \<le> j \<longrightarrow> j < length (drop_nth i q) \<longrightarrow> it_force (drop_nth i q ! j)"
        using 1(3) i by (auto simp: drop_nth_def nth_append)
      from 1(2) [OF True False this] True False show ?thesis
        by (cases "trim mx i (drop_nth i q)") (simp add: trim.simps [of mx i q])
    qed
  next
    case False
    then show ?thesis using 1(3) by (auto simp: trim.simps [of mx i q] in_set_conv_nth)
  qed
qed


section \<open>A session from the outside\<close>

text \<open>
  What can happen to the queue of a session: a message is submitted (\<open>on_send\<close>), or the operation that
  was started first completes (\<open>on_write\<close>). The first argument is what else the handler looks at.
\<close>

datatype 'a io = Submit 'a item nat | Finish 'a error_code nat

text \<open>
  A run of a session. \<open>r_pending\<close>: the operations started and not completed; \<open>r_called\<close>: the handlers
  called so far; \<open>r_submitted\<close> and \<open>r_done\<close>: the messages submitted and those taken from the front of the
  queue by a completion.
\<close>

record 's run =
  r_state :: 's
  r_pending :: "effect list"
  r_called :: "nat list"
  r_submitted :: "item list"
  r_done :: "item list"

definition run_start :: "'s \<Rightarrow> 's run" where
  "run_start s = \<lparr>r_state = s, r_pending = [], r_called = [], r_submitted = [], r_done = []\<rparr>"

text \<open>A posted write handler gets the error it was posted with; nothing completes if nothing is pending.\<close>

fun io_step ::
  "('s \<Rightarrow> item list) \<Rightarrow> ('a \<Rightarrow> item \<Rightarrow> nat \<Rightarrow> 's \<Rightarrow> ('s \<times> effect list) result)
   \<Rightarrow> ('a \<Rightarrow> error_code \<Rightarrow> nat \<Rightarrow> 's \<Rightarrow> ('s \<times> effect list) result) \<Rightarrow> 'a io \<Rightarrow> 's run \<Rightarrow> 's run result" where
  "io_step queue submit complete (Submit a it mx) y =
     (case submit a it mx (r_state y) of
        Inl e \<Rightarrow> Inl e
      | Inr (s, es) \<Rightarrow> Inr (y\<lparr>r_state := s, r_pending := r_pending y @ starts es,
          r_called := r_called y @ calls es, r_submitted := r_submitted y @ [it]\<rparr>))"
| "io_step queue submit complete (Finish a ec n) y =
     (case r_pending y of
        [] \<Rightarrow> Inr y
      | st # pending \<Rightarrow>
          (case complete a (if st = Post_aborted then Operation_aborted else ec)
                  (if st = Post_aborted then 0 else n) (r_state y) of
             Inl e \<Rightarrow> Inl e
           | Inr (s, es) \<Rightarrow> Inr (y\<lparr>r_state := s, r_pending := pending @ starts es,
               r_called := r_called y @ calls es, r_done := r_done y @ take 1 (queue (r_state y))\<rparr>)))"

fun io_run ::
  "('s \<Rightarrow> item list) \<Rightarrow> ('a \<Rightarrow> item \<Rightarrow> nat \<Rightarrow> 's \<Rightarrow> ('s \<times> effect list) result)
   \<Rightarrow> ('a \<Rightarrow> error_code \<Rightarrow> nat \<Rightarrow> 's \<Rightarrow> ('s \<times> effect list) result) \<Rightarrow> 'a io list \<Rightarrow> 's run \<Rightarrow> 's run result" where
  "io_run queue submit complete [] y = Inr y"
| "io_run queue submit complete (a # as) y =
     (case io_step queue submit complete a y of Inl e \<Rightarrow> Inl e | Inr y' \<Rightarrow> io_run queue submit complete as y')"

fun io_limit :: "nat \<Rightarrow> 'a io \<Rightarrow> bool" where
  "io_limit m (Submit a it mx) \<longleftrightarrow> mx \<le> m"
| "io_limit m _ \<longleftrightarrow> True"

text \<open>
  What always holds: exactly one operation is pending while the queue is not empty, and it is the one
  for the message at its front (so what is being written is still in the queue, and its handler has not
  been called yet); every handler was called once or waits in the queue; the order is kept, and nothing
  that must be sent is dropped.
\<close>

definition pending_ok :: "item list \<Rightarrow> effect list \<Rightarrow> bool" where
  "pending_ok q pending \<longleftrightarrow> (case q of [] \<Rightarrow> pending = [] | it # _ \<Rightarrow> (\<exists>st. pending = [st] \<and> start_for it st))"

definition run_ok :: "('s \<Rightarrow> item list) \<Rightarrow> 's run \<Rightarrow> bool" where
  "run_ok queue y \<longleftrightarrow>
     pending_ok (queue (r_state y)) (r_pending y)
     \<and> mset (handlers (r_submitted y)) = mset (r_called y) + mset (handlers (queue (r_state y)))
     \<and> subseq (r_done y @ queue (r_state y)) (r_submitted y)
     \<and> filter it_force (r_done y @ queue (r_state y)) = filter it_force (r_submitted y)"

definition short_ok :: "('s \<Rightarrow> item list) \<Rightarrow> nat \<Rightarrow> 's run \<Rightarrow> bool" where
  "short_ok queue m y \<longleftrightarrow>
     length (queue (r_state y)) \<le> max m 3 + count_if it_force (queue (r_state y))"

locale send_queue =
  fixes queue :: "'s \<Rightarrow> item list"
    and submit :: "'a \<Rightarrow> item \<Rightarrow> nat \<Rightarrow> 's \<Rightarrow> ('s \<times> effect list) result"
    and complete :: "'a \<Rightarrow> error_code \<Rightarrow> nat \<Rightarrow> 's \<Rightarrow> ('s \<times> effect list) result"
  assumes submit_queue: "submit a it mx s = Inr (s', es) \<Longrightarrow> queue s' = fst (trim (max mx 2) 2 (queue s)) @ [it]"
    and submit_calls: "submit a it mx s = Inr (s', es) \<Longrightarrow> calls es = calls (snd (trim (max mx 2) 2 (queue s)))"
    and submit_starts: "submit a it mx s = Inr (s', es) \<Longrightarrow>
      (if queue s = [] then \<exists>st. starts es = [st] \<and> start_for it st else starts es = [])"
    and submit_fails: "submit a it mx s = Inl e \<Longrightarrow> e = Bad_cast"
    and complete_ok: "queue s = it # q \<Longrightarrow> \<exists>s' es. complete a ec n s = Inr (s', es) \<and> queue s' = q
      \<and> calls es = handler_of it \<and> pending_ok q (starts es)"
begin

lemma submit_run_ok:
  assumes "run_ok queue y" and "io_step queue submit complete (Submit a it mx) y = Inr y'"
  shows "run_ok queue y'"
proof -
  let ?q = "queue (r_state y)"
  let ?t = "fst (trim (max mx 2) 2 ?q)"
  obtain s es where s: "submit a it mx (r_state y) = Inr (s, es)"
    and y': "y' = y\<lparr>r_state := s, r_pending := r_pending y @ starts es,
          r_called := r_called y @ calls es, r_submitted := r_submitted y @ [it]\<rparr>"
    using assms(2) by (auto split: sum.splits)
  note q = submit_queue [OF s] and c = submit_calls [OF s] and st = submit_starts [OF s]
  have ok: "pending_ok ?q (r_pending y)"
    "mset (handlers (r_submitted y)) = mset (r_called y) + mset (handlers ?q)"
    "subseq (r_done y @ ?q) (r_submitted y)"
    "filter it_force (r_done y @ ?q) = filter it_force (r_submitted y)"
    using assms(1) by (simp_all add: run_ok_def)
  have "pending_ok (?t @ [it]) (r_pending y @ starts es)"
  proof (cases ?q)
    case Nil
    then have "?t = []" using trim_subseq [of "max mx 2" 2 ?q] by simp
    then show ?thesis using ok(1) st Nil by (auto simp: pending_ok_def)
  next
    case (Cons x xs)
    have "take 1 ?t = take 1 ?q"
    proof (cases "2 \<le> length ?q")
      case True
      then have "take 1 (take 2 ?t) = take 1 (take 2 ?q)" by (simp only: trim_take)
      then show ?thesis by simp
    next
      case False
      then show ?thesis by (simp add: trim.simps [of _ 2])
    qed
    then obtain ts where "?t = x # ts" using Cons by (cases ?t) auto
    then show ?thesis using ok(1) st Cons by (simp add: pending_ok_def)
  qed
  moreover have "mset (handlers (r_submitted y @ [it]))
      = mset (r_called y @ calls es) + mset (handlers (?t @ [it]))"
    using ok(2) trim_handlers [of ?q "max mx 2" 2] c by simp
  moreover have "subseq (r_done y @ ?t @ [it]) (r_submitted y @ [it])"
  proof -
    have "subseq (r_done y @ ?t) (r_done y @ ?q)"
      by (intro list_emb_append_mono subseq_order.refl trim_subseq)
    then have "subseq (r_done y @ ?t) (r_submitted y)" using ok(3) by (rule subseq_order.trans)
    then have "subseq ((r_done y @ ?t) @ [it]) (r_submitted y @ [it])"
      by (intro list_emb_append_mono subseq_order.refl)
    then show ?thesis by simp
  qed
  moreover have "filter it_force (r_done y @ ?t @ [it]) = filter it_force (r_submitted y @ [it])"
    using ok(4) by (simp add: trim_forced)
  ultimately show ?thesis by (simp add: run_ok_def y' q)
qed

lemma finish_run_ok:
  assumes "run_ok queue y"
  shows "\<exists>y'. io_step queue submit complete (Finish a ec n) y = Inr y' \<and> run_ok queue y'
     \<and> queue (r_state y') = drop 1 (queue (r_state y))"
proof (cases "queue (r_state y)")
  case Nil
  with assms show ?thesis by (simp add: run_ok_def pending_ok_def)
next
  case (Cons it q)
  obtain st where st: "r_pending y = [st]" using assms Cons by (auto simp: run_ok_def pending_ok_def)
  let ?ec = "if st = Post_aborted then Operation_aborted else ec"
  let ?n = "if st = Post_aborted then 0 else n"
  obtain s es where "complete a ?ec ?n (r_state y) = Inr (s, es)" "queue s = q" "calls es = handler_of it"
    "pending_ok q (starts es)"
    using complete_ok [OF Cons, of a ?ec ?n] by blast
  with assms st Cons show ?thesis by (simp add: run_ok_def split: if_splits)
qed

theorem io_run_ok:
  assumes "run_ok queue y"
  shows "case io_run queue submit complete as y of Inl e \<Rightarrow> e = Bad_cast | Inr y' \<Rightarrow> run_ok queue y'"
  using assms
proof (induction as arbitrary: y)
  case Nil
  then show ?case by simp
next
  case (Cons a as)
  show ?case
  proof (cases "io_step queue submit complete a y")
    case (Inl e)
    then have "e = Bad_cast"
    proof (cases a)
      case (Submit x it mx)
      then show ?thesis using Inl submit_fails by (auto split: sum.splits)
    next
      case (Finish x ec n)
      then show ?thesis using Inl finish_run_ok [OF Cons.prems, of x ec n] by auto
    qed
    then show ?thesis using Inl by simp
  next
    case (Inr y')
    then have "run_ok queue y'"
    proof (cases a)
      case (Submit x it mx)
      then show ?thesis using Inr submit_run_ok [OF Cons.prems] by blast
    next
      case (Finish x ec n)
      then show ?thesis using Inr finish_run_ok [OF Cons.prems, of x ec n] by auto
    qed
    from Cons.IH [OF this] Inr show ?thesis by simp
  qed
qed

text \<open>A session whose submissions never fail never fails at all.\<close>

lemma io_run_returns:
  assumes "run_ok queue y" and "\<And>a it mx s. \<exists>r. submit a it mx s = Inr r"
  shows "\<exists>y'. io_run queue submit complete as y = Inr y'"
  using assms(1)
proof (induction as arbitrary: y)
  case Nil
  then show ?case by simp
next
  case (Cons a as)
  have "\<exists>y'. io_step queue submit complete a y = Inr y' \<and> run_ok queue y'"
  proof (cases a)
    case (Submit x it mx)
    obtain s es where "submit x it mx (r_state y) = Inr (s, es)" using assms(2) by fastforce
    then have "\<exists>y'. io_step queue submit complete a y = Inr y'" by (simp add: Submit)
    then show ?thesis using submit_run_ok [OF Cons.prems] Submit by blast
  next
    case (Finish x ec n)
    then show ?thesis using finish_run_ok [OF Cons.prems, of x ec n] by blast
  qed
  then show ?case using Cons.IH by fastforce
qed

lemma submit_short:
  assumes "io_step queue submit complete (Submit a it mx) y = Inr y'" and "mx \<le> m"
  shows "short_ok queue m y'"
proof -
  let ?q = "queue (r_state y)"
  let ?t = "fst (trim (max mx 2) 2 ?q)"
  obtain s es where s: "submit a it mx (r_state y) = Inr (s, es)" and y': "r_state y' = s"
    using assms(1) by (auto split: sum.splits)
  have "length ?t < max mx 2 \<or> (\<forall>it \<in> set (drop 2 ?t). it_force it)"
    by (rule trim_room) simp
  then have "length ?t + 1 \<le> max m 3 + count_if it_force ?t"
  proof
    assume "length ?t < max mx 2"
    then show ?thesis using assms(2) by linarith
  next
    assume "\<forall>it \<in> set (drop 2 ?t). it_force it"
    then have "count_if it_force (drop 2 ?t) = length ?t - 2" by (simp add: count_if_def)
    moreover have "count_if it_force ?t = count_if it_force (take 2 ?t) + count_if it_force (drop 2 ?t)"
      by (metis append_take_drop_id count_if_simps(3))
    ultimately show ?thesis by linarith
  qed
  then show ?thesis by (simp add: short_ok_def y' submit_queue [OF s])
qed

theorem io_run_short:
  assumes "run_ok queue y" and "short_ok queue m y" and "\<forall>a \<in> set as. io_limit m a"
    and "io_run queue submit complete as y = Inr y'"
  shows "short_ok queue m y'"
  using assms
proof (induction as arbitrary: y)
  case Nil
  then show ?case by simp
next
  case (Cons a as)
  obtain y1 where y1: "io_step queue submit complete a y = Inr y1" "io_run queue submit complete as y1 = Inr y'"
    using Cons.prems(4) by (auto split: sum.splits)
  have "run_ok queue y1 \<and> short_ok queue m y1"
  proof (cases a)
    case (Submit x it mx)
    then show ?thesis using Cons.prems y1(1) submit_run_ok submit_short by (metis io_limit.simps(1) list.set_intros(1))
  next
    case (Finish x ec n)
    then have "run_ok queue y1" "queue (r_state y1) = drop 1 (queue (r_state y))"
      using finish_run_ok [OF Cons.prems(1), of x ec n] y1(1) by auto
    then show ?thesis using Cons.prems(2)
      by (cases "queue (r_state y)") (auto simp: short_ok_def split: if_splits)
  qed
  then show ?case using Cons.IH [OF _ _ _ y1(2)] Cons.prems(3) by simp
qed

end

end
