(* ===== verification/Strand.thy ===== *)
theory Strand
  imports Send_Queue
begin

text \<open>
  The strand of a session: \<open>sendAsync\<close> (\<^verbatim>\<open>Networking/src/websocket_session.cpp\<close>, \<^verbatim>\<open>http_session.cpp\<close>) posts \<open>on_send\<close> to it, and
  it runs what is posted to it in the order of the posts, while the operations of the session complete in between.
\<close>

section \<open>Posting\<close>

text \<open>\<open>po_posted\<close>: the calls of \<open>on_send\<close> that wait on the strand; \<open>po_told\<close>, for the specification: the messages given to \<open>sendAsync\<close>.\<close>

record 's posting =
  po_run :: "'s run"
  po_posted :: "(item \<times> nat) list"
  po_told :: "item list"

definition posting_new :: "'s \<Rightarrow> 's posting" where
  "posting_new s = \<lparr>po_run = run_start s, po_posted = [], po_told = []\<rparr>"

text \<open>The strand runs the call that was posted first; a step of the session, if it is not a submission.\<close>

definition strand_next ::
  "('s \<Rightarrow> item list) \<Rightarrow> ('a \<Rightarrow> item \<Rightarrow> nat \<Rightarrow> 's \<Rightarrow> ('s \<times> effect list) result)
   \<Rightarrow> ('a \<Rightarrow> error_code \<Rightarrow> nat \<Rightarrow> 's \<Rightarrow> ('s \<times> effect list) result) \<Rightarrow> 'a \<Rightarrow> 's posting \<Rightarrow> 's posting result" where
  "strand_next queue submit complete a s =
     (case po_posted s of
        [] \<Rightarrow> Inr s
      | (it, mx) # rest \<Rightarrow>
          (case io_step queue submit complete (Submit a it mx) (po_run s) of
             Inl e \<Rightarrow> Inl e
           | Inr r \<Rightarrow> Inr (s\<lparr>po_run := r, po_posted := rest\<rparr>)))"

definition strand_finish ::
  "('s \<Rightarrow> item list) \<Rightarrow> ('a \<Rightarrow> item \<Rightarrow> nat \<Rightarrow> 's \<Rightarrow> ('s \<times> effect list) result)
   \<Rightarrow> ('a \<Rightarrow> error_code \<Rightarrow> nat \<Rightarrow> 's \<Rightarrow> ('s \<times> effect list) result) \<Rightarrow> 'a \<Rightarrow> error_code \<Rightarrow> nat
   \<Rightarrow> 's posting \<Rightarrow> 's posting result" where
  "strand_finish queue submit complete a ec n s =
     (case io_step queue submit complete (Finish a ec n) (po_run s) of
        Inl e \<Rightarrow> Inl e
      | Inr r \<Rightarrow> Inr (s\<lparr>po_run := r\<rparr>))"

definition posting_ok :: "('s \<Rightarrow> item list) \<Rightarrow> item list \<Rightarrow> 's posting \<Rightarrow> bool" where
  "posting_ok queue log s \<longleftrightarrow>
     run_ok queue (po_run s) \<and> po_told s = r_submitted (po_run s) @ map fst (po_posted s) \<and> subseq (po_told s) log"

context send_queue
begin

lemma strand_next_ok:
  assumes "posting_ok queue log s"
  shows "case strand_next queue submit complete a s of Inl e \<Rightarrow> e = Bad_cast
     | Inr s' \<Rightarrow> posting_ok queue log s' \<and> po_told s' = po_told s"
proof (cases "po_posted s")
  case Nil
  then show ?thesis using assms by (simp add: strand_next_def)
next
  case (Cons c rest)
  obtain it mx where c: "c = (it, mx)" by fastforce
  show ?thesis
  proof (cases "io_step queue submit complete (Submit a it mx) (po_run s)")
    case (Inl e)
    then show ?thesis using Cons c submit_fails by (auto simp: strand_next_def split: sum.splits prod.splits)
  next
    case (Inr r)
    have "run_ok queue r" using submit_run_ok [OF _ Inr] assms by (simp add: posting_ok_def)
    moreover have "r_submitted r = r_submitted (po_run s) @ [it]" using Inr by (auto split: sum.splits)
    ultimately show ?thesis using assms Cons c Inr
      by (auto simp: strand_next_def posting_ok_def simp del: io_step.simps)
  qed
qed

lemma strand_finish_ok:
  assumes "posting_ok queue log s"
  shows "\<exists>s'. strand_finish queue submit complete a ec n s = Inr s' \<and> posting_ok queue log s' \<and> po_told s' = po_told s"
proof -
  obtain r where r: "io_step queue submit complete (Finish a ec n) (po_run s) = Inr r" "run_ok queue r"
    using finish_run_ok [of "po_run s" a ec n] assms by (auto simp: posting_ok_def)
  then have "r_submitted r = r_submitted (po_run s)" by (auto split: sum.splits list.splits)
  then show ?thesis using assms r by (auto simp: strand_finish_def posting_ok_def simp del: io_step.simps)
qed

lemma posting_order:
  assumes "posting_ok queue log s"
  shows "subseq (r_done (po_run s) @ queue (r_state (po_run s)) @ map fst (po_posted s)) log"
    and "filter it_force (r_done (po_run s) @ queue (r_state (po_run s)) @ map fst (po_posted s)) = filter it_force (po_told s)"
    and "mset (handlers (po_told s)) = mset (r_called (po_run s)) + mset (handlers (queue (r_state (po_run s)) @ map fst (po_posted s)))"
proof -
  let ?r = "po_run s" and ?p = "map fst (po_posted s)"
  have o: "subseq (r_done ?r @ queue (r_state ?r)) (r_submitted ?r)"
    "filter it_force (r_done ?r @ queue (r_state ?r)) = filter it_force (r_submitted ?r)"
    "mset (handlers (r_submitted ?r)) = mset (r_called ?r) + mset (handlers (queue (r_state ?r)))"
    "po_told s = r_submitted ?r @ ?p" "subseq (po_told s) log"
    using assms unfolding posting_ok_def run_ok_def by blast+
  have "subseq ((r_done ?r @ queue (r_state ?r)) @ ?p) (r_submitted ?r @ ?p)"
    by (intro list_emb_append_mono o(1) subseq_order.refl)
  then show "subseq (r_done ?r @ queue (r_state ?r) @ ?p) log"
    using o(4,5) subseq_order.trans by fastforce
  show "filter it_force (r_done ?r @ queue (r_state ?r) @ ?p) = filter it_force (po_told s)" using o(2,4) by simp
  show "mset (handlers (po_told s)) = mset (r_called ?r) + mset (handlers (queue (r_state ?r) @ ?p))" using o(3,4) by simp
qed

end

lemma posting_ok_new: "queue s = [] \<Longrightarrow> posting_ok queue log (posting_new s)"
  by (simp add: posting_ok_def posting_new_def run_ok_def run_start_def pending_ok_def)

lemma posting_ok_log: "posting_ok queue log s \<Longrightarrow> subseq (po_told s) log"
  unfolding posting_ok_def by (elim conjE)

lemma posting_ok_longer:
  assumes "posting_ok queue log s"
  shows "posting_ok queue (log @ [it]) s"
proof -
  have "subseq (po_told s @ []) (log @ [it])" by (intro list_emb_append_mono posting_ok_log [OF assms]) simp
  then show ?thesis using assms by (auto simp: posting_ok_def)
qed

lemma posting_ok_send:
  assumes "posting_ok queue log s"
  shows "posting_ok queue (log @ [it]) (s\<lparr>po_posted := po_posted s @ [(it, mx)], po_told := po_told s @ [it]\<rparr>)"
    (is "posting_ok queue _ ?s")
proof -
  have "run_ok queue (po_run ?s)" "po_told ?s = r_submitted (po_run ?s) @ map fst (po_posted ?s)"
    using assms by (simp_all add: posting_ok_def)
  moreover have "subseq (po_told ?s) (log @ [it])" using posting_ok_log [OF assms] by simp
  ultimately show ?thesis unfolding posting_ok_def by (intro conjI)
qed

end
