(* ===== verification/Shared_State.thy ===== *)
theory Shared_State
  imports Strand
begin

text \<open>
  \<^verbatim>\<open>Networking/src/shared_state.hpp\<close> and \<^verbatim>\<open>shared_state.cpp\<close>: what the sessions of a
  server share - the four registers of sessions, the user's callbacks, and sending to all sessions or to
  those of one endpoint.

  A session is known by a number (its address). What the server reads of a session - its endpoint, the
  length of its queue, and whether it is still owned, so that locking the weak pointer succeeds - is an
  argument of the operations. The registers are \<open>unordered_set\<close>s: lists whose order means nothing.
\<close>

section \<open>State\<close>

datatype kind = Ws | Wss | Http | Https

text \<open>There are four registers, so that a statement about all of them can be computed.\<close>

instantiation kind :: enum
begin

definition "enum_kind = [Ws, Wss, Http, Https]"
definition "enum_all_kind P \<longleftrightarrow> P Ws \<and> P Wss \<and> P Http \<and> P Https"
definition "enum_ex_kind P \<longleftrightarrow> P Ws \<or> P Wss \<or> P Http \<or> P Https"

instance
proof
  show univ: "UNIV = set (Enum.enum :: kind list)"
    unfolding enum_kind_def using kind.exhaust by (auto simp: UNIV_eq_I)
  show "distinct (Enum.enum :: kind list)" by (simp add: enum_kind_def)
  show "Enum.enum_all P \<longleftrightarrow> Ball UNIV P" "Enum.enum_ex P \<longleftrightarrow> Bex UNIV P" for P :: "kind \<Rightarrow> bool"
    unfolding univ by (simp_all add: enum_kind_def enum_all_kind_def enum_ex_kind_def)
qed

end

lemma UNIV_kind: "UNIV = {Ws, Wss, Http, Https}"
  using UNIV_enum [where ?'a = kind] by (simp add: enum_kind_def)

datatype callback =
    Cb_ws_read | Cb_http_read | Cb_accept | Cb_upgrade | Cb_downgrade | Cb_close | Cb_error | Cb_print | Cb_body_length

record shared_state =
  doc_root :: string
  read_message_max :: nat
  server_is_tcp :: bool
  nonhttp_header_size :: nat
  sessions :: "kind \<Rightarrow> nat list"
  pools :: "kind \<Rightarrow> nat list"
  installed :: "callback \<Rightarrow> bool"

record 'e session_view =
  sv_endpoint :: 'e
  sv_owned :: bool
  sv_queue_size :: nat

text \<open>
  What the server does to the outside: it calls a callback of the user, posts a message to a session, or
  calls a completion handler itself.
\<close>

datatype 'e outcome =
    Callback callback 'e nat
  | Session_send kind nat item nat
  | Completion nat error_code

definition shared_state_new :: "string \<Rightarrow> (callback \<Rightarrow> bool) \<Rightarrow> bool \<Rightarrow> nat \<Rightarrow> shared_state" where
  "shared_state_new root cbs tcp header = \<lparr>doc_root = root, read_message_max = 0, server_is_tcp = tcp,
     nonhttp_header_size = header, sessions = (\<lambda>_. []), pools = (\<lambda>_. []), installed = cbs\<rparr>"

text \<open>
  The other constructors. Only the callback for printing is set by default. The first leaves \<open>nonhttp_header_size_\<close> as it finds it
  (\<open>garbage\<close>).
\<close>

definition default_callbacks :: "callback \<Rightarrow> bool" where
  "default_callbacks c \<longleftrightarrow> c = Cb_print"

definition shared_state_default :: "nat \<Rightarrow> shared_state" where
  "shared_state_default garbage = \<lparr>doc_root = [], read_message_max = 0, server_is_tcp = False,
     nonhttp_header_size = garbage, sessions = (\<lambda>_. []), pools = (\<lambda>_. []), installed = default_callbacks\<rparr>"

definition shared_state_of_root :: "string \<Rightarrow> shared_state" where
  "shared_state_of_root root = \<lparr>doc_root = root, read_message_max = 0, server_is_tcp = False,
     nonhttp_header_size = 0, sessions = (\<lambda>_. []), pools = (\<lambda>_. []), installed = default_callbacks\<rparr>"

definition shared_state_of_callbacks :: "(callback \<Rightarrow> bool) \<Rightarrow> shared_state" where
  "shared_state_of_callbacks cbs = \<lparr>doc_root = [], read_message_max = 0, server_is_tcp = False,
     nonhttp_header_size = 0, sessions = (\<lambda>_. []), pools = (\<lambda>_. []), installed = cbs\<rparr>"

text \<open>What the print callback is told about the root; \<open>exists\<close> is the file system.\<close>

definition check_doc_root :: "(string \<Rightarrow> bool) \<Rightarrow> shared_state \<Rightarrow> string list" where
  "check_doc_root exists st =
     (if installed st Cb_print
      then (if \<not> exists (doc_root st) then [''root directory does not exist \"'' @ doc_root st @ ''\"'']
            else [''starting server at root \"'' @ doc_root st @ ''\"''])
      else [])"

lemma constructors_agree:
  "shared_state_of_root root = shared_state_new root default_callbacks False 0"
  "shared_state_of_callbacks cbs = shared_state_new [] cbs False 0"
  "(shared_state_default garbage)\<lparr>nonhttp_header_size := 0\<rparr> = shared_state_of_root []"
  by (simp_all add: shared_state_default_def shared_state_of_root_def shared_state_of_callbacks_def shared_state_new_def)

definition set_read_message_max :: "nat \<Rightarrow> shared_state \<Rightarrow> shared_state" where
  "set_read_message_max n st = st\<lparr>read_message_max := n\<rparr>"

definition notify_user :: "callback \<Rightarrow> 'e \<Rightarrow> nat \<Rightarrow> shared_state \<Rightarrow> 'e outcome list" where
  "notify_user c ep n st = (if installed st c then [Callback c ep n] else [])"

section \<open>The registers\<close>

definition insert_session :: "kind \<Rightarrow> nat \<Rightarrow> shared_state \<Rightarrow> shared_state" where
  "insert_session k p st = st\<lparr>sessions := (sessions st)(k := List.insert p (sessions st k))\<rparr>"

definition erase_session :: "kind \<Rightarrow> nat \<Rightarrow> shared_state \<Rightarrow> shared_state" where
  "erase_session k p st = st\<lparr>sessions := (sessions st)(k := removeAll p (sessions st k))\<rparr>"

definition upgrade_ws :: "(kind \<Rightarrow> nat \<Rightarrow> 'e session_view) \<Rightarrow> nat \<Rightarrow> shared_state \<Rightarrow> shared_state \<times> 'e outcome list" where
  "upgrade_ws view p st =
     (let st' = insert_session Ws p st in (st', notify_user Cb_upgrade (sv_endpoint (view Ws p)) 0 st'))"

definition downgrade_ws :: "(kind \<Rightarrow> nat \<Rightarrow> 'e session_view) \<Rightarrow> nat \<Rightarrow> shared_state \<Rightarrow> shared_state \<times> 'e outcome list" where
  "downgrade_ws view p st =
     (let st' = erase_session Ws p st in (st', notify_user Cb_downgrade (sv_endpoint (view Ws p)) 0 st'))"

definition upgrade_wss :: "(kind \<Rightarrow> nat \<Rightarrow> 'e session_view) \<Rightarrow> nat \<Rightarrow> shared_state \<Rightarrow> shared_state \<times> 'e outcome list" where
  "upgrade_wss view p st =
     (let st' = insert_session Wss p st in (st', notify_user Cb_upgrade (sv_endpoint (view Wss p)) 0 st'))"

definition downgrade_wss :: "(kind \<Rightarrow> nat \<Rightarrow> 'e session_view) \<Rightarrow> nat \<Rightarrow> shared_state \<Rightarrow> shared_state \<times> 'e outcome list" where
  "downgrade_wss view p st =
     (let st' = erase_session Wss p st in (st', notify_user Cb_downgrade (sv_endpoint (view Wss p)) 0 st'))"

definition join_http :: "(kind \<Rightarrow> nat \<Rightarrow> 'e session_view) \<Rightarrow> nat \<Rightarrow> shared_state \<Rightarrow> shared_state \<times> 'e outcome list" where
  "join_http view p st =
     (let st' = insert_session Http p st in (st', notify_user Cb_accept (sv_endpoint (view Http p)) 0 st'))"

definition leave_http :: "(kind \<Rightarrow> nat \<Rightarrow> 'e session_view) \<Rightarrow> nat \<Rightarrow> shared_state \<Rightarrow> shared_state \<times> 'e outcome list" where
  "leave_http view p st =
     (let st' = erase_session Http p st in (st', notify_user Cb_close (sv_endpoint (view Http p)) 0 st'))"

definition join_https :: "(kind \<Rightarrow> nat \<Rightarrow> 'e session_view) \<Rightarrow> nat \<Rightarrow> shared_state \<Rightarrow> shared_state \<times> 'e outcome list" where
  "join_https view p st =
     (let st' = insert_session Https p st in (st', notify_user Cb_accept (sv_endpoint (view Https p)) 0 st'))"

definition leave_https :: "(kind \<Rightarrow> nat \<Rightarrow> 'e session_view) \<Rightarrow> nat \<Rightarrow> shared_state \<Rightarrow> shared_state \<times> 'e outcome list" where
  "leave_https view p st =
     (let st' = erase_session Https p st in (st', notify_user Cb_close (sv_endpoint (view Https p)) 0 st'))"

lemmas register_defs = upgrade_ws_def downgrade_ws_def upgrade_wss_def downgrade_wss_def
  join_http_def leave_http_def join_https_def leave_https_def

text \<open>The number of insecure sessions, of secure ones, and their sum.\<close>

definition nSessions :: "shared_state \<Rightarrow> nat \<times> nat \<times> nat" where
  "nSessions st =
     (let insecure = length (sessions st Ws) + length (sessions st Http);
          secure = length (sessions st Wss) + length (sessions st Https)
      in (insecure, secure, insecure + secure))"

definition queue_sizes_of :: "(kind \<Rightarrow> nat \<Rightarrow> 'e session_view) \<Rightarrow> kind \<Rightarrow> shared_state \<Rightarrow> nat" where
  "queue_sizes_of view k st =
     (\<Sum>p \<leftarrow> sessions st k. if sv_owned (view k p) then sv_queue_size (view k p) else 0)"

definition queue_sizes_summed :: "(kind \<Rightarrow> nat \<Rightarrow> 'e session_view) \<Rightarrow> shared_state \<Rightarrow> nat" where
  "queue_sizes_summed view st = queue_sizes_of view Ws st + queue_sizes_of view Wss st
     + queue_sizes_of view Http st + queue_sizes_of view Https st"

definition get_endpoints :: "(kind \<Rightarrow> nat \<Rightarrow> 'e session_view) \<Rightarrow> shared_state \<Rightarrow> 'e list" where
  "get_endpoints view st =
     map (\<lambda>p. sv_endpoint (view Ws p)) (sessions st Ws) @ map (\<lambda>p. sv_endpoint (view Wss p)) (sessions st Wss)
     @ map (\<lambda>p. sv_endpoint (view Http p)) (sessions st Http) @ map (\<lambda>p. sv_endpoint (view Https p)) (sessions st Https)"

definition on_ws_read :: "'e \<Rightarrow> nat \<Rightarrow> shared_state \<Rightarrow> 'e outcome list" where
  "on_ws_read ep n st = notify_user Cb_ws_read ep n st"

definition on_http_read :: "'e \<Rightarrow> nat \<Rightarrow> shared_state \<Rightarrow> 'e outcome list" where
  "on_http_read ep n st = notify_user Cb_http_read ep n st"

definition server_on_error :: "'e \<Rightarrow> shared_state \<Rightarrow> 'e outcome list" where
  "server_on_error ep st = notify_user Cb_error ep 0 st"

section \<open>Sending\<close>

text \<open>
  Both forms of \<open>sendAsync\<close> first copy the registers into the pools, under the mutex, and then send along
  the pools, without it. The pools are members of the server.
\<close>

definition pool_selected :: "bool \<Rightarrow> bool \<Rightarrow> shared_state \<Rightarrow> shared_state" where
  "pool_selected to_ws to_tcp st =
     st\<lparr>pools := (\<lambda>k. if (case k of Ws \<Rightarrow> to_ws | Wss \<Rightarrow> to_ws | Http \<Rightarrow> to_tcp | Https \<Rightarrow> to_tcp)
                       then sessions st k else [])\<rparr>"

definition send_along ::
  "(kind \<Rightarrow> nat \<Rightarrow> 'e session_view) \<Rightarrow> ('e \<Rightarrow> bool) \<Rightarrow> item \<Rightarrow> nat \<Rightarrow> kind \<Rightarrow> shared_state \<Rightarrow> 'e outcome list" where
  "send_along view match it mx k st =
     map (\<lambda>p. Session_send k p it mx)
       (filter (\<lambda>p. sv_owned (view k p) \<and> match (sv_endpoint (view k p))) (pools st k))"

definition send_pooled ::
  "(kind \<Rightarrow> nat \<Rightarrow> 'e session_view) \<Rightarrow> ('e \<Rightarrow> bool) \<Rightarrow> item \<Rightarrow> nat \<Rightarrow> shared_state \<Rightarrow> 'e outcome list" where
  "send_pooled view match it mx st =
     (let sent = send_along view match it mx Ws st @ send_along view match it mx Wss st
               @ send_along view match it mx Http st @ send_along view match it mx Https st
      in if sent = []
         then (case it_handler it of None \<Rightarrow> [] | Some h \<Rightarrow> [Completion h Not_connected])
         else sent)"

definition broadcast ::
  "(kind \<Rightarrow> nat \<Rightarrow> 'e session_view) \<Rightarrow> item \<Rightarrow> nat \<Rightarrow> bool \<Rightarrow> bool \<Rightarrow> shared_state \<Rightarrow> shared_state \<times> 'e outcome list" where
  "broadcast view it mx to_ws to_tcp st =
     (let st' = pool_selected to_ws to_tcp st in (st', send_pooled view (\<lambda>_. True) it mx st'))"

definition send_to ::
  "(kind \<Rightarrow> nat \<Rightarrow> 'e session_view) \<Rightarrow> 'e \<Rightarrow> item \<Rightarrow> nat \<Rightarrow> shared_state \<Rightarrow> shared_state \<times> 'e outcome list" where
  "send_to view ep it mx st =
     (let st' = pool_selected True True st in (st', send_pooled view (\<lambda>ep'. ep' = ep) it mx st'))"

text \<open>
  The forms that take a string copy it to the heap (at \<open>p\<close>) and hand it, with a handler \<open>h\<close> that does
  nothing but own the copy, to the other forms.
\<close>

definition string_item :: "addr \<Rightarrow> string \<Rightarrow> nat \<Rightarrow> bool \<Rightarrow> item" where
  "string_item p str h force = \<lparr>it_ptr = p, it_size = of_nat (length str), it_handler = Some h, it_force = force\<rparr>"

definition broadcast_string ::
  "(kind \<Rightarrow> nat \<Rightarrow> 'e session_view) \<Rightarrow> addr \<Rightarrow> string \<Rightarrow> nat \<Rightarrow> bool \<Rightarrow> nat \<Rightarrow> bool \<Rightarrow> bool \<Rightarrow> shared_state
   \<Rightarrow> shared_state \<times> 'e outcome list" where
  "broadcast_string view p str h force mx to_ws to_tcp st = broadcast view (string_item p str h force) mx to_ws to_tcp st"

definition send_string_to ::
  "(kind \<Rightarrow> nat \<Rightarrow> 'e session_view) \<Rightarrow> 'e \<Rightarrow> addr \<Rightarrow> string \<Rightarrow> nat \<Rightarrow> bool \<Rightarrow> nat \<Rightarrow> shared_state
   \<Rightarrow> shared_state \<times> 'e outcome list" where
  "send_string_to view ep p str h force mx st = send_to view ep (string_item p str h force) mx st"

section \<open>Who is registered\<close>

datatype membership = Enter kind nat | Exit kind nat

fun member_step :: "(kind \<Rightarrow> nat \<Rightarrow> 'e session_view) \<Rightarrow> membership \<Rightarrow> shared_state \<Rightarrow> shared_state \<times> 'e outcome list" where
  "member_step view (Enter Ws p) st = upgrade_ws view p st"
| "member_step view (Enter Wss p) st = upgrade_wss view p st"
| "member_step view (Enter Http p) st = join_http view p st"
| "member_step view (Enter Https p) st = join_https view p st"
| "member_step view (Exit Ws p) st = downgrade_ws view p st"
| "member_step view (Exit Wss p) st = downgrade_wss view p st"
| "member_step view (Exit Http p) st = leave_http view p st"
| "member_step view (Exit Https p) st = leave_https view p st"

definition member_run :: "(kind \<Rightarrow> nat \<Rightarrow> 'e session_view) \<Rightarrow> membership list \<Rightarrow> shared_state \<Rightarrow> shared_state" where
  "member_run view ms st = fold (\<lambda>m st. fst (member_step view m st)) ms st"

text \<open>The specification: present are those that entered and have not left since.\<close>

fun present_after :: "membership list \<Rightarrow> (kind \<times> nat) set \<Rightarrow> (kind \<times> nat) set" where
  "present_after [] S = S"
| "present_after (Enter k p # ms) S = present_after ms (insert (k, p) S)"
| "present_after (Exit k p # ms) S = present_after ms (S - {(k, p)})"

definition registered :: "shared_state \<Rightarrow> (kind \<times> nat) set" where
  "registered st = {(k, p). p \<in> set (sessions st k)}"

definition registers_ok :: "shared_state \<Rightarrow> bool" where
  "registers_ok st \<longleftrightarrow> (\<forall>k. distinct (sessions st k))"

lemma member_enter: "fst (member_step view (Enter k p) st) = insert_session k p st"
  by (cases k) (simp_all add: register_defs Let_def)

lemma member_exit: "fst (member_step view (Exit k p) st) = erase_session k p st"
  by (cases k) (simp_all add: register_defs Let_def)

lemma registered_enter:
  "registered (insert_session k p st) = insert (k, p) (registered st)"
  "registers_ok st \<Longrightarrow> registers_ok (insert_session k p st)"
  by (auto simp: registered_def registers_ok_def insert_session_def split: if_splits)

lemma registered_exit:
  "registered (erase_session k p st) = registered st - {(k, p)}"
  "registers_ok st \<Longrightarrow> registers_ok (erase_session k p st)"
  by (auto simp: registered_def registers_ok_def erase_session_def distinct_removeAll split: if_splits)

lemma member_run_ok:
  assumes "registers_ok st"
  shows "registers_ok (member_run view ms st) \<and> registered (member_run view ms st) = present_after ms (registered st)"
  using assms
proof (induction ms arbitrary: st)
  case Nil
  then show ?case by (simp add: member_run_def)
next
  case (Cons m ms)
  have run: "member_run view (m # ms) st = member_run view ms (fst (member_step view m st))"
    by (simp add: member_run_def)
  show ?case
  proof (cases m)
    case (Enter k p)
    then show ?thesis
      using Cons.IH [OF registered_enter(2) [OF Cons.prems, of k p]]
      unfolding run by (simp only: member_enter present_after.simps registered_enter(1))
  next
    case (Exit k p)
    then show ?thesis
      using Cons.IH [OF registered_exit(2) [OF Cons.prems, of k p]]
      unfolding run by (simp only: member_exit present_after.simps registered_exit(1))
  qed
qed

lemma card_registered:
  assumes "registers_ok st"
  shows "card (registered st) = snd (snd (nSessions st))"
proof -
  have "registered st = (\<Union>k. Pair k ` set (sessions st k))" by (auto simp: registered_def)
  moreover have "card (Pair k ` set (sessions st k)) = length (sessions st k)" for k
    using assms by (simp add: card_image inj_on_def registers_ok_def distinct_card)
  moreover have "card (\<Union>k. Pair k ` set (sessions st k)) = (\<Sum>k \<in> UNIV. card (Pair k ` set (sessions st k)))"
    by (rule card_UN_disjoint) auto
  ultimately show ?thesis by (simp add: UNIV_kind nSessions_def Let_def)
qed

text \<open>
  The registers of the server: after any sequence of sessions that come and go, in any order and with
  repetitions, a session is registered exactly when it came and has not gone since, and \<open>nSessions\<close> counts
  those sessions.
\<close>

lemma sessions_registered_exactly:
  shows "registered (member_run view ms (shared_state_new root cbs tcp header)) = present_after ms {}
     \<and> snd (snd (nSessions (member_run view ms (shared_state_new root cbs tcp header)))) = card (present_after ms {})
     \<and> length (get_endpoints view (member_run view ms (shared_state_new root cbs tcp header))) = card (present_after ms {})"
proof -
  let ?st = "shared_state_new root cbs tcp header"
  have "registers_ok ?st" "registered ?st = {}"
    by (simp_all add: registers_ok_def registered_def shared_state_new_def)
  then have "registers_ok (member_run view ms ?st)" "registered (member_run view ms ?st) = present_after ms {}"
    using member_run_ok [of ?st view ms] by simp_all
  then show ?thesis
    using card_registered [of "member_run view ms ?st"] by (simp add: get_endpoints_def nSessions_def Let_def)
qed

section \<open>Who is sent to\<close>

text \<open>The posts of a list of outcomes, and what a correct send to the sessions \<open>S\<close> does.\<close>

fun recipient :: "'e outcome \<Rightarrow> (kind \<times> nat) list" where
  "recipient (Session_send k p it mx) = [(k, p)]"
| "recipient _ = []"

definition recipients :: "'e outcome list \<Rightarrow> (kind \<times> nat) list" where
  "recipients es = concat (map recipient es)"

definition not_connected :: "item \<Rightarrow> 'e outcome list" where
  "not_connected it = (case it_handler it of None \<Rightarrow> [] | Some h \<Rightarrow> [Completion h Not_connected])"

definition delivers :: "item \<Rightarrow> nat \<Rightarrow> (kind \<times> nat) set \<Rightarrow> 'e outcome list \<Rightarrow> bool" where
  "delivers it mx S es \<longleftrightarrow>
     (if S = {} then es = not_connected it
      else distinct (recipients es) \<and> set (recipients es) = S
        \<and> es = map (\<lambda>(k, p). Session_send k p it mx) (recipients es))"

lemma recipients_along [simp]:
  "recipients (es @ fs) = recipients es @ recipients fs"
  "recipients (send_along view match it mx k st)
     = map (Pair k) (filter (\<lambda>p. sv_owned (view k p) \<and> match (sv_endpoint (view k p))) (pools st k))"
proof -
  show "recipients (es @ fs) = recipients es @ recipients fs" by (simp add: recipients_def)
  have "recipients (map (\<lambda>p. Session_send k p it mx) ps) = map (Pair k) ps" for ps
    by (induction ps) (simp_all add: recipients_def)
  then show "recipients (send_along view match it mx k st)
     = map (Pair k) (filter (\<lambda>p. sv_owned (view k p) \<and> match (sv_endpoint (view k p))) (pools st k))"
    by (simp add: send_along_def)
qed

lemma recipients_not_connected [simp]: "recipients (not_connected it) = []"
  by (cases "it_handler it") (simp_all add: not_connected_def recipients_def)

lemma send_along_map:
  "map (\<lambda>(k, p). Session_send k p it mx) (recipients (send_along view match it mx k st))
   = send_along view match it mx k st"
  unfolding recipients_along(2) by (simp add: send_along_def)

lemma send_pooled_delivers:
  assumes "\<forall>k. distinct (pools st k)"
  shows "delivers it mx {(k, p). p \<in> set (pools st k) \<and> sv_owned (view k p) \<and> match (sv_endpoint (view k p))}
     (send_pooled view match it mx st)"
proof -
  let ?a = "\<lambda>k. send_along view match it mx k st"
  let ?sent = "?a Ws @ ?a Wss @ ?a Http @ ?a Https"
  let ?S = "{(k, p). p \<in> set (pools st k) \<and> sv_owned (view k p) \<and> match (sv_endpoint (view k p))}"
  have "(k, p) \<in> set (recipients ?sent) \<longleftrightarrow> (k, p) \<in> ?S" for k p
    by (cases k) auto
  then have set: "set (recipients ?sent) = ?S" by auto
  have dist: "distinct (recipients ?sent)"
    using assms by (auto simp: distinct_map inj_on_def)
  have img: "?sent = map (\<lambda>(k, p). Session_send k p it mx) (recipients ?sent)"
    by (simp only: recipients_along(1) map_append send_along_map)
  define sent where "sent = ?sent"
  have sent: "set (recipients sent) = ?S" "distinct (recipients sent)"
    "sent = map (\<lambda>(k, p). Session_send k p it mx) (recipients sent)"
    using set dist img unfolding sent_def by fast+
  have pooled: "send_pooled view match it mx st = (if sent = [] then not_connected it else sent)"
    by (simp add: send_pooled_def not_connected_def sent_def Let_def)
  have "sent = [] \<longleftrightarrow> recipients sent = []"
    using sent(3) by (metis list.map_disc_iff)
  then have empty: "sent = [] \<longleftrightarrow> ?S = {}" unfolding sent(1) [symmetric] by simp
  show ?thesis
  proof (cases "?S = {}")
    case True
    then show ?thesis using empty by (simp only: delivers_def pooled if_True refl)
  next
    case False
    then show ?thesis using empty sent by (simp only: delivers_def pooled if_False simp_thms)
  qed
qed

fun is_ws :: "kind \<Rightarrow> bool" where
  "is_ws Ws = True"
| "is_ws Wss = True"
| "is_ws _ = False"

lemma pool_selected_pools:
  "pools (pool_selected to_ws to_tcp st) k = (if (if is_ws k then to_ws else to_tcp) then sessions st k else [])"
  by (cases k) (simp_all add: pool_selected_def)

lemma send_reaches_selected:
  assumes "registers_ok st"
  shows "delivers it mx {(k, p) \<in> registered st. (if is_ws k then to_ws else to_tcp) \<and> sv_owned (view k p)}
       (snd (broadcast view it mx to_ws to_tcp st))"
    and "sessions (fst (broadcast view it mx to_ws to_tcp st)) = sessions st"
proof -
  have "\<forall>k. distinct (pools (pool_selected to_ws to_tcp st) k)"
    using assms by (simp add: pool_selected_pools registers_ok_def)
  moreover have "{(k, p). p \<in> set (pools (pool_selected to_ws to_tcp st) k) \<and> sv_owned (view k p) \<and> True}
     = {(k, p) \<in> registered st. (if is_ws k then to_ws else to_tcp) \<and> sv_owned (view k p)}"
    by (auto simp: pool_selected_pools registered_def split: if_splits)
  ultimately show "delivers it mx {(k, p) \<in> registered st. (if is_ws k then to_ws else to_tcp) \<and> sv_owned (view k p)}
       (snd (broadcast view it mx to_ws to_tcp st))"
    using send_pooled_delivers [of "pool_selected to_ws to_tcp st" it mx view "\<lambda>_. True"] by (simp add: broadcast_def Let_def)
qed (simp add: broadcast_def Let_def pool_selected_def)

lemma send_to_reaches_endpoint:
  assumes "registers_ok st"
  shows "delivers it mx {(k, p) \<in> registered st. sv_owned (view k p) \<and> sv_endpoint (view k p) = ep}
       (snd (send_to view ep it mx st))"
    and "sessions (fst (send_to view ep it mx st)) = sessions st"
proof -
  have "\<forall>k. distinct (pools (pool_selected True True st) k)"
    using assms by (simp add: pool_selected_pools registers_ok_def)
  moreover have "{(k, p). p \<in> set (pools (pool_selected True True st) k) \<and> sv_owned (view k p) \<and> sv_endpoint (view k p) = ep}
     = {(k, p) \<in> registered st. sv_owned (view k p) \<and> sv_endpoint (view k p) = ep}"
    by (auto simp: pool_selected_pools registered_def)
  ultimately show "delivers it mx {(k, p) \<in> registered st. sv_owned (view k p) \<and> sv_endpoint (view k p) = ep}
       (snd (send_to view ep it mx st))"
    using send_pooled_delivers [of "pool_selected True True st" it mx view "\<lambda>ep'. ep' = ep"] by (simp add: send_to_def Let_def)
qed (simp add: send_to_def Let_def pool_selected_def)

text \<open>
  C37. A send reaches the right sessions: a broadcast is posted exactly once to each registered session of
  the selected kinds that still exists, a send to an endpoint exactly once to each existing session of
  that endpoint, with the message and the queue limit unchanged; and if there is none, and only then,
  the completion handler is called with \<open>not_connected\<close>. The registers do not change.
\<close>

theorem send_reaches_selected_sessions:
  assumes "registers_ok st"
  shows "delivers it mx {(k, p) \<in> registered st. (if is_ws k then to_ws else to_tcp) \<and> sv_owned (view k p)}
       (snd (broadcast view it mx to_ws to_tcp st))
     \<and> delivers it mx {(k, p) \<in> registered st. sv_owned (view k p) \<and> sv_endpoint (view k p) = ep}
       (snd (send_to view ep it mx st))
     \<and> sessions (fst (broadcast view it mx to_ws to_tcp st)) = sessions st
     \<and> sessions (fst (send_to view ep it mx st)) = sessions st"
  using send_reaches_selected [OF assms] send_to_reaches_endpoint [OF assms] by (intro conjI)

text \<open>Two clients and a browser connection; the second client is being destroyed.\<close>

definition example_view :: "kind \<Rightarrow> nat \<Rightarrow> nat session_view" where
  "example_view k p = \<lparr>sv_endpoint = p + 100, sv_owned = (p \<noteq> 2), sv_queue_size = 0\<rparr>"

definition example_state :: shared_state where
  "example_state = member_run example_view [Enter Ws 1, Enter Ws 2, Enter Http 3]
     (shared_state_new ''www'' (\<lambda>_. False) False 0)"

theorem send_reaches_selected_sessions_witness:
  "let it = \<lparr>it_ptr = 64, it_size = 8, it_handler = Some 7, it_force = False\<rparr>
   in snd (broadcast example_view it 2 True False example_state) = [Session_send Ws 1 it 2]
      \<and> snd (send_to example_view 55 it 2 example_state) = [Completion 7 Not_connected]"
proof -
  let ?it = "\<lparr>it_ptr = 64, it_size = 8, it_handler = Some 7, it_force = False\<rparr>"
  have ok: "registers_ok example_state" and reg: "registered example_state = {(Ws, 1), (Ws, 2), (Http, 3)}"
    using member_run_ok [of "shared_state_new ''www'' (\<lambda>_. False) False 0" example_view
        "[Enter Ws 1, Enter Ws 2, Enter Http 3]"]
    by (auto simp: example_state_def registers_ok_def registered_def shared_state_new_def)
  note ok2 = send_reaches_selected_sessions [OF ok, of ?it 2 True False example_view 55, unfolded reg]
  have "{(k, p) \<in> {(Ws, 1), (Ws, 2), (Http, 3)}. (if is_ws k then True else False) \<and> sv_owned (example_view k p)}
     = {(Ws, 1)}" by (auto simp: example_view_def)
  moreover have "{(k, p) \<in> {(Ws, 1), (Ws, 2), (Http, 3)}. sv_owned (example_view k p) \<and> sv_endpoint (example_view k p) = 55}
     = {}" by (auto simp: example_view_def)
  moreover have "distinct ks \<Longrightarrow> set ks = {(Ws, 1)} \<Longrightarrow> ks = [(Ws, 1)]" for ks :: "(kind \<times> nat) list"
    by (cases ks rule: list.exhaust; cases "tl ks") auto
  ultimately show ?thesis using ok2
    by (simp add: delivers_def not_connected_def) (metis (no_types, lifting) list.simps(8,9) prod.case)
qed

text \<open>
  Two broadcasts get into each other's way, because the pools are members of the server and are used
  without the mutex: when a second call, to the TCP sessions only, fills the pools after a first one, to
  the WebSocket sessions, has filled them and before it sends, the first call sends to no WebSocket
  session at all, whoever is registered - and if there are no TCP sessions it reports that nobody is
  connected. (This is the mildest interleaving; a pool that is cleared while it is iterated is undefined
  behaviour.)
\<close>

lemma concurrent_broadcasts_interfere:
  "filter (is_ws \<circ> fst) (recipients
       (send_pooled view (\<lambda>_. True) it mx (pool_selected False True (pool_selected True False st)))) = []
   \<and> send_pooled view (\<lambda>_. True) it mx (pool_selected False True (pool_selected True False
         (st\<lparr>sessions := (sessions st)(Http := [], Https := [])\<rparr>))) = not_connected it"
proof -
  have p: "pools (pool_selected False True (pool_selected True False st')) k
      = (if is_ws k then [] else sessions st' k)" for k st'
    by (simp add: pool_selected_pools) (simp add: pool_selected_def)
  have "filter (is_ws \<circ> fst) (map (Pair k) ps) = (if is_ws k then map (Pair k) ps else [])" for k and ps :: "nat list"
    by (induction ps) simp_all
  then show ?thesis
    by (simp add: send_pooled_def p Let_def flip: not_connected_def)
      (simp add: send_along_def p)
qed

end
