(* ===== verification/Http_Request.thy ===== *)
theory Http_Request
  imports IPC_Prelude
begin

text \<open>
  \<^verbatim>\<open>Networking/src/http_session.hpp\<close>, functions \<open>mime_type\<close>, \<open>path_cat\<close> and
  \<open>handle_request\<close>: the file server. The file system is a parameter: what opening a path gives.
  The branch of \<open>path_cat\<close> for other compilers than Microsoft's is the one modelled.
\<close>

section \<open>Mime types\<close>

text \<open>The part of a path from the last \<open>c\<close> on; nothing if there is none.\<close>

definition from_last :: "char \<Rightarrow> string \<Rightarrow> string" where
  "from_last c path = (if c \<in> set path then c # rev (takeWhile (\<lambda>x. x \<noteq> c) (rev path)) else [])"

definition ascii_tolower :: "char \<Rightarrow> char" where
  "ascii_tolower c = (let n = (of_char c :: nat) in if 65 \<le> n \<and> n \<le> 90 then char_of (n + 32) else c)"

definition iequals :: "string \<Rightarrow> string \<Rightarrow> bool" where
  "iequals a b \<longleftrightarrow> map ascii_tolower a = map ascii_tolower b"

definition mime_table :: "(string \<times> string) list" where
  "mime_table =
     [(''.htm'', ''text/html''), (''.html'', ''text/html''), (''.php'', ''text/html''),
      (''.css'', ''text/css''), (''.txt'', ''text/plain''), (''.js'', ''application/javascript''),
      (''.json'', ''application/json''), (''.xml'', ''application/xml''),
      (''.swf'', ''application/x-shockwave-flash''), (''.flv'', ''video/x-flv''), (''.png'', ''image/png''),
      (''.jpe'', ''image/jpeg''), (''.jpeg'', ''image/jpeg''), (''.jpg'', ''image/jpeg''),
      (''.gif'', ''image/gif''), (''.bmp'', ''image/bmp''), (''.ico'', ''image/vnd.microsoft.icon''),
      (''.tiff'', ''image/tiff''), (''.tif'', ''image/tiff''), (''.svg'', ''image/svg+xml''),
      (''.svgz'', ''image/svg+xml'')]"

definition mime_type :: "string \<Rightarrow> string" where
  "mime_type path =
     (case find (\<lambda>(e, m). iequals (from_last (CHR ''.'') path) e) mime_table of
        None \<Rightarrow> ''application/text''
      | Some (e, m) \<Rightarrow> m)"

section \<open>Paths\<close>

definition path_cat :: "string \<Rightarrow> string \<Rightarrow> string" where
  "path_cat base path =
     (if base = [] then path
      else (if last base = CHR ''/'' then butlast base else base) @ path)"

text \<open>\<open>find("..") != npos\<close>\<close>

fun has_dotdot :: "string \<Rightarrow> bool" where
  "has_dotdot (c # d # cs) \<longleftrightarrow> (c = CHR ''.'' \<and> d = CHR ''.'') \<or> has_dotdot (d # cs)"
| "has_dotdot _ \<longleftrightarrow> False"

section \<open>Requests\<close>

datatype verb = Get | Head | Post | Other_verb string

record request =
  rq_method :: verb
  rq_target :: string
  rq_body :: string
  rq_version :: nat
  rq_keep_alive :: bool

datatype status = Ok_200 | Bad_request_400 | Not_found_404 | Server_error_500

datatype body = String_body string | Empty_body | File_body string

text \<open>\<open>prepare_payload\<close> sets the content length to the length of the body.\<close>

record response =
  rs_status :: status
  rs_version :: nat
  rs_content_type :: string
  rs_keep_alive :: bool
  rs_content_length :: nat
  rs_body :: body

datatype opened = Opened nat | No_such_file | Open_error string

definition error_response :: "status \<Rightarrow> request \<Rightarrow> string \<Rightarrow> response" where
  "error_response st req why =
     \<lparr>rs_status = st, rs_version = rq_version req, rs_content_type = ''text/html'',
      rs_keep_alive = rq_keep_alive req, rs_content_length = length why, rs_body = String_body why\<rparr>"

definition bad_request :: "request \<Rightarrow> string \<Rightarrow> response" where
  "bad_request req why = error_response Bad_request_400 req why"

definition not_found :: "request \<Rightarrow> string \<Rightarrow> response" where
  "not_found req target = error_response Not_found_404 req (''The resource '' @ [CHR 0x27] @ target @ [CHR 0x27] @ '' was not found.'')"

definition server_error :: "request \<Rightarrow> string \<Rightarrow> response" where
  "server_error req what = error_response Server_error_500 req (''An error occurred: '' @ [CHR 0x27] @ what @ [CHR 0x27])"

text \<open>The path of the file: \<open>path.back()\<close> of an empty path is undefined.\<close>

definition request_path :: "string \<Rightarrow> string \<Rightarrow> string result" where
  "request_path doc_root target =
     (let path = takeWhile (\<lambda>c. c \<noteq> CHR ''?'') (path_cat doc_root target)
      in if path = [] then Inl Out_of_bounds
         else Inr (if last path = CHR ''/'' then path @ ''index.html'' else path))"

definition illegal_target :: "string \<Rightarrow> bool" where
  "illegal_target target \<longleftrightarrow> target = [] \<or> hd target \<noteq> CHR ''/'' \<or> has_dotdot target"

text \<open>
  The bodies handed to \<open>on_post\<close>, the path opened, if any, and the one response sent. Each of the
  branches ends in a \<open>return send(...)\<close>.
\<close>

definition handle_request ::
  "string \<Rightarrow> (string \<Rightarrow> opened) \<Rightarrow> request \<Rightarrow> (string list \<times> string option \<times> response) result" where
  "handle_request doc_root fs req =
     (let posted = (if rq_method req = Post \<and> rq_method req \<noteq> Head then [rq_body req] else [])
      in if rq_method req \<noteq> Get \<and> rq_method req \<noteq> Head
         then Inr (posted, None, bad_request req ''Unknown HTTP-method'')
         else if illegal_target (rq_target req)
         then Inr (posted, None, bad_request req ''Illegal request-target'')
         else case request_path doc_root (rq_target req) of
                Inl e \<Rightarrow> Inl e
              | Inr path \<Rightarrow>
                  (case fs path of
                     No_such_file \<Rightarrow> Inr (posted, Some path, not_found req (rq_target req))
                   | Open_error what \<Rightarrow> Inr (posted, Some path, server_error req what)
                   | Opened sz \<Rightarrow>
                       Inr (posted, Some path,
                         \<lparr>rs_status = Ok_200, rs_version = rq_version req, rs_content_type = mime_type path,
                          rs_keep_alive = rq_keep_alive req, rs_content_length = sz,
                          rs_body = (if rq_method req = Head then Empty_body else File_body path)\<rparr>)))"

section \<open>Properties\<close>

lemma has_dotdot_append:
  "has_dotdot (xs @ ys) \<longleftrightarrow> has_dotdot xs \<or> has_dotdot ys
     \<or> (xs \<noteq> [] \<and> ys \<noteq> [] \<and> last xs = CHR ''.'' \<and> hd ys = CHR ''.'')"
proof (induction xs rule: has_dotdot.induct)
  case (1 c d cs)
  then show ?case by auto
qed (cases ys; auto)+

lemma has_dotdot_takeWhile: "has_dotdot (takeWhile P xs) \<Longrightarrow> has_dotdot xs"
  by (metis has_dotdot_append takeWhile_dropWhile_id)

text \<open>The root as it begins every path.\<close>

definition root_prefix :: "string \<Rightarrow> string" where
  "root_prefix doc_root = (if doc_root \<noteq> [] \<and> last doc_root = CHR ''/'' then butlast doc_root else doc_root)"

lemma path_cat_prefix: "path_cat root target = root_prefix root @ target"
  by (simp add: path_cat_def root_prefix_def)

lemma request_path_inside:
  assumes "CHR ''?'' \<notin> set root" and "\<not> illegal_target target"
  shows "\<exists>rest. request_path root target = Inr (root_prefix root @ rest)
     \<and> rest \<noteq> [] \<and> hd rest = CHR ''/'' \<and> \<not> has_dotdot rest"
proof -
  have target: "target \<noteq> []" "hd target = CHR ''/''" "\<not> has_dotdot target"
    using assms(2) by (simp_all add: illegal_target_def)
  let ?t = "takeWhile (\<lambda>c. c \<noteq> CHR ''?'') target"
  have "\<not> has_dotdot ?t" using target(3) has_dotdot_takeWhile by blast
  moreover have "?t \<noteq> []" "hd ?t = CHR ''/''" using target(1,2) by (cases target; simp)+
  ultimately have t: "?t \<noteq> []" "hd ?t = CHR ''/''" "\<not> has_dotdot ?t" by simp_all
  have "\<forall>c \<in> set (root_prefix root). c \<noteq> CHR ''?''"
    using assms(1) by (auto simp: root_prefix_def dest: in_set_butlastD)
  then have path: "takeWhile (\<lambda>c. c \<noteq> CHR ''?'') (path_cat root target) = root_prefix root @ ?t"
    by (simp add: path_cat_prefix takeWhile_append2)
  show ?thesis
  proof (cases "last ?t = CHR ''/''")
    case True
    then have "\<not> has_dotdot (?t @ ''index.html'')" using t by (simp add: has_dotdot_append)
    then show ?thesis using t True path
      by (intro exI [of _ "?t @ ''index.html''"]) (auto simp: request_path_def Let_def)
  next
    case False
    then show ?thesis using t path by (intro exI [of _ ?t]) (auto simp: request_path_def Let_def)
  qed
qed

lemma request_answered:
  assumes "CHR ''?'' \<notin> set root"
  shows "\<exists>posted opened resp. handle_request root fs req = Inr (posted, opened, resp)
     \<and> (\<forall>path. opened = Some path \<longrightarrow>
          (\<exists>rest. path = root_prefix root @ rest \<and> rest \<noteq> [] \<and> hd rest = CHR ''/'' \<and> \<not> has_dotdot rest))"
proof (cases "rq_method req \<noteq> Get \<and> rq_method req \<noteq> Head \<or> illegal_target (rq_target req)")
  case True
  then show ?thesis by (auto simp: handle_request_def Let_def)
next
  case False
  then obtain rest where rest: "request_path root (rq_target req) = Inr (root_prefix root @ rest)"
    "rest \<noteq> []" "hd rest = CHR ''/''" "\<not> has_dotdot rest"
    using request_path_inside [OF assms, of "rq_target req"] by blast
  with False show ?thesis
    by (cases "fs (root_prefix root @ rest)") (auto simp: handle_request_def Let_def)
qed

lemma served_files_total:
  assumes "CHR ''?'' \<notin> set root"
  shows "\<exists>posted opened resp. handle_request root fs req = Inr (posted, opened, resp)"
  using request_answered [OF assms, of fs req] by blast


definition example_request :: "verb \<Rightarrow> string \<Rightarrow> request" where
  "example_request v target =
     \<lparr>rq_method = v, rq_target = target, rq_body = ''x=1'', rq_version = 11, rq_keep_alive = True\<rparr>"




text \<open>
  A POST request is handed to the user's callback and then refused all the same: the answer is always
  400, and no file is opened.
\<close>

lemma post_always_refused:
  "handle_request root fs (req\<lparr>rq_method := Post\<rparr>)
     = Inr ([rq_body req], None, bad_request (req\<lparr>rq_method := Post\<rparr>) ''Unknown HTTP-method'')"
  by (simp add: handle_request_def Let_def)

text \<open>
  With a question mark in the root the path is cut inside the root; if it comes first the path is empty,
  and looking at its last character is undefined.
\<close>

lemma question_mark_in_root:
  "request_path ''?srv'' ''/a'' = Inl Out_of_bounds" "request_path ''srv?1'' ''/a'' = Inr ''srv''"
  by (simp_all add: request_path_def path_cat_def)

lemma tolower_dot: "ascii_tolower c = CHR ''.'' \<longleftrightarrow> c = CHR ''.''"
proof -
  have "ascii_tolower c = CHR ''.'' \<Longrightarrow> c = CHR ''.''"
  proof (cases "65 \<le> (of_char c :: nat) \<and> (of_char c :: nat) \<le> 90")
    case True
    assume "ascii_tolower c = CHR ''.''"
    with True have "(char_of (of_char c + 32 :: nat) :: char) = CHR ''.''"
      by (simp add: ascii_tolower_def Let_def)
    then have "(of_char (char_of (of_char c + 32 :: nat) :: char) :: nat) = of_char (CHR ''.'')" by (rule arg_cong)
    with True show ?thesis by simp
  next
    case False
    assume "ascii_tolower c = CHR ''.''"
    with False show ?thesis by (auto simp: ascii_tolower_def Let_def)
  qed
  then show ?thesis by (auto simp: ascii_tolower_def)
qed

lemma from_last_append:
  assumes "c \<notin> set e"
  shows "from_last c (p @ c # e) = c # e"
  using assms by (simp add: from_last_def takeWhile_append takeWhile_eq_all_conv [THEN iffD2])

lemma mime_entries:
  "\<forall>(e, m) \<in> set mime_table. \<exists>r. e = CHR ''.'' # r \<and> CHR ''.'' \<notin> set (map ascii_tolower r)
     \<and> find (\<lambda>(e', m'). map ascii_tolower e = map ascii_tolower e') mime_table = Some (e, m)"
  by (simp add: mime_table_def ascii_tolower_def)

text \<open>
  The mime type of a file is that of its extension, in any mixture of upper and lower case and
  whatever comes before.
\<close>

lemma mime_type_by_extension:
  assumes "(e, m) \<in> set mime_table" and "iequals e' e"
  shows "mime_type (p @ e') = m"
proof -
  obtain r where e: "e = CHR ''.'' # r" "CHR ''.'' \<notin> set (map ascii_tolower r)"
    "find (\<lambda>(e', m'). map ascii_tolower e = map ascii_tolower e') mime_table = Some (e, m)"
    using mime_entries assms(1) by fastforce
  have same: "map ascii_tolower e' = map ascii_tolower e" using assms(2) by (simp add: iequals_def)
  then obtain c r' where e': "e' = c # r'" "ascii_tolower c = CHR ''.''" "map ascii_tolower r' = map ascii_tolower r"
    using e(1) tolower_dot [of "CHR ''.''"] by (cases e') auto
  have "CHR ''.'' \<notin> set r'"
    using e(2) e'(3) tolower_dot by (metis image_eqI list.set_map)
  then have "from_last (CHR ''.'') (p @ e') = e'"
    using e' tolower_dot by (simp add: from_last_append)
  with e(3) same show ?thesis by (simp add: mime_type_def iequals_def)
qed

lemma mime_type_by_extension_witness: "mime_type ''/pictures/a.b/Cat.JpEg'' = ''image/jpeg''"
proof -
  have "iequals ''.JpEg'' ''.jpeg''" by (simp add: iequals_def ascii_tolower_def char_of_eq_iff)
  from mime_type_by_extension [OF _ this, of "''image/jpeg''" "''/pictures/a.b/Cat''"] show ?thesis
    by (simp add: mime_table_def)
qed

end
