(* ===== verification/Http_Session.thy ===== *)
theory Http_Session
  imports Shared_State Http_Request
begin

text \<open>
  \<^verbatim>\<open>Networking/src/http_session.hpp\<close> and \<^verbatim>\<open>http_session.cpp\<close>: one HTTP or raw TCP
  connection. Three things live in a session: the pipeline of requests and their responses, the
  reader of length-prefixed messages that is used when the server speaks plain TCP, and the queue of
  messages to send, which works as that of a WebSocket session but without a rate limit.

  Whether a request asks for a WebSocket upgrade, and whether a response ends the connection, is decided by
  Boost.Beast; both are parameters. A buffer is known by its size.
\<close>

section \<open>State\<close>

record http_session =
  hs_responses :: "response list"
  hs_send_queue :: "item list"
  hs_queue_size :: nat
  hs_buffer :: size_t
  hs_has_state :: bool

definition http_session_new :: "bool \<Rightarrow> http_session" where
  "http_session_new has_st =
     \<lparr>hs_responses = [], hs_send_queue = [], hs_queue_size = 0, hs_buffer = 0, hs_has_state = has_st\<rparr>"

text \<open>
  What a session does to the outside, besides the effects of its send queue. \<open>Read_raw off len\<close>: read
  \<open>len\<close> bytes to offset \<open>off\<close> of the buffer. \<open>Report_http\<close>: the user's error callback.
\<close>

datatype http_effect =
    Read_request
  | Tls_handshake_server
  | Write_response response
  | Do_eof
  | Make_websocket request
  | Deliver_body string
  | Read_raw size_t size_t
  | Deliver_raw size_t
  | Report_http error_code

section \<open>The queue of responses\<close>

definition queue_limit :: nat where
  "queue_limit = 8"

definition is_full :: "response list \<Rightarrow> bool" where
  "is_full items \<longleftrightarrow> queue_limit \<le> length items"

definition queue_push :: "response \<Rightarrow> response list \<Rightarrow> response list \<times> http_effect list" where
  "queue_push msg items =
     (items @ [msg], if length (items @ [msg]) = 1 then [Write_response (hd (items @ [msg]))] else [])"

text \<open>Whether the queue was full, the queue, and the next write. Called with an empty queue it is undefined.\<close>

definition queue_on_write :: "response list \<Rightarrow> (bool \<times> response list \<times> http_effect list) result" where
  "queue_on_write items =
     (case items of
        [] \<Rightarrow> Inl Out_of_bounds
      | _ # rest \<Rightarrow> Inr (is_full items, rest, case rest of [] \<Rightarrow> [] | r # _ \<Rightarrow> [Write_response r]))"

section \<open>Reading\<close>

text \<open>\<open>raw\<close>: the length of the header of a raw message, when the server speaks plain TCP.\<close>

definition hs_do_read :: "size_t option \<Rightarrow> http_session \<Rightarrow> http_session \<times> http_effect list" where
  "hs_do_read raw s =
     (case (if hs_has_state s then raw else None) of
        Some header \<Rightarrow>
          ((if hs_buffer s < header then s\<lparr>hs_buffer := header\<rparr> else s), [Read_raw 0 header])
      | None \<Rightarrow> (s, [Read_request]))"

definition hs_on_error :: "error_code \<Rightarrow> http_session \<Rightarrow> http_effect list result" where
  "hs_on_error ec s =
     (if ec = Operation_aborted \<or> ec = Ws_closed then Inr []
      else if hs_has_state s then Inr [Report_http ec] else Inl Null_deref)"

text \<open>
  \<open>body\<close>: what the user's callback makes of the header, if there is a callback. Without one nothing more is
  read. The sum is a \<open>size_t\<close>.
\<close>

definition on_nonhttp_read_header ::
  "size_t \<Rightarrow> size_t option \<Rightarrow> error_code \<Rightarrow> http_session \<Rightarrow> (http_session \<times> http_effect list) result" where
  "on_nonhttp_read_header header body ec s =
     (if ec \<noteq> Success
      then (case hs_on_error ec s of Inl e \<Rightarrow> Inl e | Inr es \<Rightarrow> Inr (s, es))
      else case (if hs_has_state s then body else None) of
             None \<Rightarrow> Inr (s, [])
           | Some body_length \<Rightarrow>
               let total = body_length + header
               in Inr (if hs_buffer s < total then s\<lparr>hs_buffer := total\<rparr> else s, [Read_raw header body_length]))"

definition on_nonhttp_read_body ::
  "size_t option \<Rightarrow> size_t \<Rightarrow> size_t \<Rightarrow> error_code \<Rightarrow> size_t \<Rightarrow> http_session
   \<Rightarrow> (http_session \<times> http_effect list) result" where
  "on_nonhttp_read_body raw header body ec transferred s =
     (let expected = header + body;
          had_error = (body \<noteq> transferred \<or> hs_buffer s < expected)
      in if ec \<noteq> Success \<or> had_error
         then (case hs_on_error ec s of Inl e \<Rightarrow> Inl e | Inr es \<Rightarrow> Inr (s, es))
         else case hs_do_read raw s of
                (s', es) \<Rightarrow> Inr (s', (if hs_has_state s then [Deliver_raw expected] else []) @ es))"

text \<open>\<open>state_->doc_root()\<close> is not guarded by a test of \<open>state_\<close>.\<close>

definition hs_on_read ::
  "size_t option \<Rightarrow> (request \<Rightarrow> bool) \<Rightarrow> string \<Rightarrow> (string \<Rightarrow> opened) \<Rightarrow> error_code \<Rightarrow> request \<Rightarrow> http_session
   \<Rightarrow> (http_session \<times> http_effect list) result" where
  "hs_on_read raw is_upgrade root fs ec req s =
     (if ec = End_of_stream then Inr (s, [Do_eof])
      else if ec \<noteq> Success then Inr (s, [])
      else if is_upgrade req then Inr (s, [Make_websocket req])
      else if \<not> hs_has_state s then Inl Null_deref
      else case handle_request root fs req of
             Inl e \<Rightarrow> Inl e
           | Inr (posted, _, resp) \<Rightarrow>
               (case queue_push resp (hs_responses s) of
                  (items, es) \<Rightarrow>
                    let s' = s\<lparr>hs_responses := items\<rparr>
                    in if is_full items then Inr (s', map Deliver_body posted @ es)
                       else case hs_do_read raw s' of
                              (s'', fs) \<Rightarrow> Inr (s'', map Deliver_body posted @ es @ fs)))"

definition hs_on_write ::
  "size_t option \<Rightarrow> bool \<Rightarrow> error_code \<Rightarrow> http_session \<Rightarrow> (http_session \<times> http_effect list) result" where
  "hs_on_write raw close ec s =
     (if ec \<noteq> Success then Inr (s, [])
      else if close then Inr (s, [Do_eof])
      else case queue_on_write (hs_responses s) of
             Inl e \<Rightarrow> Inl e
           | Inr (was_full, items, es) \<Rightarrow>
               let s' = s\<lparr>hs_responses := items\<rparr>
               in if was_full then (case hs_do_read raw s' of (s'', fs) \<Rightarrow> Inr (s'', es @ fs))
                  else Inr (s', es))"

section \<open>Sending\<close>

definition hs_start :: "item \<Rightarrow> http_session \<Rightarrow> effect" where
  "hs_start it s =
     (if sendable it \<and> hs_responses s = [] then Async_write (it_ptr it) (it_size it) else Post_aborted)"

definition hs_on_send :: "item \<Rightarrow> nat \<Rightarrow> http_session \<Rightarrow> http_session \<times> effect list" where
  "hs_on_send it max_queue_size s =
     (case trim (max max_queue_size 2) 2 (hs_send_queue s) of
        (q, es) \<Rightarrow>
          let s' = s\<lparr>hs_send_queue := q @ [it], hs_queue_size := length (q @ [it])\<rparr>
          in if 1 < length (q @ [it]) then (s', es) else (s', es @ [hs_start it s']))"

text \<open>\<open>on_error\<close> uses the shared state without a test.\<close>

definition hs_on_write2 :: "error_code \<Rightarrow> nat \<Rightarrow> http_session \<Rightarrow> (http_session \<times> effect list) result" where
  "hs_on_write2 ec n s =
     (case hs_send_queue s of
        [] \<Rightarrow> Inl Out_of_bounds
      | it # q \<Rightarrow>
          let s' = s\<lparr>hs_send_queue := q, hs_queue_size := length q\<rparr>
          in case (if ec \<noteq> Success then hs_on_error ec s else Inr []) of
               Inl e \<Rightarrow> Inl e
             | Inr errs \<Rightarrow>
                 Inr (s', notify it ec n @ (if errs = [] then [] else [Report ec])
                   @ (case q of [] \<Rightarrow> [] | nx # _ \<Rightarrow> [hs_start nx s'])))"

section \<open>Beginning and end of a session\<close>

text \<open>
  The constructors ask the socket for the remote endpoint in the form that throws; \<open>peer\<close>: the client is still
  connected. A plain session joins the register when it is run, a TLS session when its handshake has succeeded; the
  destructors leave it in any case.
\<close>

definition plain_http_session_new :: "bool \<Rightarrow> http_session result" where
  "plain_http_session_new peer = (if peer then Inr (http_session_new True) else Inl System_error)"

definition ssl_http_session_new :: "bool \<Rightarrow> http_session result" where
  "ssl_http_session_new peer = (if peer then Inr (http_session_new True) else Inl System_error)"

definition ssl_run :: "http_effect list" where
  "ssl_run = [Tls_handshake_server]"

definition plain_run ::
  "(kind \<Rightarrow> nat \<Rightarrow> 'e session_view) \<Rightarrow> nat \<Rightarrow> size_t option \<Rightarrow> shared_state \<Rightarrow> http_session
   \<Rightarrow> shared_state \<times> http_session \<times> 'e outcome list \<times> http_effect list" where
  "plain_run view p raw st s =
     (case join_http view p st of (st', es) \<Rightarrow> (case hs_do_read raw s of (s', fs) \<Rightarrow> (st', s', es, fs)))"

definition plain_destroy ::
  "(kind \<Rightarrow> nat \<Rightarrow> 'e session_view) \<Rightarrow> nat \<Rightarrow> shared_state \<Rightarrow> shared_state \<times> 'e outcome list" where
  "plain_destroy view p st = leave_http view p st"

definition ssl_on_handshake ::
  "(kind \<Rightarrow> nat \<Rightarrow> 'e session_view) \<Rightarrow> nat \<Rightarrow> size_t option \<Rightarrow> error_code \<Rightarrow> shared_state \<Rightarrow> http_session
   \<Rightarrow> shared_state \<times> http_session \<times> 'e outcome list \<times> http_effect list" where
  "ssl_on_handshake view p raw ec st s =
     (if ec \<noteq> Success then (st, s, [], [])
      else case join_https view p st of
             (st', es) \<Rightarrow> (case hs_do_read raw s of (s', fs) \<Rightarrow> (st', s', es, fs)))"

definition ssl_destroy ::
  "(kind \<Rightarrow> nat \<Rightarrow> 'e session_view) \<Rightarrow> nat \<Rightarrow> shared_state \<Rightarrow> shared_state \<times> 'e outcome list" where
  "ssl_destroy view p st = leave_https view p st"

text \<open>\<open>detect_session\<close>: which of the two a new connection becomes.\<close>

datatype security = Insecure | Secure | Both

datatype launch = Detect_ssl | Launch_ssl | Launch_plain

definition on_detect :: "error_code \<Rightarrow> bool \<Rightarrow> launch list" where
  "on_detect ec ssl = (if ec \<noteq> Success then [] else if ssl then [Launch_ssl] else [Launch_plain])"

text \<open>\<open>detect_session::run\<close> has \<open>on_run\<close> called on the strand of the stream.\<close>

datatype dispatched = Call_on_run

definition detect_run :: "dispatched list" where
  "detect_run = [Call_on_run]"

definition detect_on_run :: "security \<Rightarrow> launch list" where
  "detect_on_run sec = (if sec = Both then [Detect_ssl] else on_detect Success (sec = Secure))"

text \<open>
  A TLS session whose handshake fails was never announced to the user, and is reported closed all the same.
\<close>

lemma ssl_closed_without_accept:
  assumes "installed st Cb_close"
  shows "case ssl_on_handshake view p raw (Other_error k) st s of
     (st', s', es, fs) \<Rightarrow> es = [] \<and> snd (ssl_destroy view p st') = [Callback Cb_close (sv_endpoint (view Https p)) 0]"
  using assms by (simp add: ssl_on_handshake_def ssl_destroy_def leave_https_def notify_user_def erase_session_def Let_def)

section \<open>The send queue\<close>

text \<open>
  The session of a server (so the shared state is there), seen through the interface. What a handler looks
  at is the queue of responses, which the HTTP side changes in between.
\<close>

definition hs_with :: "response list \<Rightarrow> http_session \<Rightarrow> http_session" where
  "hs_with rs s = s\<lparr>hs_responses := rs, hs_has_state := True\<rparr>"

definition hs_submit ::
  "response list \<Rightarrow> item \<Rightarrow> nat \<Rightarrow> http_session \<Rightarrow> (http_session \<times> effect list) result" where
  "hs_submit rs it mx s = Inr (hs_on_send it mx (hs_with rs s))"

definition hs_complete ::
  "response list \<Rightarrow> error_code \<Rightarrow> nat \<Rightarrow> http_session \<Rightarrow> (http_session \<times> effect list) result" where
  "hs_complete rs ec n s = hs_on_write2 ec n (hs_with rs s)"

lemma hs_start_for: "start_for it (hs_start it s)"
  by (simp add: hs_start_def start_for_def)

lemma hs_submit_cases:
  assumes "hs_submit rs it mx s = Inr (s', es)"
  obtains q es0 where "trim (max mx 2) 2 (hs_send_queue s) = (q, es0)" and "hs_send_queue s' = q @ [it]"
    and "q \<noteq> []" and "es = es0"
  | q es0 e where "trim (max mx 2) 2 (hs_send_queue s) = (q, es0)" and "hs_send_queue s' = q @ [it]"
    and "q = []" and "es = es0 @ [e]" and "start_for it e"
  using assms
  by (auto simp: hs_submit_def hs_on_send_def hs_with_def hs_start_for Let_def split: prod.splits if_splits)

interpretation hsq: send_queue hs_send_queue hs_submit hs_complete
proof unfold_locales
  fix a it mx s s' es
  assume s: "hs_submit a it mx s = Inr (s', es)"
  let ?t = "trim (max mx 2) 2 (hs_send_queue s)"
  have t: "starts (snd ?t) = []" "fst ?t = [] \<longleftrightarrow> hs_send_queue s = []" by (simp_all add: trim_starts trim_nil)
  from s show "hs_send_queue s' = fst ?t @ [it]" by (cases rule: hs_submit_cases) simp_all
  from s show "calls es = calls (snd ?t)" by (cases rule: hs_submit_cases) (auto simp: start_for_def)
  from s t show "if hs_send_queue s = [] then \<exists>st. starts es = [st] \<and> start_for it st else starts es = []"
    by (cases rule: hs_submit_cases) (auto simp: start_for_is_start)
next
  fix a it mx s e
  assume "hs_submit a it mx s = Inl e"
  then show "e = Bad_cast" by (simp add: hs_submit_def)
next
  fix a ec n q it and s :: http_session
  assume "hs_send_queue s = it # q"
  then show "\<exists>s' es. hs_complete a ec n s = Inr (s', es) \<and> hs_send_queue s' = q
      \<and> calls es = handler_of it \<and> pending_ok q (starts es)"
    using start_for_is_start [OF hs_start_for]
    by (auto simp: hs_complete_def hs_on_write2_def hs_with_def hs_on_error_def Let_def pending_ok_def hs_start_for
        split: list.splits)
qed


definition example_posts :: "response list io list" where
  "example_posts =
     [Submit [] \<lparr>it_ptr = 64, it_size = 8, it_handler = Some 1, it_force = False\<rparr> 2,
      Submit [] \<lparr>it_ptr = 96, it_size = 8, it_handler = Some 2, it_force = True\<rparr> 2,
      Finish [] Success 8]"


section \<open>The pipeline\<close>

text \<open>
  A session from the side of the network: a read or a write completes. \<open>pl_reading\<close>: the reads under way;
  \<open>pl_writing\<close>: the responses being written; \<open>pl_answers\<close>: the responses made so far, \<open>pl_written\<close>: those
  written and taken from the queue. \<open>pl_alive\<close>: no read has ended the session and no write has failed or
  closed it.
\<close>

record pipeline =
  pl_session :: http_session
  pl_reading :: nat
  pl_writing :: "response list"
  pl_answers :: "response list"
  pl_written :: "response list"
  pl_alive :: bool

datatype network = Read_done error_code request | Write_done error_code

fun written_by :: "http_effect \<Rightarrow> response list" where
  "written_by (Write_response r) = [r]"
| "written_by _ = []"

definition writes :: "http_effect list \<Rightarrow> response list" where
  "writes es = concat (map written_by es)"

definition pipeline_start :: pipeline where
  "pipeline_start = (case hs_do_read None (http_session_new True) of
     (s, es) \<Rightarrow> \<lparr>pl_session = s, pl_reading = count_if ((=) Read_request) es, pl_writing = [], pl_answers = [],
       pl_written = [], pl_alive = True\<rparr>)"

text \<open>\<open>need_eof\<close>: the connection is to be closed after this response.\<close>

fun pipeline_step ::
  "(response \<Rightarrow> bool) \<Rightarrow> (request \<Rightarrow> bool) \<Rightarrow> string \<Rightarrow> (string \<Rightarrow> opened) \<Rightarrow> network \<Rightarrow> pipeline \<Rightarrow> pipeline result" where
  "pipeline_step need_eof is_upgrade root fs (Read_done ec req) y =
     (if pl_reading y = 0 then Inr y
      else case hs_on_read None is_upgrade root fs ec req (pl_session y) of
             Inl e \<Rightarrow> Inl e
           | Inr (s, es) \<Rightarrow> Inr (y\<lparr>pl_session := s,
               pl_reading := pl_reading y - 1 + count_if ((=) Read_request) es,
               pl_writing := pl_writing y @ writes es,
               pl_answers := pl_answers y @ drop (length (hs_responses (pl_session y))) (hs_responses s),
               pl_alive := (pl_alive y \<and> ec = Success \<and> \<not> is_upgrade req)\<rparr>))"
| "pipeline_step need_eof is_upgrade root fs (Write_done ec) y =
     (case pl_writing y of
        [] \<Rightarrow> Inr y
      | r # ws \<Rightarrow>
          (case hs_on_write None (need_eof r) ec (pl_session y) of
             Inl e \<Rightarrow> Inl e
           | Inr (s, es) \<Rightarrow> Inr (y\<lparr>pl_session := s,
               pl_reading := pl_reading y + count_if ((=) Read_request) es,
               pl_writing := ws @ writes es,
               pl_written := pl_written y
                 @ take (length (hs_responses (pl_session y)) - length (hs_responses s)) (hs_responses (pl_session y)),
               pl_alive := (pl_alive y \<and> ec = Success \<and> \<not> need_eof r)\<rparr>)))"

fun pipeline_run ::
  "(response \<Rightarrow> bool) \<Rightarrow> (request \<Rightarrow> bool) \<Rightarrow> string \<Rightarrow> (string \<Rightarrow> opened) \<Rightarrow> network list \<Rightarrow> pipeline \<Rightarrow> pipeline result" where
  "pipeline_run need_eof is_upgrade root fs [] y = Inr y"
| "pipeline_run need_eof is_upgrade root fs (ev # evs) y =
     (case pipeline_step need_eof is_upgrade root fs ev y of
        Inl e \<Rightarrow> Inl e
      | Inr y' \<Rightarrow> pipeline_run need_eof is_upgrade root fs evs y')"

definition pipeline_ok :: "pipeline \<Rightarrow> bool" where
  "pipeline_ok y \<longleftrightarrow>
     hs_has_state (pl_session y)
     \<and> length (hs_responses (pl_session y)) \<le> queue_limit
     \<and> pl_reading y \<le> (if length (hs_responses (pl_session y)) < queue_limit then 1 else 0)
     \<and> (pl_writing y = [] \<or> pl_writing y = take 1 (hs_responses (pl_session y)))
     \<and> pl_answers y = pl_written y @ hs_responses (pl_session y)
     \<and> (pl_alive y \<longrightarrow>
          pl_reading y = (if length (hs_responses (pl_session y)) < queue_limit then 1 else 0)
          \<and> pl_writing y = take 1 (hs_responses (pl_session y)))"

lemma writes_simps [simp]:
  "writes [] = []"
  "writes (e # es) = written_by e @ writes es"
  "writes (es @ fs) = writes es @ writes fs"
  by (simp_all add: writes_def)

lemma posted_frame [simp]:
  "writes (map Deliver_body bs) = []" "count_if ((=) Read_request) (map Deliver_body bs) = 0"
  by (induction bs) simp_all

lemma hs_do_read_request: "hs_do_read None s = (s, [Read_request])"
  by (simp add: hs_do_read_def)

text \<open>A request that is answered: the response joins the queue, is written if it is alone there, and the next read starts if there is room.\<close>

lemma hs_on_read_answered:
  assumes "CHR ''?'' \<notin> set root" and "hs_has_state s" and "\<not> is_upgrade req"
  obtains s' es resp where "hs_on_read None is_upgrade root fs Success req s = Inr (s', es)"
    and "hs_has_state s'" and "hs_responses s' = hs_responses s @ [resp]"
    and "writes es = (if hs_responses s = [] then [resp] else [])"
    and "count_if ((=) Read_request) es = (if length (hs_responses s') < queue_limit then 1 else 0)"
proof -
  obtain posted op resp where h: "handle_request root fs req = Inr (posted, op, resp)"
    using served_files_total [OF assms(1)] by blast
  let ?s' = "s\<lparr>hs_responses := hs_responses s @ [resp]\<rparr>"
  let ?es = "map Deliver_body posted @ (if hs_responses s = [] then [Write_response resp] else [])
     @ (if length (hs_responses ?s') < queue_limit then [Read_request] else [])"
  have "hs_on_read None is_upgrade root fs Success req s = Inr (?s', ?es)"
    using assms(2,3) by (simp add: hs_on_read_def h queue_push_def is_full_def hs_do_read_request Let_def)
  with assms(2) show thesis by (intro that [of ?s' ?es resp]) simp_all
qed

lemma hs_on_read_ended:
  assumes "ec \<noteq> Success \<or> is_upgrade req"
  obtains es where "hs_on_read None is_upgrade root fs ec req s = Inr (s, es)"
    and "writes es = []" and "count_if ((=) Read_request) es = 0"
  using assms by (cases "ec = End_of_stream"; cases "ec = Success") (simp_all add: hs_on_read_def)

lemma read_step_ok:
  assumes "pipeline_ok y" and "CHR ''?'' \<notin> set root"
  shows "\<exists>y'. pipeline_step need_eof is_upgrade root fs (Read_done ec req) y = Inr y' \<and> pipeline_ok y'"
proof (cases "pl_reading y = 0")
  case True
  with assms(1) show ?thesis by simp
next
  case busy: False
  let ?s = "pl_session y"
  have read: "pl_reading y = 1" "length (hs_responses ?s) < queue_limit" "hs_has_state ?s"
    using busy assms(1) by (auto simp: pipeline_ok_def split: if_splits)
  show ?thesis
  proof (cases "ec \<noteq> Success \<or> is_upgrade req")
    case True
    obtain es where es: "hs_on_read None is_upgrade root fs ec req ?s = Inr (?s, es)"
      "writes es = []" "count_if ((=) Read_request) es = 0"
      using hs_on_read_ended [of ec is_upgrade req root fs ?s] True by blast
    have "\<not> (ec = Success \<and> \<not> is_upgrade req)" using True by simp
    with es busy assms(1) show ?thesis by (simp add: pipeline_ok_def split: if_splits)
  next
    case False
    then have req: "\<not> is_upgrade req" and ec: "ec = Success" by simp_all
    obtain s' es resp where s': "hs_on_read None is_upgrade root fs Success req ?s = Inr (s', es)"
      "hs_has_state s'" "hs_responses s' = hs_responses ?s @ [resp]"
      "writes es = (if hs_responses ?s = [] then [resp] else [])"
      "count_if ((=) Read_request) es = (if length (hs_responses s') < queue_limit then 1 else 0)"
      using hs_on_read_answered [of root ?s is_upgrade req fs] assms(2) read(3) req by blast
    then show ?thesis using assms(1) read ec by (cases "hs_responses ?s") (auto simp: pipeline_ok_def)
  qed
qed

lemma write_step_ok:
  assumes "pipeline_ok y"
  shows "\<exists>y'. pipeline_step need_eof is_upgrade root fs (Write_done ec) y = Inr y' \<and> pipeline_ok y'"
proof (cases "pl_writing y")
  case Nil
  with assms show ?thesis by simp
next
  case (Cons r ws)
  then obtain rest where rest: "hs_responses (pl_session y) = r # rest" "ws = []"
    using assms by (cases "hs_responses (pl_session y)") (auto simp: pipeline_ok_def)
  show ?thesis
  proof (cases "ec \<noteq> Success \<or> need_eof r")
    case True
    then show ?thesis using assms rest Cons by (auto simp: hs_on_write_def pipeline_ok_def)
  next
    case False
    then show ?thesis using assms rest Cons
      by (cases rest) (auto simp: hs_on_write_def queue_on_write_def pipeline_ok_def is_full_def
          hs_do_read_request queue_limit_def Let_def split: if_splits)
  qed
qed

lemma pipeline_run_ok:
  assumes "pipeline_ok y" and "CHR ''?'' \<notin> set root"
  shows "\<exists>y'. pipeline_run need_eof is_upgrade root fs evs y = Inr y' \<and> pipeline_ok y'"
  using assms(1)
proof (induction evs arbitrary: y)
  case Nil
  then show ?case by simp
next
  case (Cons ev evs)
  have "\<exists>y'. pipeline_step need_eof is_upgrade root fs ev y = Inr y' \<and> pipeline_ok y'"
    using read_step_ok [OF Cons.prems assms(2)] write_step_ok [OF Cons.prems] by (cases ev) blast+
  then show ?case using Cons.IH by fastforce
qed



section \<open>Raw messages\<close>

text \<open>
  Messages with a header of fixed length over plain TCP: the header is read into the buffer; the body
  is read behind it, and that read lies inside the buffer exactly when the two lengths do not add up to
  \<open>2 ^ 64\<close> or more - the sum is not checked, and the length of the body is what the peer sent. When it does
  not wrap, and the body has arrived, the message delivered is the header and the body, and the next header
  is read.
\<close>

lemma nonhttp_read_in_buffer_iff:
  assumes "hs_has_state s" and "hs_do_read (Some header) s = (s1, es)"
    and "on_nonhttp_read_header header (Some body) Success s1 = Inr (s2, fs)"
  shows "es = [Read_raw 0 header] \<and> unat header \<le> unat (hs_buffer s1) \<and> fs = [Read_raw header body]
     \<and> (unat header + unat body \<le> unat (hs_buffer s2) \<longleftrightarrow> unat header + unat body < 2 ^ 64)
     \<and> (unat header + unat body < 2 ^ 64 \<longrightarrow>
          on_nonhttp_read_body (Some header) header body Success body s2
            = Inr (s2, [Deliver_raw (header + body), Read_raw 0 header]))"
proof -
  have s1: "es = [Read_raw 0 header]" "hs_has_state s1" "header \<le> hs_buffer s1"
    using assms(1,2) by (auto simp: hs_do_read_def split: if_splits)
  have s2: "fs = [Read_raw header body]" "hs_has_state s2" "body + header \<le> hs_buffer s2" "header \<le> hs_buffer s2"
    using assms(3) s1(2,3) by (auto simp: on_nonhttp_read_header_def Let_def split: if_splits)
  have le: "unat header \<le> unat (hs_buffer s1)" using s1(3) by (simp add: word_le_nat_alt)
  have sum: "unat (header + body) = unat header + unat body" if "unat header + unat body < 2 ^ 64"
    using that by (rule unat_add_lt)
  have iff: "unat header + unat body \<le> unat (hs_buffer s2) \<longleftrightarrow> unat header + unat body < 2 ^ 64"
  proof
    assume "unat header + unat body \<le> unat (hs_buffer s2)"
    then show "unat header + unat body < 2 ^ 64" using unat_lt_64 [of "hs_buffer s2"] by linarith
  next
    assume "unat header + unat body < 2 ^ 64"
    then show "unat header + unat body \<le> unat (hs_buffer s2)"
      using sum s2(3) by (simp add: word_le_nat_alt add.commute)
  qed
  have "on_nonhttp_read_body (Some header) header body Success body s2
      = Inr (s2, [Deliver_raw (header + body), Read_raw 0 header])"
    using s2(2) leD [OF s2(3)] leD [OF s2(4)]
    by (simp add: on_nonhttp_read_body_def hs_do_read_def Let_def add.commute)
  with s1(1) s2(1) le iff show ?thesis by simp
qed

text \<open>The peer announces a body of \<open>2 ^ 64 - 4\<close> bytes behind a header of 8: nothing grows, and the read is far outside.\<close>

lemma nonhttp_read_in_buffer_iff_witness:
  "case hs_do_read (Some 8) (http_session_new True) of
     (s1, es) \<Rightarrow> (case on_nonhttp_read_header 8 (Some (- 4)) Success s1 of
        Inl e \<Rightarrow> False
      | Inr (s2, fs) \<Rightarrow> fs = [Read_raw 8 (- 4)] \<and> unat (hs_buffer s2) = 8 \<and> \<not> 8 + unat (- 4 :: size_t) \<le> unat (hs_buffer s2))"
proof -
  have s: "hs_has_state (http_session_new True)" by (simp add: http_session_new_def)
  obtain s1 es where 1: "hs_do_read (Some 8) (http_session_new True) = (s1, es)"
    by (cases "hs_do_read (Some 8) (http_session_new True)")
  have 2: "on_nonhttp_read_header 8 (Some (- 4)) Success s1 = Inr (s1, [Read_raw 8 (- 4)])" "hs_buffer s1 = 8"
    using 1 by (auto simp: hs_do_read_def http_session_new_def on_nonhttp_read_header_def Let_def)
  from nonhttp_read_in_buffer_iff [OF s 1 2(1)] 1 2 show ?thesis by simp
qed

text \<open>
  The two ways of sending do not know of each other's writes in progress: a message is being written
  when a request arrives, and its response is written at the same time.
\<close>

lemma writes_overlap:
  "case hs_on_send \<lparr>it_ptr = 64, it_size = 8, it_handler = None, it_force = False\<rparr> 2 (http_session_new True) of
     (s, es) \<Rightarrow> starts es = [Async_write 64 8]
       \<and> (case hs_on_read None (\<lambda>_. False) ''srv'' (\<lambda>_. No_such_file) Success (example_request Get ''/'') s of
            Inl e \<Rightarrow> False
          | Inr (s', fs) \<Rightarrow> length (writes fs) = 1)"
  by (simp add: hs_on_send_def trim.simps hs_start_def sendable_def http_session_new_def hs_on_read_def
      handle_request_def example_request_def illegal_target_def request_path_def path_cat_def queue_push_def
      is_full_def queue_limit_def hs_do_read_def Let_def)

end
