(* ===== verification/Http_Close.thy ===== *)
theory Http_Close
  imports Http_Session
begin

text \<open>
  How an HTTP session closes its connection (\<^verbatim>\<open>Networking/src/http_session.cpp\<close>, \<open>do_eof\<close>, \<open>on_shutdown\<close> and
  \<open>release_stream\<close> of the plain and the TLS session), together with the pipeline of \<open>Http_Session\<close>: the side of the
  connection that sends is closed although responses are still to be written.
\<close>

section \<open>The stream of a session\<close>

text \<open>
  \<open>sm_sends\<close>: the session may still send; \<open>sm_shutting\<close>: a TLS shutdown is under way; \<open>sm_here\<close>: the stream
  has not been moved into another session.
\<close>

record http_stream =
  sm_tls :: bool
  sm_sends :: bool
  sm_shutting :: bool
  sm_here :: bool

definition stream_new :: "bool \<Rightarrow> http_stream" where
  "stream_new tls = \<lparr>sm_tls = tls, sm_sends = True, sm_shutting = False, sm_here = True\<rparr>"

definition plain_do_eof :: "http_stream \<Rightarrow> http_stream" where
  "plain_do_eof s = s\<lparr>sm_sends := False\<rparr>"

definition ssl_do_eof :: "http_stream \<Rightarrow> http_stream" where
  "ssl_do_eof s = s\<lparr>sm_shutting := True\<rparr>"

definition ssl_on_shutdown :: "error_code \<Rightarrow> http_stream \<Rightarrow> http_stream" where
  "ssl_on_shutdown ec s =
     (if ec \<noteq> Success then s\<lparr>sm_shutting := False\<rparr> else s\<lparr>sm_shutting := False, sm_sends := False\<rparr>)"

definition plain_release_stream :: "http_stream \<Rightarrow> http_stream" where
  "plain_release_stream s = s\<lparr>sm_here := False\<rparr>"

definition ssl_release_stream :: "http_stream \<Rightarrow> http_stream" where
  "ssl_release_stream s = s\<lparr>sm_here := False\<rparr>"

text \<open>What the effects of a handler do to the stream.\<close>

fun stream_effect :: "http_effect \<Rightarrow> http_stream \<Rightarrow> http_stream" where
  "stream_effect Do_eof s = (if sm_tls s then ssl_do_eof s else plain_do_eof s)"
| "stream_effect (Make_websocket r) s = (if sm_tls s then ssl_release_stream s else plain_release_stream s)"
| "stream_effect _ s = s"

definition stream_effects :: "http_effect list \<Rightarrow> http_stream \<Rightarrow> http_stream" where
  "stream_effects es s = fold stream_effect es s"

lemma stream_effects_simps [simp]:
  "stream_effects [] s = s" "stream_effects (e # es) s = stream_effects es (stream_effect e s)"
  by (simp_all add: stream_effects_def)

section \<open>When the connection is closed\<close>

text \<open>
  A client that has sent its requests and closes its side (it will not send any more, but it waits for the answers) is answered
  with the end of the connection: the read of the next request ends with \<open>end_of_stream\<close>, and \<open>do_eof\<close> is called whatever
  responses are queued or being written. The same holds for an upgrade behind other requests: the stream is moved away under the
  write.
\<close>

lemma eof_cuts_responses:
  assumes "CHR ''?'' \<notin> set root" and "pl_session y = s" and "hs_responses s \<noteq> []" and "pl_writing y \<noteq> []" and "pl_reading y = 1"
    and "sm_sends c" and "\<not> sm_tls c"
  shows "\<exists>y'. pipeline_step need_eof is_upgrade root fs (Read_done End_of_stream req) y = Inr y'
     \<and> pl_writing y' = pl_writing y \<and> hs_responses (pl_session y') = hs_responses s
     \<and> (\<forall>t es. hs_on_read None is_upgrade root fs End_of_stream req s = Inr (t, es) \<longrightarrow> \<not> sm_sends (stream_effects es c))"
  using assms by (simp add: hs_on_read_def plain_do_eof_def)

lemma upgrade_moves_stream:
  assumes "is_upgrade req" and "hs_on_read None is_upgrade root fs Success req s = Inr (t, es)"
  shows "hs_responses t = hs_responses s \<and> \<not> sm_here (stream_effects es c)"
  using assms by (auto simp: hs_on_read_def plain_release_stream_def ssl_release_stream_def split: if_splits)

text \<open>A response that closes the connection, on the other hand, is the last one written, and has been written when that happens.\<close>

lemma close_after_response:
  assumes "hs_on_write None close ec s = Inr (t, es)" and "Do_eof \<in> set es"
  shows "close \<and> ec = Success \<and> es = [Do_eof] \<and> t = s"
  using assms
  by (auto simp: hs_on_write_def queue_on_write_def hs_do_read_def Let_def split: if_splits list.splits)

text \<open>After a TLS shutdown that succeeded nothing more is sent; one that failed leaves the stream as it is.\<close>

lemma ssl_closed: "sm_sends (ssl_on_shutdown ec (ssl_do_eof s)) \<longleftrightarrow> sm_sends s \<and> ec \<noteq> Success"
  by (simp add: ssl_on_shutdown_def ssl_do_eof_def)

text \<open>A pipeline in which this happens: two requests, of which the first is being answered when the end arrives.\<close>

lemma eof_while_writing:
  "\<exists>y. pipeline_run (\<lambda>_. False) (\<lambda>_. False) ''srv'' (\<lambda>_. Opened 7)
         [Read_done Success (example_request Get ''/a''), Read_done Success (example_request Get ''/b'')] pipeline_start = Inr y
     \<and> length (hs_responses (pl_session y)) = 2 \<and> length (pl_writing y) = 1 \<and> pl_reading y = 1"
  by (simp add: pipeline_start_def hs_do_read_def http_session_new_def hs_on_read_def handle_request_def example_request_def
      illegal_target_def request_path_def path_cat_def queue_push_def is_full_def queue_limit_def Let_def)

end
