(* ===== verification/Rate_Limiter.thy ===== *)
theory Rate_Limiter
  imports Complex_Main IPC_Prelude
begin

text \<open>
  \<^verbatim>\<open>Networking/src/rate_limiter.hpp\<close> and \<^verbatim>\<open>rate_limiter.cpp\<close>: a \<open>RateTracker\<close> divides a
  maximal byte rate among its \<open>RateEnforcer\<close>s in proportion to what each of them would like to
  send, and a \<open>RateEnforcer\<close> refuses a message that would push its moving average above its share.

  Two idealisations: \<open>double\<close> is a rational number (no rounding), and the steady clock is an argument
  of the operations that read it. What is not idealised is the conversion of a \<open>double\<close> to
  \<open>size_t\<close>, which is undefined for a value outside the range, and for 0 / 0.
\<close>

section \<open>The tracker\<close>

record args =
  alpha :: rat
  limitable :: bool
  rate_recalculation_trigger :: rat

definition default_args :: args where
  "default_args = \<lparr>alpha = 1 / 10, limitable = True, rate_recalculation_trigger = 11 / 10\<rparr>"

record tracker =
  true_rates :: "nat list"
  max_byterate :: rat

definition double_max :: rat where
  "double_max = (2 ^ 53 - 1) * 2 ^ 971"

definition epsilon :: rat where
  "epsilon = 1 / 2 ^ 52"

definition RateTracker_new :: tracker where
  "RateTracker_new = \<lparr>true_rates = [], max_byterate = double_max\<rparr>"

definition RateTracker_new_max :: "rat \<Rightarrow> tracker" where
  "RateTracker_new_max r = \<lparr>true_rates = [], max_byterate = r\<rparr>"

definition set_max_byterate :: "rat \<Rightarrow> tracker \<Rightarrow> tracker" where
  "set_max_byterate r T = T\<lparr>max_byterate := if r < 0 then double_max else r\<rparr>"

definition get_max_byterate :: "tracker \<Rightarrow> rat" where
  "get_max_byterate T = max_byterate T"

text \<open>Conversion to \<open>size_t\<close>: truncation, defined only when the result can be represented.\<close>

definition to_size_t :: "rat \<Rightarrow> nat result" where
  "to_size_t x = (if - 1 < x \<and> x < 2 ^ 64 then Inr (nat \<lfloor>x\<rfloor>) else Inl Bad_cast)"

definition total_rate :: "tracker \<Rightarrow> rat" where
  "total_rate T = (\<Sum>r \<leftarrow> true_rates T. of_nat r)"

text \<open>
  With a total of 0 the quotient is not a number (0 / 0) or infinite, and so is the product: the
  conversion is undefined.
\<close>

definition update_and_get_allowable :: "nat \<Rightarrow> nat \<Rightarrow> tracker \<Rightarrow> (nat \<times> tracker) result" where
  "update_and_get_allowable new_rate k T =
     (let T' = (if k < length (true_rates T) then T\<lparr>true_rates := (true_rates T)[k := new_rate]\<rparr> else T);
          total = total_rate T'
      in if total = 0 then Inl Bad_cast
         else case to_size_t (of_nat new_rate / total * min total (max_byterate T')) of
                Inl e \<Rightarrow> Inl e
              | Inr a \<Rightarrow> Inr (a, T'))"

definition unregister :: "nat \<Rightarrow> tracker \<Rightarrow> tracker" where
  "unregister k T =
     (if k < length (true_rates T) then T\<lparr>true_rates := swap_pop k (true_rates T)\<rparr> else T)"

section \<open>The enforcer\<close>

text \<open>\<open>has_tracker\<close>: the shared pointer to the tracker is not null. The timers are their start times.\<close>

record enforcer =
  unlimited_timer :: rat
  unlimited_rate :: rat
  allowed_rate :: nat
  actual_timer :: rat
  actual_rate :: rat
  has_tracker :: bool
  e_args :: args
  e_id :: nat

text \<open>The constructors; \<open>t\<close> is the time at which the timers are constructed.\<close>

definition RateEnforcer_default :: "rat \<Rightarrow> enforcer" where
  "RateEnforcer_default t = \<lparr>unlimited_timer = t, unlimited_rate = 0, allowed_rate = 0, actual_timer = t,
     actual_rate = 0, has_tracker = False, e_args = default_args, e_id = 0\<rparr>"

definition RateEnforcer_new :: "args \<Rightarrow> nat \<Rightarrow> rat \<Rightarrow> enforcer" where
  "RateEnforcer_new a k t = \<lparr>unlimited_timer = t, unlimited_rate = 0, allowed_rate = 0, actual_timer = t,
     actual_rate = 0, has_tracker = True, e_args = a, e_id = k\<rparr>"

definition make_enforcer :: "args \<Rightarrow> rat \<Rightarrow> tracker \<Rightarrow> enforcer \<times> tracker" where
  "make_enforcer a t T =
     (RateEnforcer_new a (length (true_rates T)) t, T\<lparr>true_rates := true_rates T @ [0]\<rparr>)"

definition RateEnforcer_destroy :: "enforcer \<Rightarrow> tracker \<Rightarrow> tracker" where
  "RateEnforcer_destroy e T = (if has_tracker e then unregister (e_id e) T else T)"

text \<open>
  The moving average is held as a \<open>double\<close>; passing it to \<open>update_and_get_allowable\<close> converts it to
  \<open>size_t\<close>.
\<close>

definition update_hypothetical_rate ::
  "rat \<Rightarrow> nat \<Rightarrow> tracker \<Rightarrow> enforcer \<Rightarrow> (enforcer \<times> tracker) result" where
  "update_hypothetical_rate now nBytes T e =
     (let instantaneous = of_nat nBytes / ((now - unlimited_timer e) + epsilon);
          rate = unlimited_rate e * (1 - alpha (e_args e)) + alpha (e_args e) * instantaneous;
          e' = e\<lparr>unlimited_timer := now, unlimited_rate := rate\<rparr>
      in if \<not> has_tracker e then Inr (e', T)
         else case to_size_t rate of
                Inl f \<Rightarrow> Inl f
              | Inr r \<Rightarrow>
                  (case update_and_get_allowable r (e_id e) T of
                     Inl f \<Rightarrow> Inl f
                   | Inr (a, T') \<Rightarrow> Inr (e'\<lparr>allowed_rate := a\<rparr>, T')))"

definition should_send :: "rat \<Rightarrow> nat \<Rightarrow> enforcer \<Rightarrow> bool \<times> enforcer" where
  "should_send now nBytes e =
     (if \<not> has_tracker e then (True, e)
      else let instantaneous = of_nat nBytes / ((now - actual_timer e) + epsilon);
               thresh = of_nat (allowed_rate e);
               e1 = (if thresh * rate_recalculation_trigger (e_args e) < actual_rate e
                     then e\<lparr>actual_rate := 0\<rparr> else e);
               temp = actual_rate e1 * (1 - alpha (e_args e)) + alpha (e_args e) * instantaneous;
               may_send = (temp \<le> thresh \<or> \<not> limitable (e_args e))
           in (may_send, if may_send then e1\<lparr>actual_timer := now, actual_rate := temp\<rparr> else e1))"

section \<open>Shares\<close>

text \<open>What a wish of \<open>r\<close> is worth, before the truncation.\<close>

definition share :: "tracker \<Rightarrow> nat \<Rightarrow> rat" where
  "share T r = of_nat r / total_rate T * min (total_rate T) (max_byterate T)"

lemma share_nonneg:
  assumes "0 < total_rate T" and "0 \<le> max_byterate T"
  shows "0 \<le> share T r"
  using assms by (simp add: share_def)

lemma share_le:
  assumes "0 < total_rate T"
  shows "share T r \<le> of_nat r"
proof -
  have "share T r \<le> of_nat r / total_rate T * total_rate T"
    unfolding share_def using assms by (intro mult_left_mono) simp_all
  then show ?thesis using assms by simp
qed

lemma share_full:
  assumes "0 < total_rate T" and "total_rate T \<le> max_byterate T"
  shows "share T r = of_nat r"
  using assms by (simp add: share_def)

lemma sum_share:
  assumes "0 < total_rate T"
  shows "(\<Sum>r \<leftarrow> true_rates T. share T r) = min (total_rate T) (max_byterate T)"
proof -
  have "(\<Sum>r \<leftarrow> rs. of_nat r / t * m) = (\<Sum>r \<leftarrow> rs. of_nat r) / t * m" for rs and t m :: rat
    by (induction rs) (simp_all add: add_divide_distrib distrib_right)
  then show ?thesis using assms by (simp add: share_def total_rate_def)
qed

lemma to_size_t_ok:
  assumes "0 \<le> x" and "x \<le> of_nat r" and "r < 2 ^ 64"
  shows "to_size_t x = Inr (nat \<lfloor>x\<rfloor>)"
proof -
  have "(of_nat r :: rat) < of_nat (2 ^ 64)" using assms(3) by (simp only: of_nat_less_iff)
  then show ?thesis using assms(1,2) by (simp add: to_size_t_def)
qed

lemma sum_floor_le:
  assumes "\<forall>r \<in> set rs. 0 \<le> f r"
  shows "of_nat (\<Sum>r \<leftarrow> rs. nat \<lfloor>f r :: rat\<rfloor>) \<le> (\<Sum>r \<leftarrow> rs. f r)"
  using assms
proof (induction rs)
  case Nil
  then show ?case by simp
next
  case (Cons r rs)
  then have "(of_nat (nat \<lfloor>f r\<rfloor>) :: rat) \<le> f r" by (simp add: of_nat_nat)
  with Cons show ?case by simp
qed

lemma update_registered:
  assumes "i < length (true_rates T)" and "true_rates T ! i = r" and "r < 2 ^ 64"
    and "0 < total_rate T" and "0 \<le> max_byterate T"
  shows "update_and_get_allowable r i T = Inr (nat \<lfloor>share T r\<rfloor>, T)"
proof -
  have T: "T\<lparr>true_rates := (true_rates T)[i := r]\<rparr> = T" using assms(2) by (simp add: list_update_same_conv assms(1))
  have "to_size_t (share T r) = Inr (nat \<lfloor>share T r\<rfloor>)"
    using share_nonneg share_le assms(3-5) by (intro to_size_t_ok)
  then show ?thesis
    using assms(1,4) by (simp add: update_and_get_allowable_def T Let_def share_def)
qed

text \<open>
  The tracker divides the maximal rate: when every enforcer has reported its wish and asks for its
  allowance, all of them get one (nothing is undefined), together not more than the maximum, and each
  its full wish when the wishes together do not exceed the maximum.
\<close>

lemma allowed_rates_share_the_maximum:
  assumes "0 \<le> max_byterate T" and "0 < total_rate T" and "\<forall>r \<in> set (true_rates T). r < 2 ^ 64"
  shows "\<exists>as. length as = length (true_rates T)
     \<and> (\<forall>i < length as. update_and_get_allowable (true_rates T ! i) i T = Inr (as ! i, T))
     \<and> of_nat (sum_list as) \<le> max_byterate T
     \<and> (total_rate T \<le> max_byterate T \<longrightarrow> as = true_rates T)"
proof (intro exI conjI)
  let ?as = "map (\<lambda>r. nat \<lfloor>share T r\<rfloor>) (true_rates T)"
  show "length ?as = length (true_rates T)" by simp
  show "\<forall>i < length ?as. update_and_get_allowable (true_rates T ! i) i T = Inr (?as ! i, T)"
    using assms by (simp add: update_registered)
  have "of_nat (sum_list ?as) \<le> min (total_rate T) (max_byterate T)"
    using sum_floor_le [of "true_rates T" "share T"] share_nonneg [OF assms(2,1)] sum_share [OF assms(2)]
    by simp
  then show "of_nat (sum_list ?as) \<le> max_byterate T" by simp
  show "total_rate T \<le> max_byterate T \<longrightarrow> ?as = true_rates T"
    using share_full [OF assms(2)] by (simp add: map_idI)
qed

lemma allowed_rates_share_the_maximum_witness:
  "\<exists>as. length as = 2 \<and> of_nat (sum_list as) \<le> (100 :: rat)
     \<and> update_and_get_allowable 100 1 \<lparr>true_rates = [300, 100], max_byterate = 100\<rparr>
           = Inr (as ! 1, \<lparr>true_rates = [300, 100], max_byterate = 100\<rparr>)"
proof -
  let ?T = "\<lparr>true_rates = [300, 100], max_byterate = 100\<rparr> :: tracker"
  obtain as where as: "length as = length (true_rates ?T)"
    "\<forall>i < length as. update_and_get_allowable (true_rates ?T ! i) i ?T = Inr (as ! i, ?T)"
    "of_nat (sum_list as) \<le> max_byterate ?T"
    using allowed_rates_share_the_maximum [of ?T] by (auto simp: total_rate_def)
  then show ?thesis by (intro exI [of _ as]) (auto dest: spec [of _ 1])
qed

section \<open>Limits\<close>

text \<open>
  A series of attempts to send, given by their times and sizes: the bytes accepted, the number of
  messages accepted, and the enforcer afterwards.
\<close>

fun attempts :: "(rat \<times> nat) list \<Rightarrow> enforcer \<Rightarrow> nat \<times> nat \<times> enforcer" where
  "attempts [] e = (0, 0, e)"
| "attempts ((now, n) # as) e =
     (case should_send now n e of
        (may, e') \<Rightarrow>
          (case attempts as e' of
             (bytes, cnt, e'') \<Rightarrow> (if may then (bytes + n, Suc cnt, e'') else (bytes, cnt, e''))))"

text \<open>The fields that \<open>should_send\<close> leaves alone.\<close>

lemma should_send_frame:
  assumes "should_send now n e = (may, e')"
  shows "e_args e' = e_args e" "has_tracker e' = has_tracker e" "allowed_rate e' = allowed_rate e"
    "e_id e' = e_id e" "unlimited_timer e' = unlimited_timer e" "unlimited_rate e' = unlimited_rate e"
  using assms by (auto simp: should_send_def Let_def split: if_splits)

lemma epsilon_pos: "0 < epsilon"
  by (simp add: epsilon_def)

lemma should_send_accepted:
  assumes "should_send now n e = (True, e')" and "has_tracker e" and "limitable (e_args e)"
    and "0 \<le> actual_rate e" and "0 < alpha (e_args e)" and "alpha (e_args e) \<le> 1" and "actual_timer e \<le> now"
  shows "alpha (e_args e) * of_nat n \<le> of_nat (allowed_rate e) * (now - actual_timer e + epsilon)"
    and "actual_timer e' = now" and "0 \<le> actual_rate e'" and "actual_rate e' \<le> of_nat (allowed_rate e)"
proof -
  define d where "d = now - actual_timer e + epsilon"
  have d: "0 < d" using assms(7) epsilon_pos by (simp add: d_def)
  define before where "before = (if of_nat (allowed_rate e) * rate_recalculation_trigger (e_args e) < actual_rate e
     then 0 else actual_rate e)"
  have b: "0 \<le> before * (1 - alpha (e_args e))" using assms(4,6) by (simp add: before_def)
  have e': "actual_rate e' = before * (1 - alpha (e_args e)) + alpha (e_args e) * (of_nat n / d)"
    "actual_rate e' \<le> of_nat (allowed_rate e)" "actual_timer e' = now"
    using assms(1-3) by (auto simp: should_send_def Let_def before_def d_def split: if_splits)
  show "actual_timer e' = now" "actual_rate e' \<le> of_nat (allowed_rate e)" using e' by simp_all
  show "0 \<le> actual_rate e'" using b d assms(5) by (simp add: e'(1))
  have "alpha (e_args e) * (of_nat n / d) \<le> of_nat (allowed_rate e)" using b e'(1,2) by linarith
  then have "alpha (e_args e) * of_nat n \<le> of_nat (allowed_rate e) * d"
    using d by (simp add: pos_divide_le_eq)
  then show "alpha (e_args e) * of_nat n \<le> of_nat (allowed_rate e) * (now - actual_timer e + epsilon)"
    by (simp add: d_def)
qed

lemma should_send_refused:
  assumes "should_send now n e = (False, e')" and "0 \<le> actual_rate e"
  shows "actual_timer e' = actual_timer e" and "0 \<le> actual_rate e'"
  using assms by (auto simp: should_send_def Let_def split: if_splits)

text \<open>
  What the limiter guarantees: while the allowance is \<open>R\<close>, the bytes that an enforcer lets through
  in any series of attempts are at most \<open>R / alpha\<close> times the time from its last send before the series to
  the last one in it (plus the clock's resolution for each message).
\<close>

lemma rate_limit_bounds_bytes:
  assumes "attempts as e = (bytes, cnt, e')" and "sorted (actual_timer e # map fst as)"
    and "has_tracker e" and "limitable (e_args e)" and "0 \<le> actual_rate e"
    and "0 < alpha (e_args e)" and "alpha (e_args e) \<le> 1"
  shows "alpha (e_args e) * of_nat bytes
     \<le> of_nat (allowed_rate e) * (actual_timer e' - actual_timer e + of_nat cnt * epsilon)"
  using assms
proof (induction as arbitrary: e bytes cnt)
  case Nil
  then show ?case by simp
next
  case (Cons a as)
  obtain now n where a: "a = (now, n)" by (cases a)
  obtain may e1 where e1: "should_send now n e = (may, e1)" by (cases "should_send now n e")
  note frame = should_send_frame [OF e1]
  obtain bytes1 cnt1 where r: "attempts as e1 = (bytes1, cnt1, e')"
    "(bytes, cnt) = (if may then (bytes1 + n, Suc cnt1) else (bytes1, cnt1))"
    using Cons.prems(1) by (auto simp: a e1 split: prod.splits if_splits)
  show ?case
  proof (cases may)
    case True
    then have e1: "should_send now n e = (True, e1)" using e1 by simp
    note acc = should_send_accepted [OF e1 Cons.prems(3-7)]
    have now: "actual_timer e \<le> now" using Cons.prems(2) by (simp add: a)
    have "alpha (e_args e1) * of_nat bytes1
        \<le> of_nat (allowed_rate e1) * (actual_timer e' - actual_timer e1 + of_nat cnt1 * epsilon)"
      using Cons.prems acc(2,3) [OF now] frame by (intro Cons.IH [OF r(1)]) (simp_all add: a)
    then have "alpha (e_args e) * of_nat bytes1 + alpha (e_args e) * of_nat n
        \<le> of_nat (allowed_rate e) * (actual_timer e' - now + of_nat cnt1 * epsilon)
          + of_nat (allowed_rate e) * (now - actual_timer e + epsilon)"
      using acc(1,2) [OF now] frame by (intro add_mono) simp_all
    then show ?thesis using r(2) \<open>may\<close> by (simp add: algebra_simps)
  next
    case False
    then have e1: "should_send now n e = (False, e1)" using e1 by simp
    note ref = should_send_refused [OF e1 Cons.prems(5)]
    have "alpha (e_args e1) * of_nat bytes1
        \<le> of_nat (allowed_rate e1) * (actual_timer e' - actual_timer e1 + of_nat cnt1 * epsilon)"
      using Cons.prems ref frame by (intro Cons.IH [OF r(1)]) (simp_all add: a)
    then show ?thesis using r(2) \<open>\<not> may\<close> ref frame by simp
  qed
qed

theorem rate_limit_bounds_bytes_witness:
  "let e = (RateEnforcer_new default_args 0 0)\<lparr>allowed_rate := 100\<rparr>;
       (bytes, cnt, e') = attempts [(1, 500), (2, 5000), (3, 50)] e
   in bytes = 550 \<and> cnt = 2 \<and> (1 / 10) * of_nat bytes \<le> (100 :: rat) * (actual_timer e' + 2 * epsilon)"
proof -
  let ?e = "(RateEnforcer_new default_args 0 0)\<lparr>allowed_rate := 100\<rparr>"
  let ?as = "[(1, 500), (2, 5000), (3, 50)]"
  obtain bytes cnt e' where r: "attempts ?as ?e = (bytes, cnt, e')" by (cases "attempts ?as ?e")
  have "bytes = 550 \<and> cnt = 2"
    using r by (simp add: should_send_def RateEnforcer_new_def default_args_def epsilon_def)
  moreover have "alpha (e_args ?e) * of_nat bytes
     \<le> of_nat (allowed_rate ?e) * (actual_timer e' - actual_timer ?e + of_nat cnt * epsilon)"
    by (rule rate_limit_bounds_bytes [OF r]) (simp_all add: RateEnforcer_new_def default_args_def)
  ultimately show ?thesis using r by (simp add: RateEnforcer_new_def default_args_def)
qed

text \<open>
  C36. The limiter starves nobody: with an allowance above 0 a message of \<open>n\<close> bytes is let through once
  the given time has passed since the last send, however often it was refused before and however high
  the moving average was. The condition on the parameters holds for the defaults (0.9 * 1.1 < 1).
\<close>

theorem should_send_recovers:
  assumes "has_tracker e" and "0 < allowed_rate e" and "0 \<le> actual_rate e"
    and "0 < alpha (e_args e)" and "alpha (e_args e) \<le> 1" and "0 \<le> rate_recalculation_trigger (e_args e)"
    and "(1 - alpha (e_args e)) * rate_recalculation_trigger (e_args e) < 1"
    and "alpha (e_args e) * of_nat n
       \<le> (now - actual_timer e) * (1 - (1 - alpha (e_args e)) * rate_recalculation_trigger (e_args e))
          * of_nat (allowed_rate e)"
    and "actual_timer e \<le> now"
  shows "fst (should_send now n e)"
proof -
  define a where "a = alpha (e_args e)"
  define R where "R = (of_nat (allowed_rate e) :: rat)"
  define g where "g = rate_recalculation_trigger (e_args e)"
  define d where "d = now - actual_timer e + epsilon"
  define before where "before = (if R * g < actual_rate e then 0 else actual_rate e)"
  have R: "0 < R" using assms(2) by (simp add: R_def)
  have d: "0 < d" using assms(9) epsilon_pos by (simp add: d_def)
  have c: "0 < 1 - (1 - a) * g" using assms(7) by (simp add: a_def g_def)
  have "before \<le> R * g" using R assms(6) by (simp add: before_def g_def)
  then have "before * (1 - a) \<le> (R * g) * (1 - a)"
    using assms(5) by (intro mult_right_mono) (simp_all add: a_def)
  then have 1: "before * (1 - a) \<le> R * ((1 - a) * g)" by (simp only: ac_simps)
  have "a * of_nat n \<le> (now - actual_timer e) * ((1 - (1 - a) * g) * R)"
    using assms(8) by (simp add: a_def g_def R_def mult.assoc)
  also have "\<dots> \<le> d * ((1 - (1 - a) * g) * R)"
    using c R epsilon_pos by (intro mult_right_mono) (simp_all add: d_def)
  finally have "a * (of_nat n / d) \<le> (1 - (1 - a) * g) * R"
    using d by (simp add: pos_divide_le_eq mult.commute)
  then have "before * (1 - a) + a * (of_nat n / d) \<le> R"
    using 1 by (simp add: algebra_simps)
  then show ?thesis
    using assms(1) by (auto simp: should_send_def Let_def before_def a_def R_def g_def d_def split: if_splits)
qed

theorem should_send_recovers_witness:
  "fst (should_send 20 1000 ((RateEnforcer_new default_args 0 0)\<lparr>allowed_rate := 500, actual_rate := 540\<rparr>))"
  by (rule should_send_recovers) (simp_all add: RateEnforcer_new_def default_args_def)

section \<open>What goes wrong\<close>

text \<open>
  An enforcer that is destroyed takes the newest one with it: \<open>unregister\<close> moves the last rate into
  the freed slot, but the newest enforcer keeps its old number. From then on nothing it reports is
  recorded, and when it is destroyed in turn its slot stays for ever.
\<close>

lemma unregister_orphans_newest:
  assumes "k + 1 < length (true_rates T)" and "i = length (true_rates T) - 1"
  shows "(\<forall>r a T'. update_and_get_allowable r i (unregister k T) = Inr (a, T') \<longrightarrow> T' = unregister k T)
     \<and> unregister i (unregister k T) = unregister k T"
proof -
  have "length (true_rates (unregister k T)) = i"
    using assms by (simp add: unregister_def)
  then show ?thesis
    by (auto simp: update_and_get_allowable_def unregister_def [of i] Let_def split: if_splits sum.splits)
qed

text \<open>
  The first of three enforcers goes; the third then asks for 1000 bytes per second where the maximum is
  100 - and is allowed 500.
\<close>

theorem unregister_orphans_newest_witness:
  "let T = unregister 0 \<lparr>true_rates = [0, 100, 100], max_byterate = 100\<rparr>
   in update_and_get_allowable 1000 2 T = Inr (500, T) \<and> unregister 2 T = T"
  using unregister_orphans_newest [of 0 "\<lparr>true_rates = [0, 100, 100], max_byterate = 100\<rparr>" 2]
  by (simp add: unregister_def swap_pop_def update_and_get_allowable_def total_rate_def to_size_t_def Let_def)

text \<open>
  A message too small to count: while the other sessions are idle, the first message of a new session
  under the default parameters is undefined behaviour when it brings less than 10 bytes per second since
  the session was made, because its rate truncates to 0 and the tracker computes 0 / 0.
\<close>

lemma small_first_message_undefined:
  assumes "make_enforcer default_args t T = (e, T')" and "\<forall>r \<in> set (true_rates T). r = 0" and "t \<le> now"
    and "of_nat n < 10 * (now - t + epsilon)"
  shows "update_hypothetical_rate now n T' e = Inl Bad_cast"
proof -
  have e: "has_tracker e" "unlimited_timer e = t" "unlimited_rate e = 0" "alpha (e_args e) = 1 / 10"
    "e_id e = length (true_rates T)" and T': "T' = T\<lparr>true_rates := true_rates T @ [0]\<rparr>"
    using assms(1) by (auto simp: make_enforcer_def RateEnforcer_new_def default_args_def)
  define x where "x = unlimited_rate e * (1 - alpha (e_args e))
     + alpha (e_args e) * (of_nat n / ((now - unlimited_timer e) + epsilon))"
  have d: "0 < now - t + epsilon" using assms(3) epsilon_pos by simp
  have "x = of_nat n / (now - t + epsilon) / 10" by (simp add: x_def e)
  then have x: "0 \<le> x" "x < 1" using d assms(4) by (simp_all add: pos_divide_less_eq)
  then have "\<lfloor>x\<rfloor> = 0" by (simp add: floor_eq_iff)
  then have cast: "to_size_t x = Inr 0" using x by (simp add: to_size_t_def)
  have "true_rates T = replicate (length (true_rates T)) 0"
    using assms(2) by (intro replicate_eqI) simp_all
  then obtain m where "true_rates T = replicate m 0" by blast
  then have "total_rate T' = 0" by (simp add: T' total_rate_def sum_list_replicate)
  then have "update_and_get_allowable 0 (e_id e) T' = Inl Bad_cast"
    by (simp add: T' e update_and_get_allowable_def Let_def)
  with cast e(1) show ?thesis
    unfolding update_hypothetical_rate_def Let_def x_def by (simp only: sum.case simp_thms if_False)
qed

lemma small_first_message_undefined_witness:
  "case make_enforcer default_args 0 RateTracker_new of
     (e, T') \<Rightarrow> update_hypothetical_rate 1 5 T' e = Inl Bad_cast"
proof -
  obtain e T' where m: "make_enforcer default_args 0 RateTracker_new = (e, T')"
    by (cases "make_enforcer default_args 0 RateTracker_new")
  have "update_hypothetical_rate 1 5 T' e = Inl Bad_cast"
    by (rule small_first_message_undefined [OF m]) (simp_all add: RateTracker_new_def epsilon_def)
  with m show ?thesis by simp
qed

end
