(* ===== verification/Ws_Session.thy ===== *)
theory Ws_Session
  imports Rate_Limiter Strand
begin

text \<open>
  \<^verbatim>\<open>Networking/src/websocket_session.hpp\<close> and \<^verbatim>\<open>websocket_session.cpp\<close>: one WebSocket
  connection, as a server or as a client. The socket and the strand are Boost's; an operation here is a
  handler that runs on the strand. The endpoint, which is only handed through to the user's callbacks,
  is left out.
\<close>

section \<open>State\<close>

text \<open>\<open>has_state\<close>: the pointer to the shared state of the server is not null.\<close>

record ws_session =
  ws_queue :: "item list"
  ws_queue_size :: nat
  ws_enforcer :: enforcer
  ws_upgraded :: bool
  has_state :: bool

text \<open>
  The constructors. \<open>tr\<close>: the shared state, if there is one, with its rate tracker, if there is one, and the
  arguments for enforcers. Both constructors set the same fields; they differ in what the model leaves
  out (resolver, addresses).
\<close>

definition ws_session_new ::
  "rat \<Rightarrow> (tracker option \<times> args) option \<Rightarrow> ws_session \<times> tracker option" where
  "ws_session_new now state =
     (let (en, tr) = (case state of
            Some (Some T, a) \<Rightarrow> (case make_enforcer a now T of (en, T') \<Rightarrow> (en, Some T'))
          | Some (None, a) \<Rightarrow> (RateEnforcer_default now, None)
          | None \<Rightarrow> (RateEnforcer_default now, None))
      in (\<lparr>ws_queue = [], ws_queue_size = 0, ws_enforcer = en, ws_upgraded = False,
           has_state = (state \<noteq> None)\<rparr>, tr))"

text \<open>
  The timeouts of the stream: Beast's suggestion for the role, changed to what the shared state says. A
  timeout is a number of seconds, \<^const>\<open>None\<close> is \<open>none()\<close>.
\<close>

record timeout_params =
  handshake_timeout :: "int option"
  idle_timeout :: "int option"
  keep_alive_pings :: bool

record timeout_settings =
  ws_handshake_timeout :: int
  ws_idle_timeout :: int
  send_keep_alives :: bool

definition tweak_timeouts :: "timeout_settings option \<Rightarrow> timeout_params \<Rightarrow> timeout_params" where
  "tweak_timeouts state p =
     (case state of
        None \<Rightarrow> p
      | Some ts \<Rightarrow> p\<lparr>
          handshake_timeout := (if 0 < ws_handshake_timeout ts then Some (ws_handshake_timeout ts) else None),
          idle_timeout := (if 0 < ws_idle_timeout ts then Some (ws_idle_timeout ts) else None),
          keep_alive_pings := send_keep_alives ts\<rparr>)"

definition get_timeout_settings_for_client ::
  "timeout_params \<Rightarrow> timeout_settings option \<Rightarrow> timeout_params" where
  "get_timeout_settings_for_client suggested_client state = tweak_timeouts state suggested_client"

definition get_timeout_settings_for_server ::
  "timeout_params \<Rightarrow> timeout_settings option \<Rightarrow> timeout_params" where
  "get_timeout_settings_for_server suggested_server state = tweak_timeouts state suggested_server"

section \<open>Reading and the handshake\<close>

definition ws_on_error :: "error_code \<Rightarrow> ws_session \<Rightarrow> effect list" where
  "ws_on_error ec s =
     (if ec = Operation_aborted \<or> ec = Ws_closed then []
      else if has_state s then [Report ec] else [])"

text \<open>\<open>if (state_ && ! upgraded.exchange(true)) state_->upgrade(...)\<close>; without a state there is no exchange.\<close>

definition ws_upgrade :: "ws_session \<Rightarrow> ws_session \<times> effect list" where
  "ws_upgrade s =
     (if has_state s then (s\<lparr>ws_upgraded := True\<rparr>, if ws_upgraded s then [] else [Upgrade]) else (s, []))"

definition ws_on_accept :: "error_code \<Rightarrow> ws_session \<Rightarrow> ws_session \<times> effect list" where
  "ws_on_accept ec s =
     (if ec \<noteq> Success then (s, ws_on_error ec s)
      else case ws_upgrade s of (s', es) \<Rightarrow> (s', es @ [Async_read]))"

definition ws_on_read :: "error_code \<Rightarrow> nat \<Rightarrow> ws_session \<Rightarrow> effect list" where
  "ws_on_read ec n s =
     (if ec \<noteq> Success then ws_on_error ec s
      else (if has_state s then [Deliver n] else []) @ [Async_read])"

text \<open>\<open>mx\<close> is the shared state's \<open>read_message_max\<close>.\<close>

definition ws_on_handshake :: "nat \<Rightarrow> error_code \<Rightarrow> ws_session \<Rightarrow> ws_session \<times> effect list" where
  "ws_on_handshake mx ec s =
     (if ec \<noteq> Success then (s, ws_on_error ec s)
      else let limit = (if has_state s \<and> 0 < mx then [Set_read_max mx] else [])
           in case ws_upgrade s of (s', es) \<Rightarrow> (s', Set_binary # limit @ es @ [Async_read]))"

section \<open>Sending\<close>

text \<open>
  The end of \<open>on_send\<close> and of \<open>on_write\<close>: write the message, or post the write handler with an abort.
  \<open>should_send\<close> is asked in any case, also for a message that must be sent.
\<close>

definition ws_start :: "rat \<Rightarrow> item \<Rightarrow> ws_session \<Rightarrow> ws_session \<times> effect" where
  "ws_start now it s =
     (case should_send now (unat (it_size it)) (ws_enforcer s) of
        (may, en) \<Rightarrow>
          (s\<lparr>ws_enforcer := en\<rparr>,
           if (may \<or> it_force it) \<and> sendable it then Async_write (it_ptr it) (it_size it) else Post_aborted))"

definition ws_on_send ::
  "rat \<Rightarrow> item \<Rightarrow> nat \<Rightarrow> tracker \<Rightarrow> ws_session \<Rightarrow> (tracker \<times> ws_session \<times> effect list) result" where
  "ws_on_send now it max_queue_size T s =
     (case update_hypothetical_rate now (unat (it_size it)) T (ws_enforcer s) of
        Inl e \<Rightarrow> Inl e
      | Inr (en, T') \<Rightarrow>
          (case trim (max max_queue_size 2) 2 (ws_queue s) of
             (q, es) \<Rightarrow>
               let s' = s\<lparr>ws_enforcer := en, ws_queue := q @ [it], ws_queue_size := length (q @ [it])\<rparr>
               in if 1 < length (q @ [it]) then Inr (T', s', es)
                  else case ws_start now it s' of (s'', e) \<Rightarrow> Inr (T', s'', es @ [e])))"

definition ws_on_write :: "rat \<Rightarrow> error_code \<Rightarrow> nat \<Rightarrow> ws_session \<Rightarrow> (ws_session \<times> effect list) result" where
  "ws_on_write now ec n s =
     (case ws_queue s of
        [] \<Rightarrow> Inl Out_of_bounds
      | it # q \<Rightarrow>
          let s' = s\<lparr>ws_queue := q, ws_queue_size := length q\<rparr>;
              es = notify it ec n @ (if ec \<noteq> Success then ws_on_error ec s else [])
          in case q of
               [] \<Rightarrow> Inr (s', es)
             | nx # _ \<Rightarrow> (case ws_start now nx s' of (s'', e) \<Rightarrow> Inr (s'', es @ [e])))"

text \<open>The destructor, and then that of the enforcer.\<close>

definition ws_session_destroy :: "tracker \<Rightarrow> ws_session \<Rightarrow> tracker \<times> effect list" where
  "ws_session_destroy T s =
     (RateEnforcer_destroy (ws_enforcer s) T,
      concat (map (\<lambda>it. notify it Operation_aborted 0) (ws_queue s))
      @ (if has_state s \<and> ws_upgraded s then [Downgrade] else []))"

section \<open>The queue\<close>

text \<open>
  The session as the interface sees it. What a handler looks at is the time and the tracker, which the
  other sessions may have changed in between in any way.
\<close>

definition ws_submit ::
  "rat \<times> tracker \<Rightarrow> item \<Rightarrow> nat \<Rightarrow> ws_session \<Rightarrow> (ws_session \<times> effect list) result" where
  "ws_submit a it mx s =
     (case ws_on_send (fst a) it mx (snd a) s of Inl e \<Rightarrow> Inl e | Inr (T, s', es) \<Rightarrow> Inr (s', es))"

definition ws_complete ::
  "rat \<times> tracker \<Rightarrow> error_code \<Rightarrow> nat \<Rightarrow> ws_session \<Rightarrow> (ws_session \<times> effect list) result" where
  "ws_complete a ec n s = ws_on_write (fst a) ec n s"

lemma ws_start_for:
  assumes "ws_start now it s = (s', e)"
  shows "start_for it e \<and> ws_queue s' = ws_queue s"
  using assms by (auto simp: ws_start_def start_for_def split: prod.splits if_splits)

lemma ws_on_error_frame [simp]:
  "starts (ws_on_error ec s) = []" "calls (ws_on_error ec s) = []"
  by (simp_all add: ws_on_error_def)

lemma ws_submit_cases:
  assumes "ws_submit a it mx s = Inr (s', es)"
  obtains q es0 where "trim (max mx 2) 2 (ws_queue s) = (q, es0)" and "ws_queue s' = q @ [it]"
    and "q \<noteq> []" and "es = es0"
  | q es0 e where "trim (max mx 2) 2 (ws_queue s) = (q, es0)" and "ws_queue s' = q @ [it]"
    and "q = []" and "es = es0 @ [e]" and "start_for it e"
  using assms
  by (auto simp: ws_submit_def ws_on_send_def Let_def dest: ws_start_for split: sum.splits prod.splits if_splits)

lemma update_fails:
  assumes "update_hypothetical_rate now n T e = Inl f"
  shows "f = Bad_cast"
  using assms
  by (auto simp: update_hypothetical_rate_def update_and_get_allowable_def to_size_t_def Let_def
      split: if_splits sum.splits prod.splits)

interpretation wsq: send_queue ws_queue ws_submit ws_complete
proof unfold_locales
  fix a it mx s s' es
  assume s: "ws_submit a it mx s = Inr (s', es)"
  let ?t = "trim (max mx 2) 2 (ws_queue s)"
  have t: "starts (snd ?t) = []" "fst ?t = [] \<longleftrightarrow> ws_queue s = []" by (simp_all add: trim_starts trim_nil)
  from s show "ws_queue s' = fst ?t @ [it]" by (cases rule: ws_submit_cases) simp_all
  from s show "calls es = calls (snd ?t)"
    by (cases rule: ws_submit_cases) (auto simp: start_for_def)
  from s t show "if ws_queue s = [] then \<exists>st. starts es = [st] \<and> start_for it st else starts es = []"
    by (cases rule: ws_submit_cases) (auto simp: start_for_is_start)
next
  fix a it mx s e
  assume "ws_submit a it mx s = Inl e"
  then show "e = Bad_cast"
    by (auto simp: ws_submit_def ws_on_send_def Let_def dest: update_fails split: sum.splits prod.splits if_splits)
next
  fix a ec n q it and s :: ws_session
  assume "ws_queue s = it # q"
  then show "\<exists>s' es. ws_complete a ec n s = Inr (s', es) \<and> ws_queue s' = q
      \<and> calls es = handler_of it \<and> pending_ok q (starts es)"
    by (auto simp: ws_complete_def ws_on_write_def Let_def pending_ok_def start_for_is_start
        dest: ws_start_for split: list.splits prod.splits if_splits)
qed

lemma destroy_calls: "calls (snd (ws_session_destroy T s)) = handlers (ws_queue s)"
proof -
  have "calls (concat (map (\<lambda>it. notify it Operation_aborted 0) q)) = handlers q" for q
    by (induction q) simp_all
  then show ?thesis by (simp add: ws_session_destroy_def)
qed

text \<open>
  C14. Every completion handler is called exactly once. Whatever messages are submitted to a new session
  and whatever comes of its writes, and whatever the other sessions do to the tracker: the only failure is
  the undefined conversion of a rate; the handlers submitted are those called so far and those of the
  queue; the destructor calls the rest. While the queue is not empty exactly one operation is
  pending, and it is the write (or the abort) of the message at the front: the memory being written
  belongs to a message whose handler has not been called yet.
\<close>

theorem ws_handlers_called_once:
  assumes "ws_queue s = []"
  shows "case io_run ws_queue ws_submit ws_complete as (run_start s) of
       Inl e \<Rightarrow> e = Bad_cast
     | Inr y \<Rightarrow>
         mset (handlers (r_submitted y)) = mset (r_called y) + mset (handlers (ws_queue (r_state y)))
         \<and> mset (handlers (r_submitted y))
             = mset (r_called y) + mset (calls (snd (ws_session_destroy T (r_state y))))
         \<and> (case ws_queue (r_state y) of
               [] \<Rightarrow> r_pending y = []
             | it # _ \<Rightarrow> \<exists>st. r_pending y = [st]
                 \<and> (st = Post_aborted \<or> st = Async_write (it_ptr it) (it_size it) \<and> sendable it))"
proof -
  have "run_ok ws_queue (run_start s)" using assms by (simp add: run_ok_def run_start_def pending_ok_def)
  from wsq.io_run_ok [OF this, of as] show ?thesis
    by (auto simp: run_ok_def pending_ok_def start_for_def destroy_calls split: sum.splits list.splits)
qed

definition quiet_session :: ws_session where
  "quiet_session = fst (ws_session_new 0 None)"

definition example_item :: "nat \<Rightarrow> bool \<Rightarrow> item" where
  "example_item k force = \<lparr>it_ptr = 64, it_size = 8, it_handler = Some k, it_force = force\<rparr>"

definition example_ios :: "(rat \<times> tracker) io list" where
  "example_ios =
     [Submit (1, RateTracker_new) (example_item 1 False) 2, Submit (1, RateTracker_new) (example_item 2 False) 2,
      Submit (2, RateTracker_new) (example_item 3 False) 2, Submit (3, RateTracker_new) (example_item 4 True) 2,
      Finish (4, RateTracker_new) Success 8]"

lemmas ws_eval = quiet_session_def ws_session_new_def RateEnforcer_default_def example_ios_def example_item_def
  run_start_def ws_submit_def ws_complete_def ws_on_send_def ws_on_write_def ws_start_def
  update_hypothetical_rate_def should_send_def trim.simps drop_nth_def notify_def handlers_def handler_of_def
  sendable_def Let_def

lemma example_ws_run:
  "\<exists>y. io_run ws_queue ws_submit ws_complete example_ios (run_start quiet_session) = Inr y
     \<and> r_called y = [3, 1] \<and> handlers (ws_queue (r_state y)) = [2, 4]"
  by (simp add: ws_eval)

theorem ws_handlers_called_once_witness:
  "\<exists>y. io_run ws_queue ws_submit ws_complete example_ios (run_start quiet_session) = Inr y
     \<and> r_called y = [3, 1]
     \<and> mset (handlers (r_submitted y)) = {#1, 2, 3, 4#}
     \<and> mset (handlers (r_submitted y))
         = mset [3, 1] + mset (calls (snd (ws_session_destroy RateTracker_new (r_state y))))"
proof -
  obtain y where y: "io_run ws_queue ws_submit ws_complete example_ios (run_start quiet_session) = Inr y"
    "r_called y = [3, 1]" "handlers (ws_queue (r_state y)) = [2, 4]"
    using example_ws_run by blast
  have "ws_queue quiet_session = []" by (simp add: quiet_session_def ws_session_new_def)
  note ok = ws_handlers_called_once [OF this, where as = example_ios and T = RateTracker_new, unfolded y(1) sum.case]
  have "mset (handlers (r_submitted y)) = mset (r_called y) + mset (handlers (ws_queue (r_state y)))"
    using ok by (rule conjunct1)
  then have "mset (handlers (r_submitted y)) = {#1, 2, 3, 4#}" by (simp add: y(2,3) add_mset_commute)
  moreover have "mset (handlers (r_submitted y))
      = mset (r_called y) + mset (calls (snd (ws_session_destroy RateTracker_new (r_state y))))"
    using ok by (elim conjE)
  then have "mset (handlers (r_submitted y))
      = mset [3, 1] + mset (calls (snd (ws_session_destroy RateTracker_new (r_state y))))"
    by (simp only: y(2))
  ultimately show ?thesis using y(1,2) by (intro exI [of _ y] conjI) simp_all
qed



text \<open>
  The documented maximum of 2 is exceeded by messages that need not be sent: index 1 is never replaced.
\<close>

lemma queue_of_three:
  "\<exists>y. io_run ws_queue ws_submit ws_complete (take 3 example_ios) (run_start quiet_session) = Inr y
     \<and> length (ws_queue (r_state y)) = 3 \<and> count_if it_force (ws_queue (r_state y)) = 0"
  by (simp add: ws_eval)

section \<open>Registration with the server\<close>

datatype connected = Accepted error_code | Shaken nat error_code

fun connect_all :: "connected list \<Rightarrow> ws_session \<Rightarrow> ws_session \<times> effect list" where
  "connect_all [] s = (s, [])"
| "connect_all (c # cs) s =
     (case (case c of Accepted ec \<Rightarrow> ws_on_accept ec s | Shaken mx ec \<Rightarrow> ws_on_handshake mx ec s) of
        (s1, es) \<Rightarrow> (case connect_all cs s1 of (s2, fs) \<Rightarrow> (s2, es @ fs)))"

fun succeeded :: "connected \<Rightarrow> bool" where
  "succeeded (Accepted ec) \<longleftrightarrow> ec = Success"
| "succeeded (Shaken mx ec) \<longleftrightarrow> ec = Success"

lemma connect_upgrades:
  assumes "connect_all cs s = (s', es)"
  shows "count_if ((=) Upgrade) es + (if ws_upgraded s \<and> has_state s then 1 else 0)
      = (if has_state s \<and> (ws_upgraded s \<or> (\<exists>c \<in> set cs. succeeded c)) then 1 else 0)
     \<and> has_state s' = has_state s
     \<and> ws_upgraded s' = (ws_upgraded s \<or> (has_state s \<and> (\<exists>c \<in> set cs. succeeded c)))
     \<and> ws_queue s' = ws_queue s"
  using assms
proof (induction cs arbitrary: s es)
  case Nil
  then show ?case by simp
next
  case (Cons c cs)
  obtain s1 es1 where 1: "(case c of Accepted ec \<Rightarrow> ws_on_accept ec s | Shaken mx ec \<Rightarrow> ws_on_handshake mx ec s) = (s1, es1)"
    by fastforce
  obtain fs where 2: "connect_all cs s1 = (s', fs)" "es = es1 @ fs"
    using Cons.prems 1 by (auto split: prod.splits)
  have "count_if ((=) Upgrade) es1 = (if has_state s \<and> \<not> ws_upgraded s \<and> succeeded c then 1 else 0)
     \<and> has_state s1 = has_state s \<and> ws_upgraded s1 = (ws_upgraded s \<or> (has_state s \<and> succeeded c))
     \<and> ws_queue s1 = ws_queue s"
    using 1 by (cases c) (auto simp: ws_on_accept_def ws_on_handshake_def ws_upgrade_def ws_on_error_def Let_def
        split: if_splits prod.splits)
  with Cons.IH [OF 2(1)] 2(2) show ?case by (auto split: if_splits)
qed

text \<open>
  A session is registered with the server once and deregistered once: however many handshakes are
  reported for it, \<open>upgrade\<close> is called at most once, and exactly when there is a server and one of them
  succeeded; in the same case, and once, the destructor calls \<open>downgrade\<close>.
\<close>

lemma ws_registered_once:
  assumes "ws_session_new now state = (s, tr)" and "connect_all cs s = (s', es)"
  shows "count_if ((=) Upgrade) es = (if state \<noteq> None \<and> (\<exists>c \<in> set cs. succeeded c) then 1 else 0)
     \<and> count_if ((=) Downgrade) (snd (ws_session_destroy T s')) = count_if ((=) Upgrade) es"
proof -
  have s: "has_state s = (state \<noteq> None)" "\<not> ws_upgraded s" "ws_queue s = []"
    using assms(1) by (auto simp: ws_session_new_def Let_def split: prod.splits)
  from connect_upgrades [OF assms(2)] s show ?thesis
    by (simp add: ws_session_destroy_def)
qed

theorem ws_registered_once_witness:
  "let (s, tr) = ws_session_new 0 (Some (None, default_args));
       (s', es) = connect_all [Accepted (Other_error 5), Accepted Success, Shaken 100 Success] s
   in count_if ((=) Upgrade) es = 1 \<and> count_if ((=) Downgrade) (snd (ws_session_destroy RateTracker_new s')) = 1"
proof -
  obtain s tr where s: "ws_session_new 0 (Some (None, default_args)) = (s, tr)" by fastforce
  obtain s' es where c: "connect_all [Accepted (Other_error 5), Accepted Success, Shaken 100 Success] s = (s', es)"
    by fastforce
  from ws_registered_once [OF s c, of RateTracker_new] show ?thesis
    by (simp add: s c del: connect_all.simps)
qed

end
