(* ===== verification/Topic_Message.thy ===== *)
theory Topic_Message
  imports IPC_Prelude "HOL-Library.Sublist"
begin

text \<open>
  The message by which a \<open>MultiClientSender\<close> announces a topic
  (\<^verbatim>\<open>Networking/src/MultiClientSender.hpp\<close>, \<open>StartHeartbeat\<close>) and the parser of the
  \<open>MultiClientReceiver\<close> (\<^verbatim>\<open>Networking/src/MultiClientReceiver.hpp\<close>,
  \<open>SenderCharacteristics::Parse\<close>).
\<close>

section \<open>Numbers\<close>

definition digit :: "nat \<Rightarrow> char" where
  "digit d = char_of (48 + d)"

fun show_nat :: "nat \<Rightarrow> string" where
  "show_nat n = (if n < 10 then [digit n] else show_nat (n div 10) @ [digit (n mod 10)])"

declare show_nat.simps [simp del]

definition is_digit :: "char \<Rightarrow> bool" where
  "is_digit c \<longleftrightarrow> 48 \<le> (of_char c :: nat) \<and> (of_char c :: nat) \<le> 57"

text \<open>The regular expression class \<open>\w\<close>: letters, digits, underscore.\<close>

definition is_word :: "char \<Rightarrow> bool" where
  "is_word c \<longleftrightarrow> is_digit c \<or> (65 \<le> (of_char c :: nat) \<and> (of_char c :: nat) \<le> 90)
     \<or> (97 \<le> (of_char c :: nat) \<and> (of_char c :: nat) \<le> 122) \<or> c = CHR ''_''"

definition read_nat :: "string \<Rightarrow> nat" where
  "read_nat s = foldl (\<lambda>n c. n * 10 + (of_char c - 48)) 0 s"

text \<open>\<open>std::stoull\<close> throws \<open>std::out_of_range\<close> for a number that does not fit.\<close>

definition stoull :: "string \<Rightarrow> nat result" where
  "stoull s = (if read_nat s < 2 ^ 64 then Inr (read_nat s) else Inl Out_of_range)"

section \<open>The message\<close>

definition heartbeat_message :: "string \<Rightarrow> nat \<Rightarrow> nat \<Rightarrow> nat \<Rightarrow> nat \<Rightarrow> string" where
  "heartbeat_message topic port_insecure port_secure uniqueInstanceID time =
     ''topic:'' @ topic @ '',port_insecure:'' @ show_nat port_insecure
     @ '',port_secure:'' @ show_nat port_secure @ '',id:'' @ show_nat uniqueInstanceID
     @ '',endian:'' @ show_nat 1 @ '',system_time:'' @ show_nat time @ '',''"

section \<open>The parser\<close>

text \<open>
  \<open>regex_search\<close> for a key, a colon, one or more characters of a class that does not contain the comma, and a
  comma: the leftmost match, and there the longest run of the class.
\<close>

definition match_field :: "string \<Rightarrow> (char \<Rightarrow> bool) \<Rightarrow> string \<Rightarrow> string option" where
  "match_field key P s =
     (if prefix key s
      then let r = drop (length key) s; v = takeWhile P r
           in if v \<noteq> [] \<and> take 1 (drop (length v) r) = '','' then Some v else None
      else None)"

fun search_field :: "string \<Rightarrow> (char \<Rightarrow> bool) \<Rightarrow> string \<Rightarrow> string option" where
  "search_field key P [] = match_field key P []"
| "search_field key P (c # s) =
     (case match_field key P (c # s) of None \<Rightarrow> search_field key P s | Some v \<Rightarrow> Some v)"

record characteristics =
  ch_topic :: string
  ch_port_insecure :: "16 word"
  ch_port_secure :: "16 word"
  ch_uniqueHandleID :: "64 word"
  ch_endianness :: "16 word"
  ch_time :: "64 word"

text \<open>
  A numeric field. The cast in the source applies to the condition of the conditional expression, not to
  its value: the value is an unsigned 64-bit number, \<open>missing\<close> if there is no match, which the assignment then
  truncates.
\<close>

definition number_field :: "string \<Rightarrow> int \<Rightarrow> string \<Rightarrow> int result" where
  "number_field key missing s =
     (case search_field key is_digit s of
        None \<Rightarrow> Inr missing
      | Some v \<Rightarrow> (case stoull v of Inl e \<Rightarrow> Inl e | Inr n \<Rightarrow> Inr (int n)))"

text \<open>The characteristics and whether there was an error (only a missing topic is one).\<close>

definition Parse :: "string \<Rightarrow> (characteristics \<times> bool) result" where
  "Parse s =
     (let topic = search_field ''topic:'' is_word s in
      case number_field ''port_insecure:'' (- 1) s of Inl e \<Rightarrow> Inl e | Inr insecure \<Rightarrow>
      (case number_field ''port_secure:'' (- 1) s of Inl e \<Rightarrow> Inl e | Inr secure \<Rightarrow>
      (case number_field ''id:'' 0 s of Inl e \<Rightarrow> Inl e | Inr ident \<Rightarrow>
      (case number_field ''endian:'' 0 s of Inl e \<Rightarrow> Inl e | Inr endian \<Rightarrow>
      (case number_field ''system_time:'' 0 s of Inl e \<Rightarrow> Inl e | Inr time \<Rightarrow>
        Inr (\<lparr>ch_topic = (case topic of None \<Rightarrow> '''' | Some t \<Rightarrow> t),
              ch_port_insecure = of_int insecure, ch_port_secure = of_int secure,
              ch_uniqueHandleID = of_int ident, ch_endianness = of_int endian, ch_time = of_int time\<rparr>,
             topic = None))))))"

section \<open>Reading what was written\<close>

lemma is_digit_digit: "d < 10 \<Longrightarrow> is_digit (digit d)"
  by (simp add: is_digit_def digit_def)

lemma of_char_digit: "d < 10 \<Longrightarrow> of_char (digit d) = (48 + d :: nat)"
  by (simp add: digit_def)

lemma show_nat_digits: "\<forall>c \<in> set (show_nat n). is_digit c"
proof (induction n rule: show_nat.induct)
  case (1 n)
  then show ?case by (simp add: show_nat.simps [of n] is_digit_digit)
qed

lemma show_nat_nonempty: "show_nat n \<noteq> []"
  by (simp add: show_nat.simps [of n])

lemma read_show: "read_nat (show_nat n) = n"
proof (induction n rule: show_nat.induct)
  case (1 n)
  show ?case
  proof (cases "n < 10")
    case True
    then show ?thesis by (simp add: show_nat.simps [of n] read_nat_def of_char_digit)
  next
    case False
    then have "read_nat (show_nat n) = read_nat (show_nat (n div 10)) * 10 + n mod 10"
      by (simp add: show_nat.simps [of n] read_nat_def of_char_digit)
    with 1 False show ?thesis by simp
  qed
qed

text \<open>A string without the characters that structure a message.\<close>

definition plain :: "string \<Rightarrow> bool" where
  "plain s \<longleftrightarrow> (\<forall>c \<in> set s. c \<noteq> CHR '':'' \<and> c \<noteq> CHR '','')"

lemma plain_digits: "plain (show_nat n)"
  using show_nat_digits [of n] by (auto simp: plain_def is_digit_def)

lemma plain_word: "\<forall>c \<in> set s. is_word c \<Longrightarrow> plain s"
  by (auto simp: plain_def is_word_def is_digit_def)

lemma plain_simps [simp]:
  "plain []"
  "plain (c # s) \<longleftrightarrow> c \<noteq> CHR '':'' \<and> c \<noteq> CHR '','' \<and> plain s"
  by (auto simp: plain_def)

lemma plain_split:
  assumes "plain v" and "plain w" and "v @ a # s = w @ b # r" and "\<not> plain [a]" and "\<not> plain [b]"
  shows "v = w \<and> a = b \<and> s = r"
  using assms
proof (induction v arbitrary: w)
  case Nil
  then show ?case by (cases w) auto
next
  case (Cons c v)
  then show ?case by (cases w) auto
qed

text \<open>A field that is not looked for is passed over, one that is looked for is found.\<close>

lemma match_field_None: "\<not> prefix key s \<Longrightarrow> match_field key P s = None"
  by (simp add: match_field_def)

lemma search_field_skip: "\<not> prefix key (c # s) \<Longrightarrow> search_field key P (c # s) = search_field key P s"
  by (simp add: match_field_None)

declare search_field.simps [simp del]

lemma search_past_value:
  assumes "plain w" and "plain v"
  shows "search_field (w @ '':'') P (v @ CHR '','' # s) = search_field (w @ '':'') P s"
  using assms(2)
proof (induction v)
  case Nil
  have "\<not> prefix (w @ '':'') (CHR '','' # s)"
    using assms(1) by (cases w) (auto simp: prefix_def)
  then show ?case unfolding append_Nil by (rule search_field_skip)
next
  case (Cons c v)
  have "\<not> prefix (w @ '':'') (c # v @ CHR '','' # s)"
  proof
    assume "prefix (w @ '':'') (c # v @ CHR '','' # s)"
    then obtain r where "w @ CHR '':'' # r = (c # v) @ CHR '','' # s" by (auto simp: prefix_def)
    from plain_split [OF assms(1) Cons.prems this] show False by simp
  qed
  then show ?case using Cons by (simp add: search_field_skip)
qed

lemma search_past_name:
  assumes "plain w" and "plain n" and "\<not> suffix w n" and "w \<noteq> []"
  shows "search_field (w @ '':'') P (n @ CHR '':'' # s) = search_field (w @ '':'') P s"
  using assms(2,3)
proof (induction n)
  case Nil
  have "\<not> prefix (w @ '':'') (CHR '':'' # s)"
    using assms(1,4) by (cases w) auto
  then show ?case unfolding append_Nil by (rule search_field_skip)
next
  case (Cons c n)
  have "\<not> prefix (w @ '':'') (c # n @ CHR '':'' # s)"
  proof
    assume "prefix (w @ '':'') (c # n @ CHR '':'' # s)"
    then obtain r where "w @ CHR '':'' # r = (c # n) @ CHR '':'' # s" by (auto simp: prefix_def)
    from plain_split [OF assms(1) Cons.prems(1) this] Cons.prems(2) show False by simp
  qed
  then show ?case using Cons by (simp add: search_field_skip suffix_Cons)
qed

lemma search_past_field:
  assumes "plain w" and "w \<noteq> []" and "plain n" and "\<not> suffix w n" and "plain v"
  shows "search_field (w @ '':'') P (n @ '':'' @ v @ '','' @ s) = search_field (w @ '':'') P s"
  using search_past_name [OF assms(1,3,4,2), of P "v @ CHR '','' # s"] search_past_value [OF assms(1,5), of P s]
  by simp

lemma search_finds:
  assumes "\<forall>c \<in> set v. P c" and "v \<noteq> []" and "\<not> P (CHR '','')"
  shows "search_field (w @ '':'') P (w @ '':'' @ v @ '','' @ s) = Some v"
proof -
  have "takeWhile P (v @ CHR '','' # s) = v" using assms(1,3) by (simp add: takeWhile_append2)
  then have "match_field (w @ '':'') P (w @ CHR '':'' # v @ CHR '','' # s) = Some v"
    using assms(2) by (simp add: match_field_def Let_def prefix_def)
  then show ?thesis
    by (cases "w @ CHR '':'' # v @ CHR '','' # s") (simp_all add: search_field.simps)
qed

lemma number_field_finds:
  assumes "n < 2 ^ 64" and "search_field (w @ '':'') is_digit s = Some (show_nat n)"
  shows "number_field (w @ '':'') m s = Inr (int n)"
  using assms by (simp add: number_field_def stoull_def read_show)

lemma heartbeat_fields:
  "heartbeat_message topic a b i t = ''topic'' @ '':'' @ topic @ '','' @ ''port_insecure'' @ '':'' @ show_nat a @ '','' @
     ''port_secure'' @ '':'' @ show_nat b @ '','' @ ''id'' @ '':'' @ show_nat i @ '','' @ ''endian'' @ '':'' @ show_nat 1 @ '','' @
     ''system_time'' @ '':'' @ show_nat t @ '','' @ ''''"
  by (simp add: heartbeat_message_def)

lemma heartbeat_search:
  assumes "\<forall>c \<in> set topic. is_word c" and "topic \<noteq> []"
  shows "search_field (''topic'' @ '':'') is_word (heartbeat_message topic a b i t) = Some topic"
    and "search_field (''port_insecure'' @ '':'') is_digit (heartbeat_message topic a b i t) = Some (show_nat a)"
    and "search_field (''port_secure'' @ '':'') is_digit (heartbeat_message topic a b i t) = Some (show_nat b)"
    and "search_field (''id'' @ '':'') is_digit (heartbeat_message topic a b i t) = Some (show_nat i)"
    and "search_field (''endian'' @ '':'') is_digit (heartbeat_message topic a b i t) = Some (show_nat 1)"
    and "search_field (''system_time'' @ '':'') is_digit (heartbeat_message topic a b i t) = Some (show_nat t)"
proof -
  note finds = search_finds [OF show_nat_digits show_nat_nonempty]
  have d: "\<not> is_digit (CHR '','')" "\<not> is_word (CHR '','')" by (simp_all add: is_digit_def is_word_def)
  note past = search_past_field
  have topic: "plain topic" using assms(1) by (rule plain_word)
  show "search_field (''topic'' @ '':'') is_word (heartbeat_message topic a b i t) = Some topic"
    unfolding heartbeat_fields by (rule search_finds [OF assms d(2)])
  show "search_field (''port_insecure'' @ '':'') is_digit (heartbeat_message topic a b i t) = Some (show_nat a)"
    unfolding heartbeat_fields
    by (subst past, simp, simp, simp, simp add: suffix_def, rule topic, rule finds [OF d(1)])
  show "search_field (''port_secure'' @ '':'') is_digit (heartbeat_message topic a b i t) = Some (show_nat b)"
    unfolding heartbeat_fields
    by (subst past, simp, simp, simp, simp add: suffix_to_prefix, rule topic,
        subst past, simp, simp, simp, simp add: suffix_to_prefix, rule plain_digits, rule finds [OF d(1)])
  show "search_field (''id'' @ '':'') is_digit (heartbeat_message topic a b i t) = Some (show_nat i)"
    unfolding heartbeat_fields
    by (subst past, simp, simp, simp, simp add: suffix_to_prefix, rule topic,
        (subst past, simp, simp, simp, simp add: suffix_to_prefix, rule plain_digits)+, rule finds [OF d(1)])
  show "search_field (''endian'' @ '':'') is_digit (heartbeat_message topic a b i t) = Some (show_nat 1)"
    unfolding heartbeat_fields
    by (subst past, simp, simp, simp, simp add: suffix_to_prefix, rule topic,
        (subst past, simp, simp, simp, simp add: suffix_to_prefix, rule plain_digits)+, rule finds [OF d(1)])
  show "search_field (''system_time'' @ '':'') is_digit (heartbeat_message topic a b i t) = Some (show_nat t)"
    unfolding heartbeat_fields
    by (subst past, simp, simp, simp, simp add: suffix_to_prefix, rule topic,
        (subst past, simp, simp, simp, simp add: suffix_to_prefix, rule plain_digits)+, rule finds [OF d(1)])
qed

lemma heartbeat_parsed:
  assumes "\<forall>c \<in> set topic. is_word c" and "topic \<noteq> []"
    and "a < 2 ^ 16" and "b < 2 ^ 16" and "i < 2 ^ 64" and "t < 2 ^ 64"
  shows "Parse (heartbeat_message topic a b i t) = Inr (\<lparr>ch_topic = topic, ch_port_insecure = of_nat a, ch_port_secure = of_nat b,
      ch_uniqueHandleID = of_nat i, ch_endianness = 1, ch_time = of_nat t\<rparr>, False)"
proof -
  note s = heartbeat_search [OF assms(1,2), of a b i t]
  have lt: "a < 2 ^ 64" "b < 2 ^ 64" "(1::nat) < 2 ^ 64" using assms(3,4) by simp_all
  note n = number_field_finds [OF lt(1) s(2), of "- 1"] number_field_finds [OF lt(2) s(3), of "- 1"]
    number_field_finds [OF assms(5) s(4), of 0] number_field_finds [OF lt(3) s(5), of 0]
    number_field_finds [OF assms(6) s(6), of 0]
  show ?thesis using s(1) n by (simp add: Parse_def)
qed

text \<open>
  C40. What the sender writes the receiver reads: for a topic of word characters and numbers in the range of
  their fields, parsing the heartbeat gives back exactly the topic, the two ports, the identifier and the
  time, the byte-order mark 1, and no error.
\<close>

theorem heartbeat_round_trip:
  assumes "\<forall>c \<in> set topic. is_word c" and "topic \<noteq> []"
    and "a < 2 ^ 16" and "b < 2 ^ 16" and "i < 2 ^ 64" and "t < 2 ^ 64"
  shows "\<exists>c. Parse (heartbeat_message topic a b i t) = Inr (c, False) \<and> ch_topic c = topic
     \<and> unat (ch_port_insecure c) = a \<and> unat (ch_port_secure c) = b \<and> unat (ch_uniqueHandleID c) = i
     \<and> ch_endianness c = 1 \<and> unat (ch_time c) = t"
  using heartbeat_parsed [OF assms] assms(3-6) by (simp add: unat_of_nat)

theorem heartbeat_round_trip_witness:
  "\<exists>c. Parse (heartbeat_message ''camera_1'' 8080 8443 77 1700000000000) = Inr (c, False)
     \<and> ch_topic c = ''camera_1'' \<and> unat (ch_port_secure c) = 8443"
proof -
  have "\<forall>c \<in> set ''camera_1''. is_word c" by (simp add: is_word_def is_digit_def)
  from heartbeat_round_trip [OF this, of 8080 8443 77 1700000000000] show ?thesis by force
qed

text \<open>
  What the parser makes of other messages: a port that is missing is read as 65535, a port beyond 16 bits is
  truncated, and a number beyond 64 bits throws - in the handler of a datagram that anybody can send.
\<close>

lemma parse_missing_port:
  "\<exists>c. Parse ''topic:t,'' = Inr (c, False) \<and> unat (ch_port_secure c) = 65535"
  by (simp add: unsigned_minus_1_eq_mask mask_eq_exp_minus_1 Parse_def number_field_def search_field.simps match_field_def is_word_def is_digit_def Let_def)

lemma parse_truncates_port:
  "\<exists>c. Parse ''topic:t,port_secure:65617,'' = Inr (c, False) \<and> unat (ch_port_secure c) = 81"
  by (simp add: Parse_def number_field_def search_field.simps match_field_def is_word_def is_digit_def
      stoull_def read_nat_def Let_def)

lemma parse_throws:
  "Parse ''topic:t,port_secure:99999999999999999999,'' = Inl Out_of_range"
  by (simp add: Parse_def number_field_def search_field.simps match_field_def is_word_def is_digit_def
      stoull_def read_nat_def Let_def)

section \<open>What can come out of a datagram\<close>

lemma search_field_class:
  assumes "search_field key P s = Some v"
  shows "v \<noteq> [] \<and> (\<forall>c \<in> set v. P c)"
proof -
  have m: "match_field key P r = Some w \<Longrightarrow> w \<noteq> [] \<and> (\<forall>c \<in> set w. P c)" for r w
    by (auto simp: match_field_def Let_def split: if_splits dest: set_takeWhileD)
  from assms show ?thesis
    by (induction s) (auto simp: search_field.simps split: option.splits dest!: m)
qed

text \<open>A numeric field of a datagram: the number that stands there, or what is assumed if none does.\<close>

definition field_value :: "string \<Rightarrow> int \<Rightarrow> string \<Rightarrow> int" where
  "field_value key missing s = (case search_field key is_digit s of None \<Rightarrow> missing | Some v \<Rightarrow> int (read_nat v))"

lemma number_field_cases:
  "number_field key missing s =
     (if (\<exists>v. search_field key is_digit s = Some v \<and> 2 ^ 64 \<le> read_nat v) then Inl Out_of_range else Inr (field_value key missing s))"
  by (auto simp: number_field_def field_value_def stoull_def split: option.splits)

definition numeric_keys :: "string list" where
  "numeric_keys = [''port_insecure:'', ''port_secure:'', ''id:'', ''endian:'', ''system_time:'']"

text \<open>
  C28. Whatever datagram arrives, parsing it gives well-formed characteristics: the topic consists of letters, digits and underscores,
  and is empty exactly when the parser reports an error; every number is the one in the datagram, cut to the
  width of its type, or the value for a missing one; and the parser throws exactly when one of the numbers does not fit into 64 bits.
\<close>

theorem parse_well_formed:
  "case Parse s of
     Inl e \<Rightarrow> e = Out_of_range \<and> (\<exists>key \<in> set numeric_keys. \<exists>v. search_field key is_digit s = Some v \<and> 2 ^ 64 \<le> read_nat v)
   | Inr (c, bad) \<Rightarrow>
       (\<forall>key \<in> set numeric_keys. \<forall>v. search_field key is_digit s = Some v \<longrightarrow> read_nat v < 2 ^ 64)
       \<and> (bad \<longleftrightarrow> ch_topic c = []) \<and> (\<forall>x \<in> set (ch_topic c). is_word x)
       \<and> uint (ch_port_insecure c) = field_value ''port_insecure:'' (- 1) s mod 2 ^ 16
       \<and> uint (ch_port_secure c) = field_value ''port_secure:'' (- 1) s mod 2 ^ 16
       \<and> uint (ch_uniqueHandleID c) = field_value ''id:'' 0 s
       \<and> uint (ch_endianness c) = field_value ''endian:'' 0 s mod 2 ^ 16
       \<and> uint (ch_time c) = field_value ''system_time:'' 0 s"
proof -
  define big where "big key \<longleftrightarrow> (\<exists>v. search_field key is_digit s = Some v \<and> 2 ^ 64 \<le> read_nat v)" for key
  have nf: "number_field key m s = (if big key then Inl Out_of_range else Inr (field_value key m s))" for key m
    by (simp add: number_field_cases big_def)
  show ?thesis
  proof (cases "\<exists>key \<in> set numeric_keys. big key")
    case True
    then have "Parse s = Inl Out_of_range" by (auto simp: Parse_def nf numeric_keys_def Let_def)
    with True show ?thesis by (auto simp: big_def)
  next
    case False
    then have small: "\<forall>key \<in> set numeric_keys. \<forall>v. search_field key is_digit s = Some v \<longrightarrow> read_nat v < 2 ^ 64"
      by (auto simp: big_def not_le)
    have fit: "field_value key 0 s mod 2 ^ 64 = field_value key 0 s" if "key \<in> set numeric_keys" for key
      using small that by (intro mod_pos_pos_trivial) (auto simp: field_value_def split: option.splits)
    let ?t = "search_field ''topic:'' is_word s"
    have top: "?t = None \<longleftrightarrow> (case ?t of None \<Rightarrow> [] | Some t \<Rightarrow> t) = []"
      "\<forall>x \<in> set (case ?t of None \<Rightarrow> [] | Some t \<Rightarrow> t). is_word x"
      using search_field_class [of "''topic:''" is_word s] by (cases ?t; auto)+
    have "\<not> big key" if "key \<in> set numeric_keys" for key using False that by blast
    then have "Parse s = Inr (\<lparr>ch_topic = (case ?t of None \<Rightarrow> [] | Some t \<Rightarrow> t),
        ch_port_insecure = of_int (field_value ''port_insecure:'' (- 1) s), ch_port_secure = of_int (field_value ''port_secure:'' (- 1) s),
        ch_uniqueHandleID = of_int (field_value ''id:'' 0 s), ch_endianness = of_int (field_value ''endian:'' 0 s),
        ch_time = of_int (field_value ''system_time:'' 0 s)\<rparr>, ?t = None)"
      by (simp add: Parse_def nf numeric_keys_def Let_def)
    then show ?thesis
      using small top fit [of "''id:''"] fit [of "''system_time:''"]
      by (simp add: numeric_keys_def uint_word_of_int)
  qed
qed

lemma parse_well_formed_witness:
  "\<exists>c. Parse ''topic:t,port_secure:65617,'' = Inr (c, False) \<and> ch_topic c \<noteq> [] \<and> (\<forall>x \<in> set (ch_topic c). is_word x)
     \<and> uint (ch_port_secure c) = 81"
proof -
  let ?s = "''topic:t,port_secure:65617,''"
  obtain c where c: "Parse ?s = Inr (c, False)" using parse_truncates_port by blast
  have "field_value ''port_secure:'' (- 1) ?s = 65617"
    by (simp add: field_value_def search_field.simps match_field_def is_digit_def read_nat_def Let_def)
  with parse_well_formed [of ?s, unfolded c] c show ?thesis by simp
qed

end
