(* ===== verification/Ws_Connect.thy ===== *)
theory Ws_Connect
  imports Ws_Session Topic_Message
begin

text \<open>
  \<^verbatim>\<open>Networking/src/websocket_session.cpp\<close> and \<^verbatim>\<open>.hpp\<close>: how a WebSocket session comes to
  be. A client resolves the name of the server, connects, does a TLS handshake when it is an
  \<open>ssl_websocket_session\<close>, does the WebSocket handshake and then reads; a session of a server accepts
  the handshake and then reads. Each handler starts the next operation.
\<close>

section \<open>The handlers\<close>

text \<open>
  What a session is made with: whether it is a TLS session, the address and port of the server, the timeouts that
  Beast suggests for the role, and the settings and the message limit of the shared state.
\<close>

record ws_config =
  is_ssl :: bool
  serverAddress :: string
  serverPort :: nat
  suggested :: timeout_params
  state_timeouts :: "timeout_settings option"
  message_max :: nat

text \<open>\<open>Deadline None\<close> is \<open>expires_never\<close>; \<open>Set_decorator\<close> adds the string to Beast's version in a header of the handshake; a TLS handshake is started with the name sent to the server.\<close>

datatype connect_effect =
    Deadline "int option"
  | Async_resolve string string
  | Async_connect
  | Async_tls_handshake string
  | Set_timeouts timeout_params
  | Set_decorator string
  | Async_ws_handshake string string
  | Async_ws_accept
  | Of_session effect

definition RunClient :: "ws_config \<Rightarrow> connect_effect list" where
  "RunClient K = [Async_resolve (serverAddress K) (show_nat (serverPort K))]"

definition ws_on_resolve :: "error_code \<Rightarrow> ws_session \<Rightarrow> connect_effect list" where
  "ws_on_resolve ec s =
     (if ec \<noteq> Success then map Of_session (ws_on_error ec s) else [Deadline (Some 30), Async_connect])"

text \<open>\<open>port\<close> is the port of the endpoint that was connected to.\<close>

definition plain_on_connect :: "ws_config \<Rightarrow> error_code \<Rightarrow> nat \<Rightarrow> ws_session \<Rightarrow> connect_effect list" where
  "plain_on_connect K ec port s =
     (if ec \<noteq> Success then map Of_session (ws_on_error ec s)
      else [Deadline None, Set_timeouts (get_timeout_settings_for_client (suggested K) (state_timeouts K)),
            Set_decorator '' websocket-client-async'', Async_ws_handshake (serverAddress K @ '':'' @ show_nat port) ''/''])"

text \<open>\<open>sni_ok\<close>: setting the name that the handshake sends to the server succeeds.\<close>

definition ssl_on_connect :: "ws_config \<Rightarrow> bool \<Rightarrow> error_code \<Rightarrow> nat \<Rightarrow> connect_effect list" where
  "ssl_on_connect K sni_ok ec port =
     (if ec \<noteq> Success then []
      else let host = serverAddress K @ '':'' @ show_nat port
           in Deadline (Some 30) # (if sni_ok then [Async_tls_handshake host] else []))"

definition on_ssl_handshake :: "ws_config \<Rightarrow> error_code \<Rightarrow> ws_session \<Rightarrow> connect_effect list" where
  "on_ssl_handshake K ec s =
     (if ec \<noteq> Success then map Of_session (ws_on_error ec s)
      else [Deadline None, Set_timeouts (get_timeout_settings_for_client (suggested K) (state_timeouts K)),
            Set_decorator '' websocket-client-async'', Async_ws_handshake (serverAddress K @ '':'' @ show_nat (serverPort K)) ''/''])"

definition runServer :: "ws_config \<Rightarrow> connect_effect list" where
  "runServer K =
     [Set_timeouts (get_timeout_settings_for_server (suggested K) (state_timeouts K)),
      Set_decorator '' websocket-chat-multi'', Async_ws_accept, Of_session Set_binary]"

section \<open>A connection and its steps\<close>

text \<open>
  The operations of the chain; \<open>started\<close> lists those a handler started. A connection is the session, the operation
  that is outstanding, what the handlers did, and the error with which the chain ended, if it has.
\<close>

datatype operation = Resolve | Connect | Tls_handshake | Ws_handshake | Ws_accept | Read

fun operation_of :: "connect_effect \<Rightarrow> operation list" where
  "operation_of (Async_resolve a p) = [Resolve]"
| "operation_of Async_connect = [Connect]"
| "operation_of (Async_tls_handshake h) = [Tls_handshake]"
| "operation_of (Async_ws_handshake h p) = [Ws_handshake]"
| "operation_of Async_ws_accept = [Ws_accept]"
| "operation_of (Of_session Async_read) = [Read]"
| "operation_of _ = []"

definition operations :: "connect_effect list \<Rightarrow> operation list" where
  "operations es = concat (map operation_of es)"

record ws_connection =
  wc_session :: ws_session
  wc_pending :: "operation option"
  wc_log :: "connect_effect list"
  wc_error :: "error_code option"

definition first_op :: "operation list \<Rightarrow> operation option" where
  "first_op ops = (case ops of [] \<Rightarrow> None | x # _ \<Rightarrow> Some x)"

definition react :: "error_code \<Rightarrow> ws_session \<Rightarrow> connect_effect list \<Rightarrow> ws_connection \<Rightarrow> ws_connection" where
  "react ec s es c =
     c\<lparr>wc_session := s, wc_pending := first_op (operations es), wc_log := wc_log c @ es,
       wc_error := (if operations es = [] then Some ec else None)\<rparr>"

text \<open>A session is made for a client (and \<open>RunClient\<close> called) or for a server (\<open>runServer\<close>).\<close>

datatype role = Client | Server

definition conn_start :: "role \<Rightarrow> ws_config \<Rightarrow> ws_session \<Rightarrow> ws_connection" where
  "conn_start r K s =
     (let es = (case r of Client \<Rightarrow> RunClient K | Server \<Rightarrow> runServer K)
      in \<lparr>wc_session = s, wc_pending = first_op (operations es), wc_log = es, wc_error = None\<rparr>)"

text \<open>The operation that is outstanding completes with any result, and its handler runs.\<close>

inductive conn_step :: "ws_config \<Rightarrow> ws_connection \<Rightarrow> ws_connection \<Rightarrow> bool" for K where
  resolved: "wc_pending c = Some Resolve \<Longrightarrow> s = wc_session c \<Longrightarrow>
      conn_step K c (react ec s (ws_on_resolve ec s) c)"
| connected: "wc_pending c = Some Connect \<Longrightarrow> s = wc_session c \<Longrightarrow> \<not> is_ssl K \<Longrightarrow>
      conn_step K c (react ec s (plain_on_connect K ec port s) c)"
| connected_ssl: "wc_pending c = Some Connect \<Longrightarrow> is_ssl K \<Longrightarrow>
      conn_step K c (react ec (wc_session c) (ssl_on_connect K sni_ok ec port) c)"
| secured: "wc_pending c = Some Tls_handshake \<Longrightarrow> s = wc_session c \<Longrightarrow>
      conn_step K c (react ec s (on_ssl_handshake K ec s) c)"
| shaken: "wc_pending c = Some Ws_handshake \<Longrightarrow> ws_on_handshake (message_max K) ec (wc_session c) = (s, es) \<Longrightarrow>
      conn_step K c (react ec s (map Of_session es) c)"
| accepted: "wc_pending c = Some Ws_accept \<Longrightarrow> ws_on_accept ec (wc_session c) = (s, es) \<Longrightarrow>
      conn_step K c (react ec s (map Of_session es) c)"
| message_read: "wc_pending c = Some Read \<Longrightarrow> s = wc_session c \<Longrightarrow>
      conn_step K c (react ec s (map Of_session (ws_on_read ec n s)) c)"

text \<open>Everything the environment can do from a starting connection.\<close>

inductive conn_reachable :: "ws_config \<Rightarrow> ws_connection \<Rightarrow> ws_connection \<Rightarrow> bool" for K c0 where
  start: "conn_reachable K c0 c0"
| step: "conn_reachable K c0 c \<Longrightarrow> conn_step K c c' \<Longrightarrow> conn_reachable K c0 c'"

section \<open>The order of the chain\<close>

text \<open>
  What the operations should be: the set-up of the role, each operation once, and then reads. \<open>path S op k\<close> are
  the operations started when \<open>op\<close> is the last of them.
\<close>

fun setup_ops :: "role \<Rightarrow> ws_config \<Rightarrow> operation list" where
  "setup_ops Client K = [Resolve, Connect] @ (if is_ssl K then [Tls_handshake] else []) @ [Ws_handshake]"
| "setup_ops Server K = [Ws_accept]"

definition path :: "operation list \<Rightarrow> operation \<Rightarrow> nat \<Rightarrow> operation list" where
  "path S op k = (if op = Read then S @ replicate (Suc k) Read else takeWhile (\<lambda>x. x \<noteq> op) S @ [op])"

fun report_of :: "connect_effect \<Rightarrow> error_code list" where
  "report_of (Of_session (Report ec)) = [ec]"
| "report_of _ = []"

definition reports :: "connect_effect list \<Rightarrow> error_code list" where
  "reports es = concat (map report_of es)"

definition upgrades :: "connect_effect list \<Rightarrow> nat" where
  "upgrades es = count_list es (Of_session Upgrade)"

text \<open>Errors the user is not told: an abort, a close by the peer, and a TLS client that could not connect.\<close>

definition untold :: "ws_config \<Rightarrow> operation \<Rightarrow> error_code \<Rightarrow> bool" where
  "untold K op ec \<longleftrightarrow> ec = Operation_aborted \<or> ec = Ws_closed \<or> is_ssl K \<and> op = Connect"

definition conn_ok :: "role \<Rightarrow> ws_config \<Rightarrow> bool \<Rightarrow> ws_connection \<Rightarrow> bool" where
  "conn_ok r K st c \<longleftrightarrow>
     (\<exists>op k. (op = Read \<or> op \<in> set (setup_ops r K)) \<and> operations (wc_log c) = path (setup_ops r K) op k
        \<and> has_state (wc_session c) = st
        \<and> ws_upgraded (wc_session c) = (st \<and> op = Read)
        \<and> upgrades (wc_log c) = (if st \<and> op = Read then 1 else 0)
        \<and> (case wc_error c of
              None \<Rightarrow> wc_pending c = Some op \<and> reports (wc_log c) = []
            | Some ec \<Rightarrow> wc_pending c = None
                \<and> reports (wc_log c) = (if st \<and> \<not> untold K op ec then [ec] else [])))"

text \<open>What the handler of \<open>op\<close> must do: start the operation that follows and register when it is the first read, or end.\<close>

fun follows :: "ws_config \<Rightarrow> operation \<Rightarrow> operation" where
  "follows K Resolve = Connect"
| "follows K Connect = (if is_ssl K then Tls_handshake else Ws_handshake)"
| "follows K Tls_handshake = Ws_handshake"
| "follows K _ = Read"

definition handler_ok ::
  "ws_config \<Rightarrow> operation \<Rightarrow> error_code \<Rightarrow> ws_session \<Rightarrow> ws_session \<Rightarrow> connect_effect list \<Rightarrow> bool" where
  "handler_ok K op ec s s' es \<longleftrightarrow> has_state s' = has_state s \<and>
     (operations es = [follows K op] \<and> reports es = []
        \<and> ws_upgraded s' = (ws_upgraded s \<or> has_state s \<and> op \<noteq> Read \<and> follows K op = Read)
        \<and> upgrades es = (if \<not> ws_upgraded s \<and> ws_upgraded s' then 1 else 0)
      \<or> operations es = [] \<and> ws_upgraded s' = ws_upgraded s \<and> upgrades es = 0
        \<and> reports es = (if has_state s \<and> \<not> untold K op ec then [ec] else []))"

lemmas log_defs = operations_def reports_def upgrades_def

lemma log_append [simp]:
  "operations (es @ fs) = operations es @ operations fs" "reports (es @ fs) = reports es @ reports fs"
  "upgrades (es @ fs) = upgrades es + upgrades fs"
  by (simp_all add: log_defs)

lemma on_error_logs:
  "operations (map Of_session (ws_on_error ec s)) = []" "upgrades (map Of_session (ws_on_error ec s)) = 0"
  "reports (map Of_session (ws_on_error ec s)) =
     (if has_state s \<and> ec \<noteq> Operation_aborted \<and> ec \<noteq> Ws_closed then [ec] else [])"
  by (auto simp: ws_on_error_def log_defs)


lemma conn_step_handler:
  assumes "conn_step K c c'"
  obtains op ec s' es where "wc_pending c = Some op" "c' = react ec s' es c"
    "handler_ok K op ec (wc_session c) s' es"
  using assms
proof (cases rule: conn_step.cases)
  case (resolved s ec)
  then show ?thesis
    by (intro that [of Resolve ec s "ws_on_resolve ec s"])
      (auto simp: handler_ok_def ws_on_resolve_def on_error_logs untold_def, simp_all add: log_defs)
next
  case (connected s ec port)
  then show ?thesis
    by (intro that [of Connect ec s "plain_on_connect K ec port s"])
      (auto simp: handler_ok_def plain_on_connect_def on_error_logs untold_def, simp_all add: log_defs)
next
  case (connected_ssl ec sni_ok port)
  then show ?thesis
    by (intro that [of Connect ec "wc_session c" "ssl_on_connect K sni_ok ec port"])
      (auto simp: handler_ok_def ssl_on_connect_def Let_def untold_def log_defs)
next
  case (secured s ec)
  then show ?thesis
    by (intro that [of Tls_handshake ec s "on_ssl_handshake K ec s"])
      (auto simp: handler_ok_def on_ssl_handshake_def on_error_logs untold_def, simp_all add: log_defs)
next
  case (shaken ec s es)
  then show ?thesis
    by (intro that [of Ws_handshake ec s "map Of_session es"])
      (auto simp: handler_ok_def ws_on_handshake_def ws_upgrade_def on_error_logs untold_def split: if_splits, simp_all add: log_defs)
next
  case (accepted ec s es)
  then show ?thesis
    by (intro that [of Ws_accept ec s "map Of_session es"])
      (auto simp: handler_ok_def ws_on_accept_def ws_upgrade_def on_error_logs untold_def split: if_splits, simp_all add: log_defs)
next
  case (message_read s ec n)
  then show ?thesis
    by (intro that [of Read ec s "map Of_session (ws_on_read ec n s)"])
      (auto simp: handler_ok_def ws_on_read_def on_error_logs untold_def, simp_all add: log_defs)
qed

text \<open>The chain goes on along the set-up.\<close>

lemma path_follows:
  assumes "op = Read \<or> op \<in> set (setup_ops r K)"
  shows "follows K op = Read \<or> follows K op \<in> set (setup_ops r K)"
    and "\<exists>k'. path (setup_ops r K) op k @ [follows K op] = path (setup_ops r K) (follows K op) k'"
proof -
  show "follows K op = Read \<or> follows K op \<in> set (setup_ops r K)"
    using assms by (cases r; cases op) (auto split: if_splits)
  have "path (setup_ops r K) op k @ [follows K op]
      = path (setup_ops r K) (follows K op) (if op = Read then Suc k else 0)"
    using assms by (cases r; cases op) (auto simp: path_def replicate_append_same split: if_splits)
  then show "\<exists>k'. path (setup_ops r K) op k @ [follows K op] = path (setup_ops r K) (follows K op) k'" by blast
qed

lemma conn_step_ok:
  assumes "conn_ok r K st c" "conn_step K c c'"
  shows "conn_ok r K st c'"
proof -
  from assms(2) obtain op ec s' es where h: "wc_pending c = Some op" "c' = react ec s' es c"
    "handler_ok K op ec (wc_session c) s' es" by (rule conn_step_handler)
  from assms(1) h(1) obtain k where c: "op = Read \<or> op \<in> set (setup_ops r K)"
    "operations (wc_log c) = path (setup_ops r K) op k" "has_state (wc_session c) = st"
    "ws_upgraded (wc_session c) = (st \<and> op = Read)" "upgrades (wc_log c) = (if st \<and> op = Read then 1 else 0)"
    "reports (wc_log c) = []"
    unfolding conn_ok_def by (auto split: option.splits)
  from path_follows(1) [OF c(1)] path_follows(2) [OF c(1), of k] obtain k' where f: "follows K op = Read \<or> follows K op \<in> set (setup_ops r K)"
    "path (setup_ops r K) op k @ [follows K op] = path (setup_ops r K) (follows K op) k'" by blast
  have frame: "wc_log c' = wc_log c @ es" "wc_session c' = s'" "wc_pending c' = first_op (operations es)"
    "wc_error c' = (if operations es = [] then Some ec else None)"
    by (simp_all add: h(2) react_def)
  show ?thesis
  proof (cases "operations es = []")
    case True
    then show ?thesis using c h(3) unfolding conn_ok_def handler_ok_def frame
      by (intro exI [of _ op] exI [of _ k]) (auto simp: first_op_def)
  next
    case False
    then have op: "operations es = [follows K op]" "reports es = []"
      "ws_upgraded s' = (ws_upgraded (wc_session c) \<or> st \<and> op \<noteq> Read \<and> follows K op = Read)"
      "upgrades es = (if \<not> ws_upgraded (wc_session c) \<and> ws_upgraded s' then 1 else 0)" "has_state s' = st"
      using h(3) c(3) by (auto simp: handler_ok_def)
    have "op = Read \<Longrightarrow> follows K op = Read" by simp
    then show ?thesis using c op f unfolding conn_ok_def frame
      by (intro exI [of _ "follows K op"] exI [of _ k']) (auto simp: first_op_def)
  qed
qed

lemma conn_start_ok:
  assumes "\<not> ws_upgraded s"
  shows "conn_ok r K (has_state s) (conn_start r K s)"
proof (cases r)
  case Client
  then show ?thesis using assms unfolding conn_ok_def
    by (intro exI [of _ Resolve] exI [of _ 0])
      (simp add: conn_start_def RunClient_def log_defs path_def first_op_def)
next
  case Server
  then show ?thesis using assms unfolding conn_ok_def
    by (intro exI [of _ Ws_accept] exI [of _ 0])
      (simp add: conn_start_def runServer_def log_defs path_def first_op_def)
qed

lemma conn_reachable_ok: "conn_reachable K c0 c \<Longrightarrow> conn_ok r K st c0 \<Longrightarrow> conn_ok r K st c"
  by (induction rule: conn_reachable.induct) (auto intro: conn_step_ok)

lemma path_prefix:
  assumes "op = Read \<or> op \<in> set S" "Read \<notin> set S"
  shows "\<exists>k. prefix (path S op k0) (S @ replicate k Read)" "Read \<in> set (path S op k0) \<longleftrightarrow> op = Read"
    "last (path S op k0) = op"
proof -
  show "\<exists>k. prefix (path S op k0) (S @ replicate k Read)"
  proof (cases "op = Read")
    case False
    then have "S = takeWhile (\<lambda>x. x \<noteq> op) S @ op # tl (dropWhile (\<lambda>x. x \<noteq> op) S)"
      using assms by (induction S) auto
    then have "prefix (path S op k0) S" using False unfolding path_def prefix_def by (metis append.assoc append_Cons append_Nil)
    then show ?thesis by (intro exI [of _ 0]) simp
  qed (auto simp: path_def intro: exI [of _ "Suc k0"])
  show "Read \<in> set (path S op k0) \<longleftrightarrow> op = Read" using assms(2) by (auto simp: path_def dest: set_takeWhileD)
  show "last (path S op k0) = op" by (simp add: path_def)
qed

lemma new_session_fresh:
  "\<not> ws_upgraded (fst (ws_session_new now st))" "has_state (fst (ws_session_new now st)) = (st \<noteq> None)"
  by (simp_all add: ws_session_new_def Let_def split: option.splits prod.splits)

lemma set_up_in_order:
  assumes "conn_reachable K (conn_start r K (fst (ws_session_new now st))) c"
  shows "(\<exists>k. prefix (operations (wc_log c)) (setup_ops r K @ replicate k Read))
    \<and> upgrades (wc_log c) = (if st \<noteq> None \<and> Read \<in> set (operations (wc_log c)) then 1 else 0)
    \<and> (case wc_error c of
         None \<Rightarrow> wc_pending c = Some (last (operations (wc_log c))) \<and> reports (wc_log c) = []
       | Some ec \<Rightarrow> wc_pending c = None
           \<and> reports (wc_log c) = (if st \<noteq> None \<and> \<not> untold K (last (operations (wc_log c))) ec then [ec] else []))"
proof -
  have R: "Read \<notin> set (setup_ops r K)" by (cases r) auto
  have "conn_ok r K (st \<noteq> None) c"
    using conn_reachable_ok [OF assms] conn_start_ok [OF new_session_fresh(1)] by (simp add: new_session_fresh(2))
  then obtain op k where c: "op = Read \<or> op \<in> set (setup_ops r K)" "operations (wc_log c) = path (setup_ops r K) op k"
    "upgrades (wc_log c) = (if st \<noteq> None \<and> op = Read then 1 else 0)"
    "case wc_error c of
       None \<Rightarrow> wc_pending c = Some op \<and> reports (wc_log c) = []
     | Some ec \<Rightarrow> wc_pending c = None
         \<and> reports (wc_log c) = (if (st \<noteq> None) \<and> \<not> untold K op ec then [ec] else [])"
    unfolding conn_ok_def by blast
  show ?thesis unfolding c(2) path_prefix(2,3) [OF c(1) R] using c(3,4) path_prefix(1) [OF c(1) R] by blast
qed

text \<open>
  C23. How a WebSocket session is set up. Whatever the results of its operations, a session of a client
  resolves, connects, does the TLS handshake when it is a TLS session, does the WebSocket handshake and then reads;
  a session of a server accepts and then reads: what it has started is a prefix of that, and the last operation
  is the only one outstanding. It is registered with the shared state exactly once, when it starts to read, so never
  before its handshakes have succeeded. When an operation fails the chain ends, and the user is told the
  error exactly once - except that an abort or a close is not reported, nor that a TLS client could not connect.
\<close>

theorem ws_set_up_in_order:
  assumes "conn_reachable K (conn_start r K (fst (ws_session_new now st))) c"
  shows "(\<exists>k. prefix (operations (wc_log c)) (setup_ops r K @ replicate k Read))
    \<and> upgrades (wc_log c) = (if st \<noteq> None \<and> Read \<in> set (operations (wc_log c)) then 1 else 0)
    \<and> (case wc_error c of
         None \<Rightarrow> wc_pending c = Some (last (operations (wc_log c))) \<and> reports (wc_log c) = []
       | Some ec \<Rightarrow> wc_pending c = None
           \<and> reports (wc_log c) = (if st \<noteq> None \<and> \<not> untold K (last (operations (wc_log c))) ec then [ec] else []))"
  by (rule set_up_in_order [OF assms])

definition example_config :: ws_config where
  "example_config =
     \<lparr>is_ssl = True, serverAddress = ''cam'', serverPort = 443,
      suggested = \<lparr>handshake_timeout = Some 30, idle_timeout = None, keep_alive_pings = False\<rparr>,
      state_timeouts = None, message_max = 0\<rparr>"

definition example_start :: ws_connection where
  "example_start = conn_start Client example_config (fst (ws_session_new 0 (Some (None, default_args))))"

lemma example_pending:
  "wc_pending example_start = Some Resolve" "operations (wc_log example_start) = [Resolve]" "is_ssl example_config"
  by (simp_all add: example_start_def conn_start_def RunClient_def log_defs first_op_def example_config_def)

lemma react_pending [simp]:
  "wc_pending (react ec s es c) = first_op (operations es)" "wc_log (react ec s es c) = wc_log c @ es"
  "wc_session (react ec s es c) = s" "wc_error (react ec s es c) = (if operations es = [] then Some ec else None)"
  by (simp_all add: react_def)

lemma handler_operations:
  "operations (ws_on_resolve Success s) = [Connect]"
  "operations (ssl_on_connect K True Success port) = [Tls_handshake]"
  "operations (on_ssl_handshake K Success s) = [Ws_handshake]"
  by (simp_all add: ws_on_resolve_def ssl_on_connect_def on_ssl_handshake_def log_defs)

theorem ws_set_up_in_order_witness:
  "\<exists>c. conn_reachable example_config example_start c
     \<and> operations (wc_log c) = [Resolve, Connect, Tls_handshake, Ws_handshake, Read] \<and> upgrades (wc_log c) = 1
     \<and> wc_pending c = Some Read"
proof -
  let ?K = example_config
  let ?s = "\<lambda>c. wc_session c"
  define c1 where "c1 = react Success (?s example_start) (ws_on_resolve Success (?s example_start)) example_start"
  define c2 where "c2 = react Success (?s c1) (ssl_on_connect ?K True Success 443) c1"
  define c3 where "c3 = react Success (?s c2) (on_ssl_handshake ?K Success (?s c2)) c2"
  obtain s es where h: "ws_on_handshake (message_max ?K) Success (?s c3) = (s, es)" by fastforce
  define c4 where "c4 = react Success s (map Of_session es) c3"
  have es: "operations (map Of_session es) = [Read]"
    using h by (auto simp: ws_on_handshake_def ws_upgrade_def log_defs Let_def split: if_splits)
  have ops: "operations (wc_log c4) = [Resolve, Connect, Tls_handshake, Ws_handshake, Read]"
    by (simp add: c1_def c2_def c3_def c4_def handler_operations es example_pending)
  have p: "wc_pending c1 = Some Connect" "wc_pending c2 = Some Tls_handshake" "wc_pending c3 = Some Ws_handshake"
    "wc_pending c4 = Some Read"
    by (simp_all add: c1_def c2_def c3_def c4_def handler_operations es first_op_def)
  have "conn_step ?K example_start c1" unfolding c1_def by (rule conn_step.resolved [OF example_pending(1) refl])
  moreover have "conn_step ?K c1 c2" unfolding c2_def by (rule conn_step.connected_ssl [OF p(1) example_pending(3)])
  moreover have "conn_step ?K c2 c3" unfolding c3_def by (rule conn_step.secured [OF p(2) refl])
  moreover have "conn_step ?K c3 c4" unfolding c4_def by (rule conn_step.shaken [OF p(3) h])
  ultimately have r: "conn_reachable ?K example_start c4" by (meson conn_reachable.intros)
  from ws_set_up_in_order [OF r [unfolded example_start_def]] ops r p(4) show ?thesis by auto
qed

text \<open>A TLS client whose connection is refused ends without a word to the user.\<close>

lemma ssl_connect_failure_untold:
  "\<exists>c. conn_reachable example_config example_start c \<and> wc_error c = Some (Other_error 111) \<and> wc_pending c = None
     \<and> reports (wc_log c) = []"
proof -
  let ?s = "wc_session example_start"
  define c1 where "c1 = react Success ?s (ws_on_resolve Success ?s) example_start"
  define c2 where "c2 = react (Other_error 111) (wc_session c1) (ssl_on_connect example_config True (Other_error 111) 443) c1"
  have p: "wc_pending c1 = Some Connect" by (simp add: c1_def handler_operations first_op_def)
  have "conn_step example_config example_start c1" unfolding c1_def by (rule conn_step.resolved) (simp_all add: example_pending)
  moreover have "conn_step example_config c1 c2"
    unfolding c2_def by (rule conn_step.connected_ssl [OF p example_pending(3)])
  ultimately have r: "conn_reachable example_config example_start c2" by (meson conn_reachable.intros)
  have "reports (wc_log c2) = []"
    by (simp add: c1_def c2_def ssl_on_connect_def ws_on_resolve_def example_start_def conn_start_def RunClient_def log_defs)
  with r show ?thesis by (intro exI [of _ c2]) (simp add: c2_def ssl_on_connect_def log_defs first_op_def)
qed

end
