(* ===== verification/Server_Connections.thy ===== *)
theory Server_Connections
  imports Http_Session Ws_Session
begin

text \<open>
  A server as a whole: \<^verbatim>\<open>Networking/src/listener.cpp\<close>, and the sessions it makes of its connections.
  The listener accepts a connection; a \<open>detect_session\<close> finds out whether the client speaks TLS; an HTTP
  session serves requests, until one of them asks for a WebSocket, for which a WebSocket session takes the
  connection over. The sessions are those of \<open>Http_Session\<close> and \<open>Ws_Session\<close>, their register
  that of \<open>Shared_State\<close>. The server speaks HTTP (not raw TCP) here.
\<close>

section \<open>The listener\<close>

text \<open>The constructor gives up at the first error. Without a \<open>localEndpoint\<close> the member keeps its default.\<close>

record listener =
  localEndpoint :: "nat option"
  listening :: bool

definition listener_new ::
  "error_code \<Rightarrow> error_code \<Rightarrow> error_code \<Rightarrow> error_code \<Rightarrow> nat \<Rightarrow> listener" where
  "listener_new ec_open ec_option ec_bind ec_listen bound =
     (if ec_open \<noteq> Success \<or> ec_option \<noteq> Success \<or> ec_bind \<noteq> Success
      then \<lparr>localEndpoint = None, listening = False\<rparr>
      else \<lparr>localEndpoint = Some bound, listening = (ec_listen = Success)\<rparr>)"

datatype accept_effect = Async_accept | Sleep_ms nat | Run_detect

definition do_accept :: "accept_effect list" where
  "do_accept = [Async_accept]"

definition on_accept :: "error_code \<Rightarrow> accept_effect list" where
  "on_accept ec = (if ec \<noteq> Success then [Sleep_ms 1000] else [Run_detect]) @ do_accept"

section \<open>The server and its events\<close>

text \<open>
  Where a session is: the detector waits for the client, a TLS session shakes hands, an HTTP session (TLS or not) has
  a read outstanding or not, a WebSocket session accepts, or has been accepted (or refused) and has a read outstanding
  or not. A session that waits for nothing goes away some time: its pending writes may keep it. A TLS session whose
  handshake failed has none, so that it goes away at once.
\<close>

datatype stage =
    Detecting
  | Tls_shaking
  | Http_at bool http_session bool
  | Ws_accepting bool ws_session
  | Ws_at bool ws_session bool

record server =
  srv_state :: shared_state
  srv_accepts :: nat
  srv_stage :: "nat \<Rightarrow> stage option"
  srv_next :: nat

record 'e server_config =
  sc_security :: security
  sc_view :: "kind \<Rightarrow> nat \<Rightarrow> 'e session_view"
  sc_upgrade :: "request \<Rightarrow> bool"
  sc_close :: "response \<Rightarrow> bool"
  sc_files :: "string \<Rightarrow> opened"
  sc_rates :: "tracker option \<times> args"

definition server_start :: "shared_state \<Rightarrow> server" where
  "server_start st =
     \<lparr>srv_state = st, srv_accepts = count_list do_accept Async_accept, srv_stage = (\<lambda>_. None), srv_next = 0\<rparr>"

definition move_to :: "nat \<Rightarrow> stage option \<Rightarrow> server \<Rightarrow> server" where
  "move_to p x y = y\<lparr>srv_stage := (srv_stage y)(p := x)\<rparr>"

definition set_state :: "shared_state \<Rightarrow> server \<Rightarrow> server" where
  "set_state st y = y\<lparr>srv_state := st\<rparr>"

text \<open>
  What \<open>detect_session\<close> launches. \<open>peer\<close>: the client is still connected, which the constructors rely on.
\<close>

fun launch_session :: "'e server_config \<Rightarrow> nat \<Rightarrow> bool \<Rightarrow> launch list \<Rightarrow> server \<Rightarrow> server result" where
  "launch_session C p peer [] y = Inr (move_to p None y)"
| "launch_session C p peer (Detect_ssl # _) y = Inr (move_to p (Some Detecting) y)"
| "launch_session C p peer (Launch_ssl # _) y =
     (case ssl_http_session_new peer of
        Inl e \<Rightarrow> Inl e
      | Inr s \<Rightarrow> Inr (if Tls_handshake_server \<in> set ssl_run then move_to p (Some Tls_shaking) y else move_to p None y))"
| "launch_session C p peer (Launch_plain # _) y =
     (case plain_http_session_new peer of
        Inl e \<Rightarrow> Inl e
      | Inr s0 \<Rightarrow>
          (case plain_run (sc_view C) p None (srv_state y) s0 of
             (st, s, _, es) \<Rightarrow> Inr (move_to p (Some (Http_at False s (Read_request \<in> set es))) (set_state st y))))"

fun makes_websocket :: "http_effect \<Rightarrow> bool" where
  "makes_websocket (Make_websocket r) = True"
| "makes_websocket _ = False"

datatype event =
    Accept_done error_code bool
  | Detected nat error_code bool bool
  | Tls_done nat error_code
  | Request nat error_code request rat
  | Response_written nat error_code
  | Http_gone nat
  | Ws_accepted nat error_code
  | Ws_message nat error_code nat
  | Ws_gone nat tracker

text \<open>An event that does not fit the stage of its session does not happen.\<close>

fun server_step :: "'e server_config \<Rightarrow> event \<Rightarrow> server \<Rightarrow> server result" where
  "server_step C (Accept_done ec peer) y =
     (if srv_accepts y = 0 then Inr y
      else let es = on_accept ec;
               y = y\<lparr>srv_accepts := srv_accepts y - 1 + count_list es Async_accept\<rparr>
           in if Run_detect \<notin> set es then Inr y
              else let p = srv_next y
                   in launch_session C p peer (detect_on_run (sc_security C)) (y\<lparr>srv_next := p + 1\<rparr>))"
| "server_step C (Detected p ec ssl peer) y =
     (if srv_stage y p = Some Detecting then launch_session C p peer (on_detect ec ssl) y else Inr y)"
| "server_step C (Tls_done p ec) y =
     (if srv_stage y p = Some Tls_shaking
      then (case ssl_on_handshake (sc_view C) p None ec (srv_state y) (http_session_new True) of
              (st, s, _, es) \<Rightarrow>
                Inr (if Read_request \<in> set es then move_to p (Some (Http_at True s True)) (set_state st y)
                     else move_to p None (set_state (fst (ssl_destroy (sc_view C) p st)) y)))
      else Inr y)"
| "server_step C (Request p ec req now) y =
     (case srv_stage y p of
        Some (Http_at tls s True) \<Rightarrow>
          (case hs_on_read None (sc_upgrade C) (doc_root (srv_state y)) (sc_files C) ec req s of
             Inl e \<Rightarrow> Inl e
           | Inr (s', es) \<Rightarrow>
               let y = move_to p (Some (Http_at tls s' (Read_request \<in> set es))) y;
                   q = srv_next y
               in Inr (if list_ex makes_websocket es
                       then move_to q (Some (Ws_accepting tls (fst (ws_session_new now (Some (sc_rates C))))))
                              (y\<lparr>srv_next := q + 1\<rparr>)
                       else y))
      | _ \<Rightarrow> Inr y)"
| "server_step C (Response_written p ec) y =
     (case srv_stage y p of
        Some (Http_at tls s reading) \<Rightarrow>
          (if hs_responses s = [] then Inr y
           else case hs_on_write None (sc_close C (hd (hs_responses s))) ec s of
                  Inl e \<Rightarrow> Inl e
                | Inr (s', es) \<Rightarrow> Inr (move_to p (Some (Http_at tls s' (reading \<or> Read_request \<in> set es))) y))
      | _ \<Rightarrow> Inr y)"
| "server_step C (Http_gone p) y =
     (case srv_stage y p of
        Some (Http_at tls s False) \<Rightarrow>
          Inr (move_to p None (set_state (fst ((if tls then ssl_destroy else plain_destroy) (sc_view C) p (srv_state y))) y))
      | _ \<Rightarrow> Inr y)"
| "server_step C (Ws_accepted p ec) y =
     (case srv_stage y p of
        Some (Ws_accepting tls w) \<Rightarrow>
          (case ws_on_accept ec w of
             (w', es) \<Rightarrow>
               let st = (if Upgrade \<in> set es
                         then fst ((if tls then upgrade_wss else upgrade_ws) (sc_view C) p (srv_state y)) else srv_state y)
               in Inr (move_to p (Some (Ws_at tls w' (Async_read \<in> set es))) (set_state st y)))
      | _ \<Rightarrow> Inr y)"
| "server_step C (Ws_message p ec n) y =
     (case srv_stage y p of
        Some (Ws_at tls w True) \<Rightarrow> Inr (move_to p (Some (Ws_at tls w (Async_read \<in> set (ws_on_read ec n w)))) y)
      | _ \<Rightarrow> Inr y)"
| "server_step C (Ws_gone p T) y =
     (case srv_stage y p of
        Some (Ws_at tls w False) \<Rightarrow>
          (let st = (if Downgrade \<in> set (snd (ws_session_destroy T w))
                     then fst ((if tls then downgrade_wss else downgrade_ws) (sc_view C) p (srv_state y)) else srv_state y)
           in Inr (move_to p None (set_state st y)))
      | _ \<Rightarrow> Inr y)"

fun server_run :: "'e server_config \<Rightarrow> event list \<Rightarrow> server \<Rightarrow> server result" where
  "server_run C [] y = Inr y"
| "server_run C (e # es) y = (case server_step C e y of Inl f \<Rightarrow> Inl f | Inr y' \<Rightarrow> server_run C es y')"

section \<open>Who is registered\<close>

text \<open>The register a session belongs into at its stage, and the invariant of a server.\<close>

fun stage_kind :: "stage option \<Rightarrow> kind option" where
  "stage_kind (Some (Http_at tls s r)) = Some (if tls then Https else Http)"
| "stage_kind (Some (Ws_at tls w r)) = (if ws_upgraded w then Some (if tls then Wss else Ws) else None)"
| "stage_kind _ = None"

fun stage_ok :: "stage option \<Rightarrow> bool" where
  "stage_ok (Some (Http_at tls s r)) = hs_has_state s"
| "stage_ok (Some (Ws_accepting tls w)) = (has_state w \<and> \<not> ws_upgraded w)"
| "stage_ok (Some (Ws_at tls w r)) = has_state w"
| "stage_ok _ = True"

definition in_stage :: "server \<Rightarrow> (kind \<times> nat) set" where
  "in_stage y = {(k, p). stage_kind (srv_stage y p) = Some k}"

definition server_ok :: "string \<Rightarrow> server \<Rightarrow> bool" where
  "server_ok docs y \<longleftrightarrow> srv_accepts y = 1 \<and> registers_ok (srv_state y) \<and> doc_root (srv_state y) = docs
     \<and> registered (srv_state y) = in_stage y
     \<and> (\<forall>p. stage_ok (srv_stage y p)) \<and> (\<forall>p. srv_next y \<le> p \<longrightarrow> srv_stage y p = None)"

lemma register_ops [simp]:
  "fst (upgrade_ws view p st) = insert_session Ws p st" "fst (upgrade_wss view p st) = insert_session Wss p st"
  "fst (downgrade_ws view p st) = erase_session Ws p st" "fst (downgrade_wss view p st) = erase_session Wss p st"
  "fst (join_http view p st) = insert_session Http p st" "fst (join_https view p st) = insert_session Https p st"
  "fst (leave_http view p st) = erase_session Http p st" "fst (leave_https view p st) = erase_session Https p st"
  by (simp_all add: register_defs Let_def)

lemma doc_root_register [simp]:
  "doc_root (insert_session k p st) = doc_root st" "doc_root (erase_session k p st) = doc_root st"
  by (simp_all add: insert_session_def erase_session_def)

text \<open>
  The state of the server and the stage of one session change together: the session moves into the register of its new
  stage, and out of that of its old one.
\<close>

definition moved :: "kind option \<Rightarrow> kind option \<Rightarrow> nat \<Rightarrow> shared_state \<Rightarrow> shared_state \<Rightarrow> bool" where
  "moved k k' p st st' \<longleftrightarrow>
     k' = k \<and> st' = st \<or> k = None \<and> (\<exists>j. k' = Some j \<and> st' = insert_session j p st)
     \<or> k' = None \<and> (\<exists>j. (k = Some j \<or> k = None) \<and> st' = erase_session j p st)"

lemma server_ok_move:
  assumes "server_ok docs y" "p < srv_next y" "stage_ok x"
    and "moved (stage_kind (srv_stage y p)) (stage_kind x) p (srv_state y) st"
  shows "server_ok docs (move_to p x (set_state st y))"
proof -
  let ?y = "move_to p x (set_state st y)"
  have frame: "srv_accepts ?y = srv_accepts y" "srv_next ?y = srv_next y" "srv_state ?y = st"
    "srv_stage ?y = (srv_stage y)(p := x)"
    by (simp_all add: move_to_def set_state_def)
  have st: "registers_ok st" "doc_root st = docs" "registered st = in_stage ?y"
    using assms(1,4) by (auto simp: server_ok_def moved_def registered_enter registered_exit in_stage_def frame)
  show ?thesis using assms(1-3) st unfolding server_ok_def frame by auto
qed

lemma server_ok_new:
  assumes "server_ok docs y"
  shows "server_ok docs (y\<lparr>srv_next := srv_next y + 1\<rparr>)" "stage_kind (srv_stage y (srv_next y)) = None"
  using assms by (auto simp: server_ok_def in_stage_def)

lemma server_ok_alive: "server_ok docs y \<Longrightarrow> srv_stage y p = Some x \<Longrightarrow> p < srv_next y"
  by (metis linorder_not_less option.discI server_ok_def)

lemma server_ok_stage: "server_ok docs y \<Longrightarrow> srv_stage y p = Some x \<Longrightarrow> stage_ok (Some x)"
  by (metis server_ok_def)

lemma move_to_same: "move_to p x y = move_to p x (set_state (srv_state y) y)"
  by (simp add: set_state_def)

lemmas server_ok_stay = server_ok_move [where st = "srv_state y" and y = y for y, folded move_to_same]

lemmas [op_defs] = plain_http_session_new_def ssl_http_session_new_def ssl_run_def plain_run_def ssl_on_handshake_def plain_destroy_def ssl_destroy_def hs_do_read_def
  http_session_new_def hs_on_read_def hs_on_write_def queue_on_write_def join_http_def join_https_def
  on_accept_def do_accept_def detect_on_run_def on_detect_def
  ws_on_accept_def ws_upgrade_def ws_on_error_def ws_session_destroy_def ws_session_new_def

lemma hs_on_read_frame:
  assumes "CHR ''?'' \<notin> set docs" "hs_has_state s"
  shows "\<exists>s' es. hs_on_read None upg docs fs ec req s = Inr (s', es) \<and> hs_has_state s'"
proof -
  obtain posted opened resp where "handle_request docs fs req = Inr (posted, opened, resp)"
    using served_files_total [OF assms(1)] by blast
  then show ?thesis using assms(2)
    by (simp add: op_defs Let_def split: prod.split)
qed

lemma hs_on_write_frame:
  assumes "hs_has_state s" "hs_responses s \<noteq> []"
  shows "\<exists>s' es. hs_on_write None close ec s = Inr (s', es) \<and> hs_has_state s'"
  using assms by (auto simp: op_defs Let_def split: list.split)

text \<open>Events at which the client is still connected when a session is made for it.\<close>

fun peer_there :: "event \<Rightarrow> bool" where
  "peer_there (Accept_done ec peer) = peer"
| "peer_there (Detected p ec ssl peer) = peer"
| "peer_there _ = True"

lemma launch_ok:
  assumes "server_ok docs y" "p < srv_next y" "stage_kind (srv_stage y p) = None"
  shows "\<exists>y'. launch_session C p True ls y = Inr y' \<and> server_ok docs y'"
proof (cases "(C, p, True, ls, y)" rule: launch_session.cases)
  case (4 C' p' peer ls' y')
  obtain st s es fs where r: "plain_run (sc_view C) p None (srv_state y) (http_session_new True) = (st, s, es, fs)"
    by (cases "plain_run (sc_view C) p None (srv_state y) (http_session_new True)")
  then have "st = insert_session Http p (srv_state y)" "hs_has_state s"
    by (auto simp: op_defs Let_def split: prod.splits)
  then have "server_ok docs (move_to p (Some (Http_at False s (Read_request \<in> set fs))) (set_state st y))"
    by (intro server_ok_move [OF assms(1,2)]) (auto simp: moved_def assms(3))
  then show ?thesis using 4 r by (simp add: plain_http_session_new_def)
qed (use assms in \<open>auto intro!: server_ok_stay simp: moved_def ssl_http_session_new_def\<close>)

lemma request_ok:
  assumes "server_ok docs y" "CHR ''?'' \<notin> set docs"
  shows "\<exists>y'. server_step C (Request p ec req now) y = Inr y' \<and> server_ok docs y'"
proof (cases "\<exists>tls s. srv_stage y p = Some (Http_at tls s True)")
  case True
  then obtain tls s where x: "srv_stage y p = Some (Http_at tls s True)" by blast
  have p: "p < srv_next y" using server_ok_alive [OF assms(1) x] .
  have s: "hs_has_state s" using server_ok_stage [OF assms(1) x] by simp
  obtain s' es where r: "hs_on_read None (sc_upgrade C) docs (sc_files C) ec req s = Inr (s', es)" "hs_has_state s'"
    using hs_on_read_frame [OF assms(2) s] by blast
  let ?y = "move_to p (Some (Http_at tls s' (Read_request \<in> set es))) y"
  let ?w = "fst (ws_session_new now (Some (sc_rates C)))"
  have y: "server_ok docs ?y" by (intro server_ok_stay [OF assms(1) p]) (auto simp: moved_def x r(2))
  have "server_ok docs (move_to (srv_next ?y) (Some (Ws_accepting tls ?w)) (?y\<lparr>srv_next := srv_next ?y + 1\<rparr>))"
    using server_ok_new [OF y]
    by (intro server_ok_stay) (auto simp: moved_def op_defs Let_def split: option.splits prod.splits)
  with y show ?thesis using x r(1) assms(1) by (auto simp: Let_def server_ok_def [of docs y])
next
  case False
  then have "server_step C (Request p ec req now) y = Inr y"
    by (auto split: option.split stage.split bool.split)
  then show ?thesis using assms(1) by simp
qed

lemma written_ok:
  assumes "server_ok docs y"
  shows "\<exists>y'. server_step C (Response_written p ec) y = Inr y' \<and> server_ok docs y'"
proof (cases "\<exists>tls s r. srv_stage y p = Some (Http_at tls s r) \<and> hs_responses s \<noteq> []")
  case True
  then obtain tls s r where x: "srv_stage y p = Some (Http_at tls s r)" "hs_responses s \<noteq> []" by blast
  have p: "p < srv_next y" using server_ok_alive [OF assms x(1)] .
  have s: "hs_has_state s" using server_ok_stage [OF assms x(1)] by simp
  obtain s' es where w: "hs_on_write None (sc_close C (hd (hs_responses s))) ec s = Inr (s', es)" "hs_has_state s'"
    using hs_on_write_frame [OF s x(2)] by blast
  have "server_ok docs (move_to p (Some (Http_at tls s' (r \<or> Read_request \<in> set es))) y)"
    by (intro server_ok_stay [OF assms p]) (auto simp: moved_def x(1) w(2))
  then show ?thesis using x w(1) by simp
next
  case False
  then have "server_step C (Response_written p ec) y = Inr y" by (auto split: option.split stage.split)
  then show ?thesis using assms by simp
qed

lemma ws_accepted_ok:
  assumes "server_ok docs y"
  shows "\<exists>y'. server_step C (Ws_accepted p ec) y = Inr y' \<and> server_ok docs y'"
proof (cases "\<exists>tls w. srv_stage y p = Some (Ws_accepting tls w)")
  case True
  then obtain tls w where x: "srv_stage y p = Some (Ws_accepting tls w)" by blast
  have p: "p < srv_next y" using server_ok_alive [OF assms x] .
  have w: "has_state w" "\<not> ws_upgraded w" using server_ok_stage [OF assms x] by simp_all
  obtain w' es where a: "ws_on_accept ec w = (w', es)" by fastforce
  then have "has_state w'" "Upgrade \<in> set es \<longleftrightarrow> ws_upgraded w'"
    using w by (auto simp: op_defs split: if_splits)
  then have "server_ok docs (move_to p (Some (Ws_at tls w' (Async_read \<in> set es)))
      (set_state (if Upgrade \<in> set es then fst ((if tls then upgrade_wss else upgrade_ws) (sc_view C) p (srv_state y))
                  else srv_state y) y))"
    by (intro server_ok_move [OF assms p]) (auto simp: moved_def x)
  then show ?thesis using x a by (simp add: Let_def)
next
  case False
  then have "server_step C (Ws_accepted p ec) y = Inr y" by (auto split: option.split stage.split)
  then show ?thesis using assms by simp
qed

lemma gone_ok:
  assumes "server_ok docs y"
  shows "\<exists>y'. server_step C (Http_gone p) y = Inr y' \<and> server_ok docs y'"
    and "\<exists>y'. server_step C (Ws_gone p T) y = Inr y' \<and> server_ok docs y'"
    and "\<exists>y'. server_step C (Ws_message p ec n) y = Inr y' \<and> server_ok docs y'"
proof -
  have p: "srv_stage y p = Some x \<Longrightarrow> p < srv_next y" for x
    by (rule server_ok_alive [OF assms])
  have w: "srv_stage y p = Some (Ws_at tls w r) \<Longrightarrow> has_state w" for tls w r
    using server_ok_stage [OF assms] by fastforce
  have d: "has_state w \<Longrightarrow> Downgrade \<in> set (snd (ws_session_destroy T w)) \<longleftrightarrow> ws_upgraded w" for w
    by (auto simp: op_defs notify_def split: option.splits)
  show "\<exists>y'. server_step C (Http_gone p) y = Inr y' \<and> server_ok docs y'"
    using assms p
    by (auto simp: moved_def op_defs intro!: server_ok_move split: option.split stage.split bool.split)
  show "\<exists>y'. server_step C (Ws_gone p T) y = Inr y' \<and> server_ok docs y'"
    using assms p w
    by (auto simp: moved_def d Let_def intro!: server_ok_move split: option.split stage.split bool.split)
  show "\<exists>y'. server_step C (Ws_message p ec n) y = Inr y' \<and> server_ok docs y'"
    using assms p w
    by (auto simp: moved_def intro!: server_ok_stay split: option.split stage.split bool.split)
qed

lemma tls_done_ok:
  assumes "server_ok docs y"
  shows "\<exists>y'. server_step C (Tls_done p ec) y = Inr y' \<and> server_ok docs y'"
proof (cases "srv_stage y p = Some Tls_shaking")
  case True
  have p: "p < srv_next y" using server_ok_alive [OF assms True] .
  obtain st s es fs where h: "ssl_on_handshake (sc_view C) p None ec (srv_state y) (http_session_new True) = (st, s, es, fs)"
    by (cases "ssl_on_handshake (sc_view C) p None ec (srv_state y) (http_session_new True)")
  then have "hs_has_state s" "Read_request \<in> set fs \<longleftrightarrow> ec = Success"
    "st = (if ec = Success then insert_session Https p (srv_state y) else srv_state y)"
    by (auto simp: op_defs Let_def
        split: prod.splits if_splits)
  then have "server_ok docs (if Read_request \<in> set fs then move_to p (Some (Http_at True s True)) (set_state st y)
      else move_to p None (set_state (fst (ssl_destroy (sc_view C) p st)) y))"
    by (auto simp: moved_def True op_defs intro!: server_ok_move [OF assms p])
  then show ?thesis using True h by simp
qed (use assms in simp)

lemma connection_ok:
  assumes "server_ok docs y"
  shows "\<exists>y'. server_step C (Accept_done ec True) y = Inr y' \<and> server_ok docs y'"
    and "\<exists>y'. server_step C (Detected p ec ssl True) y = Inr y' \<and> server_ok docs y'"
proof -
  have a: "srv_accepts y = 1" using assms by (simp add: server_ok_def)
  have "server_ok docs (y\<lparr>srv_accepts := 1, srv_next := srv_next y + 1\<rparr>)"
    using server_ok_new(1) [OF assms] a by (simp add: server_ok_def in_stage_def)
  moreover have "stage_kind (srv_stage y (srv_next y)) = None" using server_ok_new(2) [OF assms] .
  ultimately have "\<exists>y'. launch_session C (srv_next y) True ls (y\<lparr>srv_accepts := 1, srv_next := srv_next y + 1\<rparr>) = Inr y'
      \<and> server_ok docs y'" for ls
    by (intro launch_ok) simp_all
  then show "\<exists>y'. server_step C (Accept_done ec True) y = Inr y' \<and> server_ok docs y'"
    using assms a by (auto simp: op_defs Let_def server_ok_def in_stage_def)
  show "\<exists>y'. server_step C (Detected p ec ssl True) y = Inr y' \<and> server_ok docs y'"
  proof (cases "srv_stage y p = Some Detecting")
    case True
    then have "p < srv_next y" using server_ok_alive [OF assms] by blast
    then show ?thesis using launch_ok [OF assms, of p C "on_detect ec ssl"] True by simp
  qed (use assms in simp)
qed

lemma server_step_ok:
  assumes "server_ok docs y" "CHR ''?'' \<notin> set docs" "peer_there e"
  shows "\<exists>y'. server_step C e y = Inr y' \<and> server_ok docs y'"
  using assms(3) connection_ok [OF assms(1)] tls_done_ok [OF assms(1)] request_ok [OF assms(1,2)] written_ok [OF assms(1)]
    gone_ok [OF assms(1)] ws_accepted_ok [OF assms(1)]
  by (cases e) (simp_all del: server_step.simps)

lemma server_run_ok:
  assumes "server_ok docs y" "CHR ''?'' \<notin> set docs" "\<forall>e \<in> set es. peer_there e"
  shows "\<exists>y'. server_run C es y = Inr y' \<and> server_ok docs y'"
  using assms
proof (induction es arbitrary: y)
  case (Cons e es)
  obtain y1 where "server_step C e y = Inr y1" "server_ok docs y1"
    using server_step_ok [of docs y e C] Cons.prems by auto
  then show ?case using Cons.IH [of y1] Cons.prems by simp
qed simp

lemma server_start_ok: "server_ok docs (server_start (shared_state_new docs cbs tcp header))"
  by (simp add: server_ok_def server_start_def shared_state_new_def registers_ok_def registered_def in_stage_def op_defs)


definition example_server :: "unit server_config" where
  "example_server =
     \<lparr>sc_security = Both, sc_view = (\<lambda>k p. \<lparr>sv_endpoint = (), sv_owned = True, sv_queue_size = 0\<rparr>),
      sc_upgrade = (\<lambda>r. rq_target r = ''/ws''), sc_close = (\<lambda>r. \<not> rs_keep_alive r), sc_files = (\<lambda>_. Opened 7),
      sc_rates = (None, default_args)\<rparr>"

text \<open>A TLS client asks for a page and then for a WebSocket.\<close>

definition example_events :: "event list" where
  "example_events =
     [Accept_done Success True, Detected 0 Success True True, Tls_done 0 Success,
      Request 0 Success (example_request Get ''/a'') 0, Request 0 Success (example_request Get ''/ws'') 0,
      Ws_accepted 1 Success]"

lemmas example_simps = op_defs example_server_def example_events_def server_start_def move_to_def set_state_def
  handle_request_def illegal_target_def request_path_def path_cat_def queue_push_def is_full_def queue_limit_def
  example_request_def shared_state_new_def Let_def

lemma example_server_run:
  "\<exists>y. server_run example_server example_events (server_start (shared_state_new ''srv'' (\<lambda>_. False) False 0)) = Inr y
     \<and> stage_kind (srv_stage y 0) = Some Https \<and> stage_kind (srv_stage y 1) = Some Wss"
  by (simp add: example_simps)


text \<open>
  A client that resets its connection right after it was accepted ends the server: the exception of \<open>remote_endpoint\<close> leaves
  the handler, and with it the thread that runs the handlers.
\<close>

lemma reset_connection_fatal:
  assumes "sc_security C = Insecure \<or> sc_security C = Secure"
  shows "server_run C [Accept_done Success False] (server_start st) = Inl System_error"
  using assms by (auto simp: server_start_def op_defs)

end
