(* ===== verification/Rate_Sharing.thy ===== *)
theory Rate_Sharing
  imports Ws_Session
begin

text \<open>
  The WebSocket sessions of one server together with the \<open>RateTracker\<close> they share
  (\<^verbatim>\<open>Networking/src/websocket_session.cpp\<close> on \<^verbatim>\<open>rate_limiter.cpp\<close>): each session registers an enforcer
  when it is made, reports what it would like to send with every message, asks before every write, and
  gives its slot back when it is destroyed.
\<close>

section \<open>Sessions with one tracker\<close>

text \<open>\<open>ss_log\<close>: the messages of which a write was started, with the time; \<open>ss_made\<close>: when the session was made.\<close>

record shared_session =
  ss_run :: "ws_session run"
  ss_made :: rat
  ss_log :: "(rat \<times> item) list"

record sharing =
  sh_tracker :: tracker
  sh_sessions :: "shared_session list"

definition share_start :: "rat \<Rightarrow> sharing" where
  "share_start mx = \<lparr>sh_tracker = RateTracker_new_max mx, sh_sessions = []\<rparr>"

text \<open>
  A session is made; a message is submitted to a session, with a maximal length of its queue; the operation a session has
  under way completes; a session is destroyed. The times are those of the steady clock.
\<close>

datatype share_event =
    Come rat
  | Submitted rat nat item nat
  | Written rat nat error_code nat
  | Gone rat nat

fun ev_time :: "share_event \<Rightarrow> rat" where
  "ev_time (Come now) = now"
| "ev_time (Submitted now i it mx) = now"
| "ev_time (Written now i ec n) = now"
| "ev_time (Gone now i) = now"

definition log_start :: "rat \<Rightarrow> bool \<Rightarrow> ws_session run \<Rightarrow> (rat \<times> item) list \<Rightarrow> (rat \<times> item) list" where
  "log_start now fresh y lg =
     (if fresh \<and> (case r_pending y of Async_write p n # _ \<Rightarrow> True | _ \<Rightarrow> False)
      then lg @ [(now, hd (ws_queue (r_state y)))] else lg)"

definition share_submit ::
  "rat \<Rightarrow> item \<Rightarrow> nat \<Rightarrow> tracker \<Rightarrow> shared_session \<Rightarrow> (tracker \<times> shared_session) result" where
  "share_submit now it m T s =
     (case ws_on_send now it m T (r_state (ss_run s)) of
        Inl e \<Rightarrow> Inl e
      | Inr (T', _, _) \<Rightarrow>
          (case io_step ws_queue ws_submit ws_complete (Submit (now, T) it m) (ss_run s) of
             Inl e \<Rightarrow> Inl e
           | Inr y \<Rightarrow> Inr (T', s\<lparr>ss_run := y, ss_log := log_start now (ws_queue (r_state (ss_run s)) = []) y (ss_log s)\<rparr>)))"

definition share_written ::
  "rat \<Rightarrow> error_code \<Rightarrow> nat \<Rightarrow> tracker \<Rightarrow> shared_session \<Rightarrow> shared_session result" where
  "share_written now ec n T s =
     (case io_step ws_queue ws_submit ws_complete (Finish (now, T) ec n) (ss_run s) of
        Inl e \<Rightarrow> Inl e
      | Inr y \<Rightarrow> Inr (s\<lparr>ss_run := y, ss_log := log_start now (r_pending (ss_run s) \<noteq> []) y (ss_log s)\<rparr>))"

fun share_step :: "args \<Rightarrow> share_event \<Rightarrow> sharing \<Rightarrow> sharing result" where
  "share_step a (Come now) y =
     (case ws_session_new now (Some (Some (sh_tracker y), a)) of
        (s, None) \<Rightarrow> Inr y
      | (s, Some T) \<Rightarrow>
          Inr \<lparr>sh_tracker = T, sh_sessions = sh_sessions y @ [\<lparr>ss_run = run_start s, ss_made = now, ss_log = []\<rparr>]\<rparr>)"
| "share_step a (Submitted now i it m) y =
     (if i < length (sh_sessions y)
      then (case share_submit now it m (sh_tracker y) (sh_sessions y ! i) of
              Inl e \<Rightarrow> Inl e
            | Inr (T, s) \<Rightarrow> Inr \<lparr>sh_tracker = T, sh_sessions = (sh_sessions y)[i := s]\<rparr>)
      else Inr y)"
| "share_step a (Written now i ec n) y =
     (if i < length (sh_sessions y)
      then (case share_written now ec n (sh_tracker y) (sh_sessions y ! i) of
              Inl e \<Rightarrow> Inl e
            | Inr s \<Rightarrow> Inr (y\<lparr>sh_sessions := (sh_sessions y)[i := s]\<rparr>))
      else Inr y)"
| "share_step a (Gone now i) y =
     (if i < length (sh_sessions y)
      then Inr \<lparr>sh_tracker = fst (ws_session_destroy (sh_tracker y) (r_state (ss_run (sh_sessions y ! i)))),
                sh_sessions = drop_nth i (sh_sessions y)\<rparr>
      else Inr y)"

fun share_run :: "args \<Rightarrow> share_event list \<Rightarrow> sharing \<Rightarrow> sharing result" where
  "share_run a [] y = Inr y"
| "share_run a (e # es) y = (case share_step a e y of Inl f \<Rightarrow> Inl f | Inr y' \<Rightarrow> share_run a es y')"

text \<open>No session goes before one that came after it: with \<open>n\<close> sessions only the newest goes.\<close>

fun newest_first :: "nat \<Rightarrow> share_event list \<Rightarrow> bool" where
  "newest_first n [] \<longleftrightarrow> True"
| "newest_first n (Come now # es) \<longleftrightarrow> newest_first (Suc n) es"
| "newest_first n (Gone now i # es) \<longleftrightarrow> n \<le> Suc i \<and> newest_first (if i < n then n - 1 else n) es"
| "newest_first n (e # es) \<longleftrightarrow> newest_first n es"

section \<open>The invariant\<close>

text \<open>The bytes of the messages written that did not have to be sent.\<close>

definition unforced_bytes :: "(rat \<times> item) list \<Rightarrow> nat" where
  "unforced_bytes lg = (\<Sum>(t, it) \<leftarrow> lg. if it_force it then 0 else unat (it_size it))"

lemma unforced_bytes_simps [simp]:
  "unforced_bytes [] = 0"
  "unforced_bytes (lg @ [(t, it)]) = unforced_bytes lg + (if it_force it then 0 else unat (it_size it))"
  by (simp_all add: unforced_bytes_def)

definition asked :: "ws_session run \<Rightarrow> nat" where
  "asked y = length (r_done y) + (if ws_queue (r_state y) = [] then 0 else 1)"

text \<open>The enforcer of a session, as long as its slot is its own.\<close>

definition enforcer_ok :: "args \<Rightarrow> rat \<Rightarrow> nat \<Rightarrow> enforcer \<Rightarrow> bool" where
  "enforcer_ok a mx i e \<longleftrightarrow>
     e_id e = i \<and> has_tracker e \<and> e_args e = a \<and> of_nat (allowed_rate e) \<le> mx \<and> 0 \<le> actual_rate e"

definition spent_ok :: "args \<Rightarrow> rat \<Rightarrow> rat \<Rightarrow> nat \<Rightarrow> nat \<Rightarrow> enforcer \<Rightarrow> bool" where
  "spent_ok a mx made bytes k e \<longleftrightarrow>
     alpha a * of_nat bytes \<le> mx * (actual_timer e - made + of_nat k * epsilon)"

definition session_ok :: "args \<Rightarrow> rat \<Rightarrow> rat \<Rightarrow> nat \<Rightarrow> shared_session \<Rightarrow> bool" where
  "session_ok a mx now i s \<longleftrightarrow>
     run_ok ws_queue (ss_run s) \<and> enforcer_ok a mx i (ws_enforcer (r_state (ss_run s)))
     \<and> actual_timer (ws_enforcer (r_state (ss_run s))) \<le> now
     \<and> spent_ok a mx (ss_made s) (unforced_bytes (ss_log s)) (asked (ss_run s)) (ws_enforcer (r_state (ss_run s)))"

definition share_ok :: "args \<Rightarrow> rat \<Rightarrow> rat \<Rightarrow> sharing \<Rightarrow> bool" where
  "share_ok a mx now y \<longleftrightarrow>
     max_byterate (sh_tracker y) = mx \<and> length (true_rates (sh_tracker y)) = length (sh_sessions y)
     \<and> (\<forall>i < length (sh_sessions y). session_ok a mx now i (sh_sessions y ! i))"

lemma total_rate_of_nat: "total_rate T = of_nat (sum_list (true_rates T))"
proof -
  have "(\<Sum>r \<leftarrow> rs. of_nat r :: rat) = of_nat (sum_list rs)" for rs by (induction rs) simp_all
  then show ?thesis by (simp add: total_rate_def)
qed

text \<open>What reporting a rate gives: an allowance below the maximum, as long as the slot exists.\<close>

lemma allowable_effect:
  assumes "update_and_get_allowable r i T = Inr (b, T')" and i: "i < length (true_rates T)" and mx: "0 \<le> max_byterate T"
  shows "T' = T\<lparr>true_rates := (true_rates T)[i := r]\<rparr> \<and> of_nat b \<le> share T' r \<and> of_nat r \<le> total_rate T' \<and> 0 < total_rate T'"
proof -
  let ?T = "T\<lparr>true_rates := (true_rates T)[i := r]\<rparr>"
  have u: "total_rate ?T \<noteq> 0" "to_size_t (share ?T r) = Inr b" "T' = ?T"
    using assms(1) i by (auto simp: update_and_get_allowable_def share_def Let_def split: if_splits sum.splits)
  have tot: "total_rate ?T = of_nat (sum_list (true_rates ?T))" by (rule total_rate_of_nat)
  have "r \<le> sum_list (true_rates ?T)" using elem_le_sum_list [of i "true_rates ?T"] i by simp
  then have t: "0 < total_rate ?T" "of_nat r \<le> total_rate ?T"
    using u(1) unfolding tot by (simp_all only: of_nat_0_less_iff of_nat_le_iff of_nat_eq_0_iff neq0_conv)
  have "of_nat b \<le> share ?T r"
    using u(2) share_nonneg [OF t(1), of r] mx by (auto simp: to_size_t_def split: if_splits)
  with t u(3) show ?thesis by simp
qed

lemma allowable_le_max:
  assumes "update_and_get_allowable r i T = Inr (b, T')" and "i < length (true_rates T)" and mx: "0 \<le> max_byterate T"
  shows "of_nat b \<le> max_byterate T" and "T' = T\<lparr>true_rates := (true_rates T)[i := r]\<rparr>"
proof -
  note e = allowable_effect [OF assms]
  then show T': "T' = T\<lparr>true_rates := (true_rates T)[i := r]\<rparr>" by blast
  have "share T' r \<le> 1 * max_byterate T'"
    unfolding share_def using e mx T' by (intro mult_mono) simp_all
  with e T' show "of_nat b \<le> max_byterate T" by simp
qed

lemma allowable_le_wish:
  assumes "update_and_get_allowable r i T = Inr (b, T')" and "i < length (true_rates T)" and "0 \<le> max_byterate T"
  shows "b \<le> r"
  using allowable_effect [OF assms] share_le [of T' r] by (metis of_nat_le_iff order_trans)

section \<open>What one handler does\<close>

lemma ws_start_spent:
  assumes run: "ws_start now it s = (s', e)" and ok: "enforcer_ok a mx i (ws_enforcer s)"
    and a: "limitable a" "0 < alpha a" "alpha a \<le> 1" and mx: "0 \<le> mx" and t: "actual_timer (ws_enforcer s) \<le> now"
    and spent: "spent_ok a mx made b k (ws_enforcer s)"
  shows "enforcer_ok a mx i (ws_enforcer s') \<and> actual_timer (ws_enforcer s') \<le> now
     \<and> spent_ok a mx made (b + (if e = Post_aborted \<or> it_force it then 0 else unat (it_size it))) (Suc k) (ws_enforcer s')"
proof -
  let ?e = "ws_enforcer s" and ?n = "unat (it_size it)"
  obtain may en where sh: "should_send now ?n ?e = (may, en)" by fastforce
  have s': "ws_enforcer s' = en" and e: "\<not> may \<Longrightarrow> e = Post_aborted \<or> it_force it"
    using run sh by (auto simp: ws_start_def split: if_splits)
  note frame = should_send_frame [OF sh]
  have o: "e_args ?e = a" "has_tracker ?e" "of_nat (allowed_rate ?e) \<le> mx" "0 \<le> actual_rate ?e" "e_id ?e = i"
    using ok by (simp_all add: enforcer_ok_def)
  have sp: "alpha a * of_nat b \<le> mx * (actual_timer ?e - made + of_nat k * epsilon)"
    using spent by (simp add: spent_ok_def)
  show ?thesis
  proof (cases may)
    case True
    have sh': "should_send now ?n ?e = (True, en)" using sh True by simp
    have al: "limitable (e_args ?e)" "0 < alpha (e_args ?e)" "alpha (e_args ?e) \<le> 1" using a o(1) by simp_all
    note acc = should_send_accepted [OF sh' o(2) al(1) o(4) al(2,3) t, unfolded o(1)]
    have d: "0 \<le> now - actual_timer ?e + epsilon" using t epsilon_pos by simp
    have "of_nat (allowed_rate ?e) * (now - actual_timer ?e + epsilon) \<le> mx * (now - actual_timer ?e + epsilon)"
      using o(3) d by (rule mult_right_mono)
    then have n: "alpha a * of_nat ?n \<le> mx * (now - actual_timer ?e + epsilon)" using acc(1) by linarith
    have z: "0 \<le> mx * (now - actual_timer ?e + epsilon)" using mx d by simp
    have "alpha a * of_nat (b + (if e = Post_aborted \<or> it_force it then 0 else ?n))
        \<le> mx * (actual_timer ?e - made + of_nat k * epsilon) + mx * (now - actual_timer ?e + epsilon)"
      using sp n z by (simp add: distrib_left)
    also have "\<dots> = mx * (now - made + of_nat (Suc k) * epsilon)" by (simp add: algebra_simps)
    finally show ?thesis
      using o acc frame by (simp add: s' enforcer_ok_def spent_ok_def)
  next
    case False
    have sh': "should_send now ?n ?e = (False, en)" using sh False by simp
    note ref = should_send_refused [OF sh' o(4)]
    have "mx * (actual_timer ?e - made + of_nat k * epsilon) \<le> mx * (actual_timer ?e - made + of_nat (Suc k) * epsilon)"
      using mx epsilon_pos by (intro mult_left_mono) (simp_all add: algebra_simps)
    then have "alpha a * of_nat b \<le> mx * (actual_timer ?e - made + of_nat (Suc k) * epsilon)" using sp by (rule order_trans [rotated])
    then show ?thesis
      using o ref frame e [OF False] t by (simp add: s' enforcer_ok_def spent_ok_def)
  qed
qed

lemma update_rate_effect:
  assumes run: "update_hypothetical_rate now n T e = Inr (e', T')" and ok: "enforcer_ok a mx i e"
    and i: "i < length (true_rates T)" and mx: "max_byterate T = mx" "0 \<le> mx"
  shows "enforcer_ok a mx i e' \<and> actual_timer e' = actual_timer e
     \<and> max_byterate T' = mx \<and> length (true_rates T') = length (true_rates T)"
proof -
  have o: "has_tracker e" "e_id e = i" using ok by (simp_all add: enforcer_ok_def)
  obtain r b where u: "update_and_get_allowable r i T = Inr (b, T')" and e': "allowed_rate e' = b" "actual_timer e' = actual_timer e"
    "e_id e' = e_id e" "has_tracker e' = has_tracker e" "e_args e' = e_args e" "actual_rate e' = actual_rate e"
    using run o by (auto simp: update_hypothetical_rate_def Let_def split: sum.splits prod.splits)
  from allowable_le_max [OF u i] mx e' ok show ?thesis by (simp add: enforcer_ok_def)
qed

lemma log_start_fresh:
  assumes "ws_queue (r_state y) = it # q" and "r_pending y = [e]" and "start_for it e"
  shows "unforced_bytes (log_start now True y lg)
     = unforced_bytes lg + (if e = Post_aborted \<or> it_force it then 0 else unat (it_size it))"
  using assms by (auto simp: log_start_def start_for_def)

lemma spent_mono:
  "spent_ok a mx made b k e \<Longrightarrow> actual_timer e' = actual_timer e \<Longrightarrow> spent_ok a mx made b k e'"
  by (simp add: spent_ok_def)

lemma pending_of_queue:
  assumes "run_ok ws_queue y"
  shows "ws_queue (r_state y) = [] \<Longrightarrow> r_pending y = []"
    and "ws_queue (r_state y) = it # q \<Longrightarrow> \<exists>st. r_pending y = [st] \<and> start_for it st"
  using assms by (simp_all add: run_ok_def pending_ok_def)

section \<open>Every step of a session keeps it\<close>

lemma share_submit_ok:
  assumes ok: "session_ok a mx t i s" and T: "max_byterate T = mx" "i < length (true_rates T)"
    and a: "limitable a" "0 < alpha a" "alpha a \<le> 1" and mx: "0 \<le> mx" and t: "t \<le> now"
    and run: "share_submit now it m T s = Inr (T', s')"
  shows "session_ok a mx now i s' \<and> max_byterate T' = mx \<and> length (true_rates T') = length (true_rates T)"
proof -
  let ?y = "ss_run s" and ?w = "r_state (ss_run s)"
  obtain w es y where send: "ws_on_send now it m T ?w = Inr (T', w, es)"
    and y: "io_step ws_queue ws_submit ws_complete (Submit (now, T) it m) ?y = Inr y"
    and s': "s' = s\<lparr>ss_run := y, ss_log := log_start now (ws_queue ?w = []) y (ss_log s)\<rparr>"
    using run by (auto simp: share_submit_def split: sum.splits prod.splits)
  have r: "run_ok ws_queue ?y" "enforcer_ok a mx i (ws_enforcer ?w)" "actual_timer (ws_enforcer ?w) \<le> t"
    "spent_ok a mx (ss_made s) (unforced_bytes (ss_log s)) (asked ?y) (ws_enforcer ?w)"
    using ok by (simp_all add: session_ok_def)
  have y': "r_state y = w" "r_pending y = r_pending ?y @ starts es" "r_done y = r_done ?y"
    using y send by (auto simp: ws_submit_def)
  obtain en where u: "update_hypothetical_rate now (unat (it_size it)) T (ws_enforcer ?w) = Inr (en, T')"
    using send by (auto simp: ws_on_send_def Let_def split: sum.splits prod.splits if_splits)
  note up = update_rate_effect [OF u r(2) T(2,1) mx]
  obtain q es0 where tr: "trim (max m 2) 2 (ws_queue ?w) = (q, es0)" by fastforce
  have q: "q = [] \<longleftrightarrow> ws_queue ?w = []" using trim_nil [of "max m 2" "ws_queue ?w"] tr by simp
  let ?w' = "?w\<lparr>ws_enforcer := en, ws_queue := q @ [it], ws_queue_size := length (q @ [it])\<rparr>"
  have "session_ok a mx now i s'"
  proof (cases "ws_queue ?w = []")
    case True
    then have [simp]: "q = []" using q by simp
    obtain w1 e where st: "ws_start now it ?w' = (w1, e)" by fastforce
    have w: "w = w1" "es = es0 @ [e]" using send u tr st by (simp_all add: ws_on_send_def Let_def)
    have es0: "starts es0 = []" using trim_starts [of "max m 2" 2 "ws_queue ?w"] tr by simp
    have "is_start e" using start_for_is_start [of it e] ws_start_for [OF st] by blast
    then have pend: "r_pending y = [e]" using y'(2) w(2) es0 pending_of_queue(1) [OF r(1) True] by simp
    have wq: "ws_queue w = [it]" using ws_start_for [OF st] w(1) by simp
    have en: "enforcer_ok a mx i (ws_enforcer ?w')" "actual_timer (ws_enforcer ?w') \<le> now"
      "spent_ok a mx (ss_made s) (unforced_bytes (ss_log s)) (asked ?y) (ws_enforcer ?w')"
      using up r(3) t spent_mono [OF r(4)] by simp_all
    note fin = ws_start_spent [OF st en(1) a mx en(2,3)]
    have "asked y = Suc (asked ?y)" using True wq by (simp add: asked_def y')
    then show ?thesis
      using fin wsq.submit_run_ok [OF r(1) y] log_start_fresh [of y it "[]" e now "ss_log s"] pend wq ws_start_for [OF st] True
      by (simp add: session_ok_def s' y' w(1))
  next
    case False
    then have "1 < length (q @ [it])" using q by (cases q) simp_all
    then have w: "w = ?w'" "es = es0" using send u tr by (auto simp: ws_on_send_def Let_def split: if_splits)
    have "asked y = asked ?y" using False by (simp add: asked_def y' w)
    then show ?thesis
      using up r(3) t spent_mono [OF r(4)] wsq.submit_run_ok [OF r(1) y] False
      by (simp add: session_ok_def s' y' w log_start_def)
  qed
  with up show ?thesis by simp
qed

lemma share_written_ok:
  assumes ok: "session_ok a mx t i s"
    and a: "limitable a" "0 < alpha a" "alpha a \<le> 1" and mx: "0 \<le> mx" and t: "t \<le> now"
  shows "\<exists>s'. share_written now ec n T s = Inr s' \<and> session_ok a mx now i s'"
proof -
  let ?y = "ss_run s" and ?w = "r_state (ss_run s)"
  have r: "run_ok ws_queue ?y" "enforcer_ok a mx i (ws_enforcer ?w)" "actual_timer (ws_enforcer ?w) \<le> t"
    "spent_ok a mx (ss_made s) (unforced_bytes (ss_log s)) (asked ?y) (ws_enforcer ?w)"
    using ok by (simp_all add: session_ok_def)
  obtain y where y: "io_step ws_queue ws_submit ws_complete (Finish (now, T) ec n) ?y = Inr y" "run_ok ws_queue y"
    "ws_queue (r_state y) = drop 1 (ws_queue ?w)"
    using wsq.finish_run_ok [OF r(1)] by blast
  let ?s = "s\<lparr>ss_run := y, ss_log := log_start now (r_pending ?y \<noteq> []) y (ss_log s)\<rparr>"
  have "session_ok a mx now i ?s"
  proof (cases "ws_queue ?w")
    case Nil
    then have "r_pending ?y = []" by (rule pending_of_queue(1) [OF r(1)])
    then have "y = ?y" using y(1) by simp
    then show ?thesis using r t \<open>r_pending ?y = []\<close> by (simp add: session_ok_def log_start_def)
  next
    case (Cons it q)
    then obtain st where st: "r_pending ?y = [st]" using pending_of_queue(2) [OF r(1)] by blast
    let ?ec = "if st = Post_aborted then Operation_aborted else ec" and ?n = "if st = Post_aborted then 0 else n"
    obtain w es where c: "ws_on_write now ?ec ?n ?w = Inr (w, es)" and
      y': "r_state y = w" "r_pending y = starts es" "r_done y = r_done ?y @ [it]"
      using y(1) st Cons by (auto simp: ws_complete_def split: sum.splits)
    have sp: "spent_ok a mx (ss_made s) (unforced_bytes (ss_log s)) (Suc k) e"
      if "spent_ok a mx (ss_made s) (unforced_bytes (ss_log s)) k e" for k e
    proof -
      have "mx * (actual_timer e - ss_made s + of_nat k * epsilon) \<le> mx * (actual_timer e - ss_made s + of_nat (Suc k) * epsilon)"
        using mx epsilon_pos by (intro mult_left_mono) (simp_all add: algebra_simps)
      then show ?thesis using that by (simp add: spent_ok_def)
    qed
    show ?thesis
    proof (cases q)
      case Nil
      then have w: "ws_enforcer w = ws_enforcer ?w" "ws_queue w = []" using c Cons by (auto simp: ws_on_write_def Let_def)
      then have "r_pending y = []" using pending_of_queue(1) [OF y(2)] y'(1) by simp
      moreover have "asked y = asked ?y" using Cons by (simp add: asked_def y' w)
      ultimately show ?thesis using r y(2) t by (simp add: session_ok_def y' w log_start_def)
    next
      case (Cons nx rest)
      let ?w' = "?w\<lparr>ws_queue := q, ws_queue_size := length q\<rparr>"
      obtain w1 e where sn: "ws_start now nx ?w' = (w1, e)" by fastforce
      have w: "w = w1" using c Cons \<open>ws_queue ?w = it # q\<close> sn by (auto simp: ws_on_write_def Let_def)
      have wq: "ws_queue w = nx # rest" using ws_start_for [OF sn] w Cons by simp
      have "\<exists>es'. es = es' @ [e] \<and> starts es' = []"
        using c Cons \<open>ws_queue ?w = it # q\<close> sn by (auto simp: ws_on_write_def Let_def)
      then have pend: "r_pending y = [e]" using y'(2) start_for_is_start [of nx e] ws_start_for [OF sn] by auto
      have en: "enforcer_ok a mx i (ws_enforcer ?w')" "actual_timer (ws_enforcer ?w') \<le> now"
        "spent_ok a mx (ss_made s) (unforced_bytes (ss_log s)) (asked ?y) (ws_enforcer ?w')"
        using r t by simp_all
      note fin = ws_start_spent [OF sn en(1) a mx en(2,3)]
      have "asked y = Suc (asked ?y)" using \<open>ws_queue ?w = it # q\<close> wq by (simp add: asked_def y')
      then show ?thesis
        using fin y(2) log_start_fresh [of y nx rest e now "ss_log s"] pend wq ws_start_for [OF sn] st
        by (simp add: session_ok_def y' w)
    qed
  qed
  then show ?thesis using y(1) by (simp add: share_written_def)
qed

lemma session_ok_later: "session_ok a mx t i s \<Longrightarrow> t \<le> now \<Longrightarrow> session_ok a mx now i s"
  by (auto simp: session_ok_def)

lemma share_step_ok:
  assumes ok: "share_ok a mx t y" and a: "limitable a" "0 < alpha a" "alpha a \<le> 1" and mx: "0 \<le> mx"
    and t: "t \<le> ev_time e" and new: "newest_first (length (sh_sessions y)) (e # es)"
  shows "case share_step a e y of Inl f \<Rightarrow> f = Bad_cast
     | Inr y' \<Rightarrow> share_ok a mx (ev_time e) y' \<and> newest_first (length (sh_sessions y')) es"
proof -
  let ?T = "sh_tracker y" and ?ss = "sh_sessions y"
  have T: "max_byterate ?T = mx" "length (true_rates ?T) = length ?ss"
    and s: "i < length ?ss \<Longrightarrow> session_ok a mx t i (?ss ! i)" for i
    using ok by (simp_all add: share_ok_def)
  have later: "i < length ?ss \<Longrightarrow> session_ok a mx (ev_time e) i (?ss ! i)" for i
    using s session_ok_later t by blast
  show ?thesis
  proof (cases e)
    case (Come now)
    have "session_ok a mx now (length ?ss) \<lparr>ss_run = run_start \<lparr>ws_queue = [], ws_queue_size = 0,
        ws_enforcer = RateEnforcer_new a (length (true_rates ?T)) now, ws_upgraded = False, has_state = True\<rparr>,
        ss_made = now, ss_log = []\<rparr>"
      using T mx by (simp add: session_ok_def run_start_def run_ok_def pending_ok_def enforcer_ok_def spent_ok_def
          RateEnforcer_new_def asked_def)
    then show ?thesis
      using T later new by (simp add: Come share_ok_def ws_session_new_def make_enforcer_def nth_append less_Suc_eq Let_def)
  next
    case (Submitted now i it m)
    show ?thesis
    proof (cases "i < length ?ss")
      case True
      show ?thesis
      proof (cases "share_submit now it m ?T (?ss ! i)")
        case (Inl f)
        have "f = Bad_cast"
          using Inl wsq.submit_fails [of "(now, ?T)" it m "r_state (ss_run (?ss ! i))" f]
          by (auto simp: share_submit_def ws_submit_def split: sum.splits prod.splits)
        then show ?thesis using True Inl by (simp add: Submitted)
      next
        case (Inr r)
        obtain T' s' where r: "r = (T', s')" by fastforce
        have "t \<le> now" using t by (simp add: Submitted)
        from share_submit_ok [OF s [OF True] T(1) _ a mx this Inr [unfolded r]] True T
        have "session_ok a mx now i s'" "max_byterate T' = mx" "length (true_rates T') = length ?ss" by simp_all
        then show ?thesis using True Inr r T later new by (simp add: Submitted share_ok_def nth_list_update)
      qed
    next
      case False
      then show ?thesis using T later new by (simp add: Submitted share_ok_def)
    qed
  next
    case (Written now i ec n)
    show ?thesis
    proof (cases "i < length ?ss")
      case True
      have "t \<le> now" using t by (simp add: Written)
      from share_written_ok [OF s [OF True] a mx this, of ec n ?T] obtain s' where
        "share_written now ec n ?T (?ss ! i) = Inr s'" "session_ok a mx now i s'" by blast
      then show ?thesis using True T later new by (simp add: Written share_ok_def nth_list_update)
    next
      case False
      then show ?thesis using T later new by (simp add: Written share_ok_def)
    qed
  next
    case (Gone now i)
    show ?thesis
    proof (cases "i < length ?ss")
      case True
      then have i: "length ?ss = Suc i" using new by (simp add: Gone)
      have e: "has_tracker (ws_enforcer (r_state (ss_run (?ss ! i))))" "e_id (ws_enforcer (r_state (ss_run (?ss ! i)))) = i"
        using s [OF True] by (simp_all add: session_ok_def enforcer_ok_def)
      have "drop_nth i ?ss = take i ?ss" using i by (simp add: drop_nth_def)
      then show ?thesis
        using T later new e i
        by (simp add: Gone share_ok_def ws_session_destroy_def RateEnforcer_destroy_def unregister_def)
    next
      case False
      then show ?thesis using T later new by (simp add: Gone share_ok_def)
    qed
  qed
qed

lemma share_run_ok:
  assumes "share_ok a mx t y" and a: "limitable a" "0 < alpha a" "alpha a \<le> 1" and mx: "0 \<le> mx"
    and "sorted (t # map ev_time es)" and "newest_first (length (sh_sessions y)) es"
  shows "case share_run a es y of Inl f \<Rightarrow> f = Bad_cast | Inr y' \<Rightarrow> \<exists>t'. share_ok a mx t' y'"
  using assms(1,6,7)
proof (induction es arbitrary: t y)
  case Nil
  then show ?case by auto
next
  case (Cons e es)
  have "t \<le> ev_time e" using Cons.prems(2) by simp
  from share_step_ok [OF Cons.prems(1) a mx this Cons.prems(3)] show ?case
    using Cons.IH Cons.prems(2) by (cases "share_step a e y") auto
qed


definition sharing_item :: item where
  "sharing_item = \<lparr>it_ptr = 64, it_size = 1000, it_handler = None, it_force = False\<rparr>"

definition sharing_events :: "share_event list" where
  "sharing_events = [Come 0, Come 1, Submitted (2 - epsilon) 0 sharing_item 2]"

lemma sharing_send:
  "ws_on_send (2 - epsilon) sharing_item 2 \<lparr>true_rates = [0, 0], max_byterate = 100\<rparr>
       \<lparr>ws_queue = [], ws_queue_size = 0, ws_enforcer = RateEnforcer_new default_args 0 0, ws_upgraded = False, has_state = True\<rparr>
     = Inr (\<lparr>true_rates = [50, 0], max_byterate = 100\<rparr>,
         \<lparr>ws_queue = [sharing_item], ws_queue_size = 1, ws_enforcer = \<lparr>unlimited_timer = 2 - epsilon, unlimited_rate = 50,
            allowed_rate = 50, actual_timer = 2 - epsilon, actual_rate = 50, has_tracker = True, e_args = default_args, e_id = 0\<rparr>,
          ws_upgraded = False, has_state = True\<rparr>, [Async_write 64 1000])"
proof -
  have t: "to_size_t 50 = Inr 50" by (simp add: to_size_t_def)
  have u: "update_hypothetical_rate (2 - epsilon) 1000 \<lparr>true_rates = [0, 0], max_byterate = 100\<rparr> (RateEnforcer_new default_args 0 0)
      = Inr ((RateEnforcer_new default_args 0 0)\<lparr>unlimited_timer := 2 - epsilon, unlimited_rate := 50, allowed_rate := 50\<rparr>,
             \<lparr>true_rates = [50, 0], max_byterate = 100\<rparr>)"
    by (simp add: update_hypothetical_rate_def update_and_get_allowable_def total_rate_def RateEnforcer_new_def
        default_args_def Let_def t)
  show ?thesis
    by (simp add: ws_on_send_def sharing_item_def u trim.simps ws_start_def sendable_def)
      (simp add: should_send_def RateEnforcer_new_def default_args_def Let_def)
qed

lemma sharing_example:
  "\<exists>y. share_run default_args sharing_events (share_start 100) = Inr y \<and> length (sh_sessions y) = 2
     \<and> unforced_bytes (ss_log (sh_sessions y ! 0)) = 1000"
  by (simp add: sharing_events_def share_start_def RateTracker_new_max_def ws_session_new_def make_enforcer_def
      share_submit_def sharing_send ws_submit_def log_start_def run_start_def Let_def unforced_bytes_def)
    (simp add: sharing_item_def)


section \<open>What goes wrong\<close>

text \<open>
  A session that goes before a newer one: the newer one keeps a number that the next session gets too, and both report to one slot.
\<close>

lemma numbers_clash:
  "\<exists>y. share_run a [Come t1, Come t2, Gone t3 0, Come t4] (share_start mx) = Inr y \<and> length (sh_sessions y) = 2
     \<and> (\<forall>s \<in> set (sh_sessions y). e_id (ws_enforcer (r_state (ss_run s))) = 1)"
  by (simp add: share_start_def RateTracker_new_max_def ws_session_new_def make_enforcer_def ws_session_destroy_def
      RateEnforcer_destroy_def RateEnforcer_new_def unregister_def swap_pop_def drop_nth_def run_start_def Let_def)

text \<open>
  A message is refused though no maximum is reached: the wish is rounded down to a whole number of bytes per second, and the rate
  it is compared with is not. For the first message of a session, with the default parameters: \<open>t1\<close> and \<open>t2\<close> are the
  times at which the two operations look at the clock.
\<close>

lemma first_message_refused:
  assumes made: "make_enforcer default_args t T = (e, T1)" and mx: "0 \<le> max_byterate T"
    and upd: "update_hypothetical_rate t1 n T1 e = Inr (e1, T2)" and t: "t \<le> t1"
    and frac: "of_int \<lfloor>of_nat n / (10 * (t1 - t + epsilon))\<rfloor> < of_nat n / (10 * (t2 - t + epsilon))"
  shows "\<not> fst (should_send t2 n e1)"
proof -
  have e: "e = RateEnforcer_new default_args (length (true_rates T)) t" and T1: "T1 = T\<lparr>true_rates := true_rates T @ [0]\<rparr>"
    using made by (simp_all add: make_enforcer_def)
  have ea: "has_tracker e" "e_id e = length (true_rates T)" "unlimited_rate e = 0" "alpha (e_args e) = 1 / 10" "unlimited_timer e = t"
    "actual_timer e = t" "actual_rate e = 0" "e_args e = default_args"
    by (simp_all add: e RateEnforcer_new_def default_args_def)
  define d1 d2 where "d1 = t1 - t + epsilon" and "d2 = t2 - t + epsilon"
  define x where "x = unlimited_rate e * (1 - alpha (e_args e)) + alpha (e_args e) * (of_nat n / ((t1 - unlimited_timer e) + epsilon))"
  have x: "x = of_nat n / (10 * d1)" by (simp add: x_def ea d1_def [symmetric] default_args_def)
  have pos: "0 \<le> x" using t epsilon_pos unfolding x d1_def by simp
  obtain r b where r: "to_size_t x = Inr r" "update_and_get_allowable r (length (true_rates T)) T1 = Inr (b, T2)"
    and e1: "allowed_rate e1 = b" "actual_timer e1 = t" "actual_rate e1 = 0" "has_tracker e1" "e_args e1 = default_args"
    using upd [unfolded update_hypothetical_rate_def Let_def, folded x_def] ea by (auto split: sum.splits prod.splits)
  have i: "length (true_rates T) < length (true_rates T1)" "0 \<le> max_byterate T1" using mx by (simp_all add: T1)
  have "b \<le> r" by (rule allowable_le_wish [OF r(2) i])
  moreover have "int r = \<lfloor>x\<rfloor>" using r(1) pos by (auto simp: to_size_t_def split: if_splits)
  ultimately have "(of_nat b :: rat) \<le> of_int \<lfloor>x\<rfloor>" by (metis of_int_of_nat_eq of_nat_le_iff)
  then have "of_nat b < of_nat n / (10 * d2)" using frac unfolding x d1_def d2_def by linarith
  then show ?thesis by (auto simp: should_send_def e1 default_args_def Let_def not_le d2_def [symmetric])
qed

text \<open>An idle session keeps its share: nothing but its own messages changes the rate it is registered with.\<close>

fun not_about :: "nat \<Rightarrow> share_event \<Rightarrow> bool" where
  "not_about k (Submitted now i it m) \<longleftrightarrow> i \<noteq> k"
| "not_about k (Gone now i) \<longleftrightarrow> k < i"
| "not_about k e \<longleftrightarrow> True"

lemma idle_step:
  assumes ok: "share_ok a mx t y" and mx: "0 \<le> mx" and k: "k < length (sh_sessions y)" and e: "not_about k e"
    and run: "share_step a e y = Inr y'"
  shows "true_rates (sh_tracker y') ! k = true_rates (sh_tracker y) ! k"
proof (cases e)
  case (Submitted now i it m)
  show ?thesis
  proof (cases "i < length (sh_sessions y)")
    case True
    let ?s = "sh_sessions y ! i"
    obtain s' where "share_submit now it m (sh_tracker y) ?s = Inr (sh_tracker y', s')"
      using run True by (auto simp: Submitted split: sum.splits)
    then obtain en where u: "update_hypothetical_rate now (unat (it_size it)) (sh_tracker y) (ws_enforcer (r_state (ss_run ?s)))
        = Inr (en, sh_tracker y')"
      by (auto simp: share_submit_def ws_on_send_def Let_def split: sum.splits prod.splits if_splits)
    have "e_id (ws_enforcer (r_state (ss_run ?s))) = i" "has_tracker (ws_enforcer (r_state (ss_run ?s)))"
      using ok True by (simp_all add: share_ok_def session_ok_def enforcer_ok_def)
    with u obtain r b where "update_and_get_allowable r i (sh_tracker y) = Inr (b, sh_tracker y')"
      by (auto simp: update_hypothetical_rate_def Let_def split: sum.splits prod.splits)
    from allowable_effect [OF this] ok True mx have "true_rates (sh_tracker y') = (true_rates (sh_tracker y))[i := r]"
      by (simp add: share_ok_def)
    then show ?thesis using e by (simp add: Submitted)
  qed (use run in \<open>simp add: Submitted\<close>)
next
  case (Gone now i)
  show ?thesis
  proof (cases "i < length (sh_sessions y)")
    case True
    then have "e_id (ws_enforcer (r_state (ss_run (sh_sessions y ! i)))) = i" using ok
      by (simp add: share_ok_def session_ok_def enforcer_ok_def)
    then show ?thesis using run True e ok
      by (auto simp: Gone share_ok_def ws_session_destroy_def RateEnforcer_destroy_def unregister_def nth_swap_pop)
  qed (use run in \<open>simp add: Gone\<close>)
next
  case (Come now)
  then show ?thesis using run k ok
    by (auto simp: share_ok_def ws_session_new_def make_enforcer_def nth_append Let_def)
next
  case (Written now i ec n)
  then show ?thesis using run by (auto split: sum.splits if_splits)
qed

text \<open>The others share what it leaves, however long it has been idle.\<close>

lemma share_beside_idle:
  assumes "true_rates T = [idle, r]" and "max_byterate T \<le> of_nat idle" and "0 < idle"
  shows "share T r = of_nat r / (of_nat idle + of_nat r) * max_byterate T"
  using assms by (simp add: share_def total_rate_def min_def)

text \<open>
  The allowances of all sessions together: each is at most the maximum, and a session is told its allowance only when it reports.
  A session that wishes \<open>c\<close> times what the others wish is granted all but one part in \<open>c + 1\<close> of the maximum, whatever the others
  were granted before.
\<close>

lemma allowances_bounded:
  assumes "share_ok a mx now y"
  shows "of_nat (\<Sum>s \<leftarrow> sh_sessions y. allowed_rate (ws_enforcer (r_state (ss_run s)))) \<le> of_nat (length (sh_sessions y)) * mx"
proof -
  have le: "of_nat (\<Sum>s \<leftarrow> ss. f s) \<le> of_nat (length ss) * mx" if "\<forall>s \<in> set ss. of_nat (f s) \<le> mx"
    for ss :: "shared_session list" and f
    using that by (induction ss) (simp_all add: distrib_right)
  show ?thesis
    using assms by (intro le) (auto simp: share_ok_def session_ok_def enforcer_ok_def in_set_conv_nth)
qed

lemma late_wish_granted:
  assumes "true_rates T = xs @ old # ys" and "max_byterate T = mx" and "0 \<le> mx" and "mx \<le> of_nat r"
    and c: "0 < c" "c * of_nat (sum_list xs + sum_list ys) \<le> of_nat r" and r: "0 < r" "r < 2 ^ 64"
  shows "\<exists>b. update_and_get_allowable r (length xs) T = Inr (b, T\<lparr>true_rates := xs @ r # ys\<rparr>)
     \<and> c / (c + 1) * mx - 1 < of_nat b"
proof -
  let ?T = "T\<lparr>true_rates := xs @ r # ys\<rparr>" and ?s = "sum_list xs + sum_list ys"
  have upd: "T\<lparr>true_rates := (true_rates T)[length xs := r]\<rparr> = ?T" and len: "length xs < length (true_rates T)"
    using assms(1) by simp_all
  have tot: "total_rate ?T = of_nat ?s + of_nat r" by (simp add: total_rate_of_nat)
  have rq: "(0 :: rat) < of_nat r" using r(1) by simp
  have pos: "0 < total_rate ?T" using rq unfolding tot by (simp add: add_nonneg_pos)
  have mn: "min (total_rate ?T) mx = mx" using assms(4) unfolding tot by (simp add: min_def)
  have sh: "share ?T r = of_nat r / total_rate ?T * mx" using mn assms(2) by (simp add: share_def)
  have "c * total_rate ?T \<le> of_nat r * (c + 1)" using c(2) unfolding tot by (simp add: algebra_simps)
  then have "c / (c + 1) \<le> of_nat r / total_rate ?T" using c(1) pos by (simp add: field_simps)
  then have low: "c / (c + 1) * mx \<le> share ?T r" unfolding sh using assms(3) by (rule mult_right_mono)
  have "0 \<le> share ?T r" "share ?T r \<le> of_nat r"
    using share_nonneg [OF pos, of r] share_le [OF pos, of r] assms(2,3) by simp_all
  then have sz: "to_size_t (share ?T r) = Inr (nat \<lfloor>share ?T r\<rfloor>)" and nn: "0 \<le> \<lfloor>share ?T r\<rfloor>"
    using to_size_t_ok [of "share ?T r" r] r(2) by simp_all
  have "update_and_get_allowable r (length xs) T = Inr (nat \<lfloor>share ?T r\<rfloor>, ?T)"
    using sz pos len by (simp add: update_and_get_allowable_def upd share_def Let_def)
  moreover have "c / (c + 1) * mx - 1 < of_nat (nat \<lfloor>share ?T r\<rfloor>)"
    using low nn floor_correct [of "share ?T r"] by linarith
  ultimately show ?thesis by blast
qed

text \<open>
  So the bound is close: three sessions that report one after the other, each ten times the rate of the one before, are allowed
  2809 bytes per second together, where the maximum is 1000.
\<close>

lemma stale_allowances_exceed:
  "\<exists>T1 T2 T3. update_and_get_allowable 1000 0 \<lparr>true_rates = [0, 0, 0], max_byterate = 1000\<rparr> = Inr (1000, T1)
     \<and> update_and_get_allowable 10000 1 T1 = Inr (909, T2)
     \<and> update_and_get_allowable 100000 2 T2 = Inr (900, T3)"
proof -
  have "\<lfloor>10000 / 11 :: rat\<rfloor> = 909" "\<lfloor>100000 / 111 :: rat\<rfloor> = 900" by (simp_all add: floor_eq_iff)
  then show ?thesis by (simp add: update_and_get_allowable_def total_rate_def to_size_t_def Let_def)
qed

end
