(* ===== verification/Rate_Concurrent.thy ===== *)
theory Rate_Concurrent
  imports Rate_Limiter
begin

text \<open>
  \<open>RateTracker\<close> (\<^verbatim>\<open>Networking/src/rate_limiter.cpp\<close>) with any number of threads inside its operations. The
  rates are reported and added up under a \<open>shared\<close> lock, so that several updates interleave: each store and each load
  of an atomic rate is a step, and so is the load of the maximum, which follows after the lock. Registration and its end
  take the lock for themselves: such a section is one step, possible while nobody holds the shared lock.
\<close>

section \<open>Threads\<close>

text \<open>
  The program counter of a call with its local variables: the rate wished for, the slot, and in the loop its end (the
  iterator computed when it starts), its position and the total so far. \<open>U_done\<close> keeps the maximum that was loaded.
\<close>

datatype rate_pc =
    U_lock nat nat
  | U_store nat nat
  | U_load nat nat nat nat rat
  | U_unlock nat rat
  | U_share nat rat
  | U_done nat rat "nat result"
  | G_unregister nat
  | G_done
  | M_register
  | M_done nat
  | X_maximum rat
  | X_done
  | Outside

record rate_sys =
  y_tracker :: tracker
  y_readers :: nat
  y_calls :: "rate_pc list"

definition allowance :: "nat \<Rightarrow> rat \<Rightarrow> rat \<Rightarrow> nat result" where
  "allowance r t m = (if t = 0 then Inl Bad_cast else to_size_t (of_nat r / t * min t m))"

text \<open>\<^const>\<open>None\<close>: the call has returned, or it waits for the lock.\<close>

fun rate_thread_step :: "tracker \<Rightarrow> nat \<Rightarrow> rate_pc \<Rightarrow> (tracker \<times> nat \<times> rate_pc) option" where
  "rate_thread_step T rd (U_lock r k) = Some (T, Suc rd, U_store r k)"
| "rate_thread_step T rd (U_store r k) =
     Some (if k < length (true_rates T) then T\<lparr>true_rates := (true_rates T)[k := r]\<rparr> else T, rd,
           U_load r k (length (true_rates T)) 0 0)"
| "rate_thread_step T rd (U_load r k n j t) =
     Some (T, rd, if n \<le> j then U_unlock r t
                  else if length (true_rates T) \<le> j then Outside
                  else U_load r k n (Suc j) (t + of_nat (true_rates T ! j)))"
| "rate_thread_step T rd (U_unlock r t) = Some (T, rd - 1, U_share r t)"
| "rate_thread_step T rd (U_share r t) = Some (T, rd, U_done r (max_byterate T) (allowance r t (max_byterate T)))"
| "rate_thread_step T rd (G_unregister k) = (if rd = 0 then Some (unregister k T, rd, G_done) else None)"
| "rate_thread_step T rd M_register =
     (if rd = 0 then Some (T\<lparr>true_rates := true_rates T @ [0]\<rparr>, rd, M_done (length (true_rates T))) else None)"
| "rate_thread_step T rd (X_maximum m) = Some (set_max_byterate m T, rd, X_done)"
| "rate_thread_step T rd _ = None"

fun starts_rate_call :: "rate_pc \<Rightarrow> bool" where
  "starts_rate_call (U_lock r k) \<longleftrightarrow> r < 2 ^ 64"
| "starts_rate_call (G_unregister k) \<longleftrightarrow> True"
| "starts_rate_call M_register \<longleftrightarrow> True"
| "starts_rate_call (X_maximum m) \<longleftrightarrow> True"
| "starts_rate_call _ \<longleftrightarrow> False"

inductive rate_step :: "rate_sys \<Rightarrow> rate_sys \<Rightarrow> bool" where
  enter: "starts_rate_call c \<Longrightarrow> rate_step y (y\<lparr>y_calls := y_calls y @ [c]\<rparr>)"
| move: "i < length (y_calls y) \<Longrightarrow> rate_thread_step (y_tracker y) (y_readers y) (y_calls y ! i) = Some (T, rd, c) \<Longrightarrow>
     rate_step y \<lparr>y_tracker = T, y_readers = rd, y_calls = (y_calls y)[i := c]\<rparr>"

inductive_cases rate_stepE: "rate_step y y'"

text \<open>What can be reached from a tracker while a condition on the states holds.\<close>

inductive rate_reachable :: "(rate_sys \<Rightarrow> bool) \<Rightarrow> tracker \<Rightarrow> rate_sys \<Rightarrow> bool"
  for P :: "rate_sys \<Rightarrow> bool" and T :: tracker where
  start: "P \<lparr>y_tracker = T, y_readers = 0, y_calls = []\<rparr> \<Longrightarrow> rate_reachable P T \<lparr>y_tracker = T, y_readers = 0, y_calls = []\<rparr>"
| step: "rate_reachable P T y \<Longrightarrow> rate_step y y' \<Longrightarrow> P y' \<Longrightarrow> rate_reachable P T y'"

text \<open>The updates that have not added up all rates yet, by their slots.\<close>

fun slots_of :: "rate_pc \<Rightarrow> nat list" where
  "slots_of (U_lock r k) = [k]"
| "slots_of (U_store r k) = [k]"
| "slots_of (U_load r k n j t) = [k]"
| "slots_of _ = []"

definition own_slots :: "rate_sys \<Rightarrow> bool" where
  "own_slots y \<longleftrightarrow> distinct (concat (map slots_of (y_calls y)))
     \<and> (\<forall>k \<in> set (concat (map slots_of (y_calls y))). k < length (true_rates (y_tracker y)))"

section \<open>The lock\<close>

fun reads :: "rate_pc \<Rightarrow> bool" where
  "reads (U_store r k) \<longleftrightarrow> True"
| "reads (U_load r k n j t) \<longleftrightarrow> True"
| "reads (U_unlock r t) \<longleftrightarrow> True"
| "reads _ \<longleftrightarrow> False"

fun call_ok :: "nat \<Rightarrow> rate_pc \<Rightarrow> bool" where
  "call_ok len (U_lock r k) \<longleftrightarrow> r < 2 ^ 64"
| "call_ok len (U_store r k) \<longleftrightarrow> r < 2 ^ 64"
| "call_ok len (U_load r k n j t) \<longleftrightarrow> r < 2 ^ 64 \<and> n = len \<and> j \<le> n \<and> 0 \<le> t"
| "call_ok len (U_unlock r t) \<longleftrightarrow> r < 2 ^ 64 \<and> 0 \<le> t"
| "call_ok len (U_share r t) \<longleftrightarrow> r < 2 ^ 64 \<and> 0 \<le> t"
| "call_ok len Outside \<longleftrightarrow> False"
| "call_ok len _ \<longleftrightarrow> True"

definition rate_inv :: "rate_sys \<Rightarrow> bool" where
  "rate_inv y \<longleftrightarrow> y_readers y = count_if reads (y_calls y) \<and> 0 \<le> max_byterate (y_tracker y)
     \<and> (\<forall>c \<in> set (y_calls y). call_ok (length (true_rates (y_tracker y))) c)"

lemma call_ok_cong: "\<not> reads c \<Longrightarrow> call_ok n c = call_ok m c"
  by (cases c) simp_all

lemma starts_rate_call_ok: "starts_rate_call c \<Longrightarrow> call_ok n c \<and> \<not> reads c"
  by (cases c) simp_all

text \<open>What one thread does to the vector and to the number of readers.\<close>

lemma rate_thread_step_ok:
  assumes run: "rate_thread_step T rd c = Some (T', rd', c')" and ok: "call_ok (length (true_rates T)) c"
    and m: "0 \<le> max_byterate T" and rd: "reads c \<Longrightarrow> 0 < rd"
  shows "call_ok (length (true_rates T')) c' \<and> 0 \<le> max_byterate T'
     \<and> rd' + (if reads c then 1 else 0) = rd + (if reads c' then 1 else 0)
     \<and> (length (true_rates T') = length (true_rates T) \<or> rd = 0 \<and> \<not> reads c)"
proof (cases c)
  case (U_load r k n j t)
  then show ?thesis using run ok m by (auto split: if_splits)
next
  case (X_maximum x)
  then show ?thesis using run ok m by (auto simp: set_max_byterate_def double_max_def)
qed (use run ok m rd in \<open>auto simp: unregister_def split: if_splits\<close>)

lemma rate_step_inv:
  assumes inv: "rate_inv y" and s: "rate_step y y'"
  shows "rate_inv y'"
  using s
proof cases
  case (enter c)
  then show ?thesis
    using inv starts_rate_call_ok [of c] by (auto simp: rate_inv_def)
next
  case (move i T rd c)
  let ?c = "y_calls y ! i" and ?cs = "y_calls y"
  have o: "call_ok (length (true_rates (y_tracker y))) ?c" "0 \<le> max_byterate (y_tracker y)"
    "y_readers y = count_if reads ?cs"
    using inv move by (simp_all add: rate_inv_def)
  have pos: "reads ?c \<Longrightarrow> 0 < y_readers y" using o(3) count_if_pos [OF move(2)] by simp
  note st = rate_thread_step_ok [OF move(3) o(1,2) pos]
  have cnt: "rd = count_if reads (?cs[i := c])"
    using st o(3) count_if_update [OF move(2), of reads c] by auto
  have "call_ok (length (true_rates T)) d" if d: "d \<in> set (?cs[i := c])" for d
  proof -
    have "d = c \<or> d \<in> set ?cs" using d set_update_subset_insert [of ?cs i c] by blast
    then show ?thesis
    proof
      assume d: "d \<in> set ?cs"
      have old: "call_ok (length (true_rates (y_tracker y))) d" using inv d by (simp add: rate_inv_def)
      show ?thesis
      proof (cases "length (true_rates T) = length (true_rates (y_tracker y))")
        case False
        then have "y_readers y = 0" using st by simp
        then have "\<not> reads d" using o(3) d by (simp add: count_if_zero)
        then show ?thesis using old call_ok_cong by blast
      qed (use old in simp)
    qed (use st in simp)
  qed
  then show ?thesis using st cnt by (simp add: move(1) rate_inv_def)
qed

lemma rate_reachable_inv:
  assumes "rate_reachable P T y" and "0 \<le> max_byterate T"
  shows "rate_inv y"
  using assms(1)
proof induction
  case start
  then show ?case using assms(2) by (simp add: rate_inv_def)
next
  case (step y y')
  then show ?case using rate_step_inv by blast
qed

section \<open>Updates whose slots are their own\<close>

definition granted :: "nat \<Rightarrow> rat \<Rightarrow> nat result \<Rightarrow> bool" where
  "granted r m res \<longleftrightarrow> (if r = 0 then res = Inl Bad_cast \<or> res = Inr 0
     else (case res of Inl e \<Rightarrow> False | Inr a \<Rightarrow> a \<le> r \<and> of_nat a \<le> m))"

lemma allowance_granted:
  assumes "r < 2 ^ 64" and "of_nat r \<le> t" and "0 \<le> m"
  shows "granted r m (allowance r t m)"
proof (cases "r = 0")
  case True
  then show ?thesis by (simp add: granted_def allowance_def to_size_t_def)
next
  case False
  let ?x = "of_nat r / t * min t m"
  have t: "0 < t" using False assms(2) by (metis of_nat_0_less_iff neq0_conv order_less_le_trans)
  have x: "0 \<le> ?x" using t assms(3) by simp
  have "?x \<le> of_nat r / t * t" using t by (intro mult_left_mono) simp_all
  then have le: "?x \<le> of_nat r" using t by simp
  have "?x \<le> 1 * m" using t assms(2,3) by (intro mult_mono) simp_all
  then have lm: "?x \<le> m" by simp
  define b where "b = nat \<lfloor>?x\<rfloor>"
  have res: "allowance r t m = Inr b" using t to_size_t_ok [OF x le assms(1)] by (simp add: allowance_def b_def)
  have "(of_nat b :: rat) \<le> ?x" using x by (simp add: b_def)
  then have "(of_nat b :: rat) \<le> of_nat r" "of_nat b \<le> m" using le lm by linarith+
  then show ?thesis using False res by (simp add: granted_def)
qed

text \<open>A thread in the loop finds its own rate in its slot; after the loop its total includes it.\<close>

fun own_ok :: "nat list \<Rightarrow> rate_pc \<Rightarrow> bool" where
  "own_ok rs (U_load r k n j t) \<longleftrightarrow> rs ! k = r \<and> (k < j \<longrightarrow> of_nat r \<le> t)"
| "own_ok rs (U_unlock r t) \<longleftrightarrow> of_nat r \<le> t"
| "own_ok rs (U_share r t) \<longleftrightarrow> of_nat r \<le> t"
| "own_ok rs (U_done r m res) \<longleftrightarrow> granted r m res"
| "own_ok rs _ \<longleftrightarrow> True"

lemma own_ok_after_start: "starts_rate_call c \<Longrightarrow> own_ok rs c"
  by (cases c) simp_all

lemma own_ok_step:
  assumes run: "rate_thread_step T rd c = Some (T', rd', c')" and own: "own_ok (true_rates T) c"
    and ok: "call_ok (length (true_rates T)) c" and m: "0 \<le> max_byterate T"
    and k: "\<forall>k \<in> set (slots_of c). k < length (true_rates T)"
  shows "own_ok (true_rates T') c'"
proof (cases c)
  case (U_load r k n j t)
  have le: "of_nat r \<le> t + of_nat (true_rates T ! j)" if "k < Suc j"
  proof (cases "k = j")
    case True
    then show ?thesis using own ok by (simp add: U_load)
  next
    case False
    then have "of_nat r \<le> t" using that own by (simp add: U_load)
    then show ?thesis by (simp add: add_increasing2)
  qed
  show ?thesis using run own ok k le by (auto simp: U_load split: if_splits)
qed (use run own ok m k in \<open>auto simp: allowance_granted split: if_splits\<close>)

text \<open>Another thread is not disturbed.\<close>

lemma own_ok_other:
  assumes run: "rate_thread_step T rd c = Some (T', rd', c')" and own: "own_ok (true_rates T) d"
    and apart: "set (slots_of c) \<inter> set (slots_of d) = {}" and rd: "reads d \<Longrightarrow> 0 < rd"
  shows "own_ok (true_rates T') d"
proof (cases d)
  case (U_load r k n j t)
  then have "true_rates T' ! k = true_rates T ! k"
    using run apart rd by (cases c) (auto simp: set_max_byterate_def split: if_splits)
  then show ?thesis using own by (simp add: U_load)
qed (use own in simp_all)

lemma concat_distinct_disjoint:
  assumes "distinct (concat (map f xs))" and "i < length xs" and "j < length xs" and "i \<noteq> j"
  shows "set (f (xs ! i)) \<inter> set (f (xs ! j)) = {}"
  using assms
proof (induction xs arbitrary: i j)
  case (Cons x xs)
  have "set (f x) \<inter> set (f (xs ! n)) = {}" if "n < length xs" for n
    using Cons.prems(1) nth_mem [OF that] by auto
  then show ?case using Cons by (cases i; cases j) (auto simp: Int_commute)
qed simp

lemma rate_step_own:
  assumes s: "rate_step y y'" and inv: "rate_inv y" and own: "\<forall>c \<in> set (y_calls y). own_ok (true_rates (y_tracker y)) c"
    and slots: "own_slots y"
  shows "\<forall>c \<in> set (y_calls y'). own_ok (true_rates (y_tracker y')) c"
  using s
proof cases
  case (enter c)
  then show ?thesis using own own_ok_after_start by auto
next
  case (move i T rd c)
  let ?cs = "y_calls y"
  have o: "call_ok (length (true_rates (y_tracker y))) (?cs ! i)" "0 \<le> max_byterate (y_tracker y)"
    "y_readers y = count_if reads ?cs" "own_ok (true_rates (y_tracker y)) (?cs ! i)"
    using inv move own by (simp_all add: rate_inv_def)
  have k: "\<forall>k \<in> set (slots_of (?cs ! i)). k < length (true_rates (y_tracker y))"
    using slots move(2) by (auto simp: own_slots_def)
  have "own_ok (true_rates T) (?cs[i := c] ! j)" if j: "j < length ?cs" for j
  proof (cases "j = i")
    case True
    then show ?thesis using own_ok_step [OF move(3) o(4,1,2) k] j by simp
  next
    case False
    have "set (slots_of (?cs ! i)) \<inter> set (slots_of (?cs ! j)) = {}"
      using slots move(2) j False by (intro concat_distinct_disjoint) (simp_all add: own_slots_def)
    moreover have "reads (?cs ! j) \<Longrightarrow> 0 < y_readers y" using o(3) count_if_pos [OF j] by simp
    ultimately show ?thesis using own_ok_other [OF move(3)] own j False by simp
  qed
  then show ?thesis by (auto simp: move(1) in_set_conv_nth)
qed

lemma rate_reachable_own:
  assumes "rate_reachable own_slots T y" and "0 \<le> max_byterate T"
  shows "own_slots y \<and> (\<forall>c \<in> set (y_calls y). own_ok (true_rates (y_tracker y)) c)"
  using assms(1)
proof induction
  case start
  then show ?case by simp
next
  case (step y y')
  then show ?case using rate_step_own rate_reachable_inv [OF step(1) assms(2)] by blast
qed

text \<open>
  C18. The tracker under concurrency: in every interleaving of updates, registrations, their ends and changes of the maximum
  the loop over the rates stays inside the vector, which does not change its length while a call is in the loop; and if
  updates that run at once have slots of their own, each of them is granted at most its wish and at most the maximum it
  loaded, and a conversion is undefined only for a wish of 0.
\<close>

theorem rate_updates_concurrent:
  assumes "rate_reachable P T y" and "0 \<le> max_byterate T"
  shows "Outside \<notin> set (y_calls y)
     \<and> (\<forall>r k n j t. U_load r k n j t \<in> set (y_calls y) \<longrightarrow> n = length (true_rates (y_tracker y)))
     \<and> (P = own_slots \<longrightarrow> (\<forall>r m res. U_done r m res \<in> set (y_calls y) \<longrightarrow>
           (if r = 0 then res = Inl Bad_cast \<or> res = Inr 0 else \<exists>a. res = Inr a \<and> a \<le> r \<and> of_nat a \<le> m)))"
proof -
  have ok: "\<forall>c \<in> set (y_calls y). call_ok (length (true_rates (y_tracker y))) c"
    using rate_reachable_inv [OF assms] by (simp add: rate_inv_def)
  have "(if r = 0 then res = Inl Bad_cast \<or> res = Inr 0 else \<exists>a. res = Inr a \<and> a \<le> r \<and> of_nat a \<le> m)"
    if "P = own_slots" and d: "U_done r m res \<in> set (y_calls y)" for r m res
  proof -
    have "own_ok (true_rates (y_tracker y)) (U_done r m res)"
      using rate_reachable_own [of T y] assms that by blast
    then show ?thesis by (auto simp: granted_def split: if_splits sum.splits)
  qed
  moreover have "n = length (true_rates (y_tracker y))" if "U_load r k n j t \<in> set (y_calls y)" for r k n j t
    using bspec [OF ok that] by simp
  moreover have "Outside \<notin> set (y_calls y)" using ok by (metis call_ok.simps(6))
  ultimately show ?thesis by blast
qed

section \<open>Schedules\<close>

text \<open>The threads named move one after the other; one that cannot move is passed over.\<close>

definition rate_move :: "nat \<Rightarrow> rate_sys \<Rightarrow> rate_sys" where
  "rate_move i y =
     (case (if i < length (y_calls y) then rate_thread_step (y_tracker y) (y_readers y) (y_calls y ! i) else None) of
        None \<Rightarrow> y
      | Some (T, rd, c) \<Rightarrow> \<lparr>y_tracker = T, y_readers = rd, y_calls = (y_calls y)[i := c]\<rparr>)"

fun rate_run :: "nat list \<Rightarrow> rate_sys \<Rightarrow> rate_sys" where
  "rate_run [] y = y"
| "rate_run (i # is) y = rate_run is (rate_move i y)"

fun rate_run_within :: "(rate_sys \<Rightarrow> bool) \<Rightarrow> nat list \<Rightarrow> rate_sys \<Rightarrow> bool" where
  "rate_run_within P [] y \<longleftrightarrow> P y"
| "rate_run_within P (i # is) y \<longleftrightarrow> P y \<and> rate_run_within P is (rate_move i y)"

lemma rate_run_append: "rate_run (xs @ ys) y = rate_run ys (rate_run xs y)"
  by (induction xs arbitrary: y) simp_all

lemma rate_run_reachable:
  assumes "rate_reachable P T y" and "rate_run_within P is y"
  shows "rate_reachable P T (rate_run is y)"
  using assms
proof (induction "is" arbitrary: y)
  case (Cons i "is")
  have P: "P (rate_move i y)" using Cons.prems(2) by (cases "is") simp_all
  have "rate_reachable P T (rate_move i y)"
  proof (cases "if i < length (y_calls y) then rate_thread_step (y_tracker y) (y_readers y) (y_calls y ! i) else None")
    case None
    then show ?thesis using Cons.prems(1) by (simp add: rate_move_def)
  next
    case (Some r)
    obtain T' rd c where r: "r = (T', rd, c)" using prod_cases3 by blast
    have "rate_step y (rate_move i y)"
      using Some rate_step.move [of i y T' rd c] by (simp add: r rate_move_def split: if_splits)
    then show ?thesis using rate_reachable.step [OF Cons.prems(1)] P by blast
  qed
  then show ?case using Cons.IH Cons.prems(2) by simp
qed simp

text \<open>The loop, when nobody else moves.\<close>

lemma rate_run_loop:
  assumes "i < length cs" and "j \<le> length (true_rates T)"
  shows "rate_run (replicate (Suc (length (true_rates T) - j)) i)
      \<lparr>y_tracker = T, y_readers = rd, y_calls = cs[i := U_load r k (length (true_rates T)) j t]\<rparr>
    = \<lparr>y_tracker = T, y_readers = rd, y_calls = cs[i := U_unlock r (t + (\<Sum>x \<leftarrow> drop j (true_rates T). of_nat x))]\<rparr>"
  using assms
proof (induction "length (true_rates T) - j" arbitrary: j t)
  case 0
  then show ?case by (simp add: rate_move_def)
next
  case (Suc m)
  then have j: "j < length (true_rates T)" "m = length (true_rates T) - Suc j" by simp_all
  have "drop j (true_rates T) = true_rates T ! j # drop (Suc j) (true_rates T)" using j(1) by (rule Cons_nth_drop_Suc [symmetric])
  moreover have "Suc (length (true_rates T) - j) = Suc (Suc (length (true_rates T) - Suc j))" using j by simp
  ultimately show ?case
    using Suc.hyps(1) [OF j(2), of "t + of_nat (true_rates T ! j)"] Suc.prems j(1)
    by (simp add: rate_move_def add.assoc)
qed

text \<open>An update that runs alone is the atomic operation of \<open>Rate_Limiter\<close>.\<close>

lemma update_alone:
  assumes "i < length cs" and "cs ! i = U_lock r k"
  shows "\<exists>T' res. rate_run (replicate (length (true_rates T) + 5) i) \<lparr>y_tracker = T, y_readers = rd, y_calls = cs\<rparr>
       = \<lparr>y_tracker = T', y_readers = rd, y_calls = cs[i := U_done r (max_byterate T) res]\<rparr>
     \<and> update_and_get_allowable r k T = (case res of Inl e \<Rightarrow> Inl e | Inr a \<Rightarrow> Inr (a, T'))"
proof -
  define T' where "T' = (if k < length (true_rates T) then T\<lparr>true_rates := (true_rates T)[k := r]\<rparr> else T)"
  have len: "length (true_rates T') = length (true_rates T)" and mx: "max_byterate T' = max_byterate T" by (simp_all add: T'_def)
  let ?at = "\<lambda>c. \<lparr>y_tracker = T', y_readers = Suc rd, y_calls = cs[i := c]\<rparr>"
  have "length (true_rates T) + 5 = 2 + Suc (length (true_rates T')) + 2" using len by simp
  then have split: "replicate (length (true_rates T) + 5) i
      = [i, i] @ replicate (Suc (length (true_rates T') - 0)) i @ [i, i]"
    by (simp only: replicate_add) (simp add: numeral_2_eq_2)
  have one: "rate_run [i, i] \<lparr>y_tracker = T, y_readers = rd, y_calls = cs\<rparr> = ?at (U_load r k (length (true_rates T')) 0 0)"
    using assms by (simp add: T'_def rate_move_def)
  have two: "rate_run (replicate (Suc (length (true_rates T') - 0)) i) (?at (U_load r k (length (true_rates T')) 0 0))
      = ?at (U_unlock r (total_rate T'))"
    using rate_run_loop [OF assms(1), of 0 T' "Suc rd" r k 0] by (simp add: total_rate_def)
  have three: "rate_run [i, i] (?at (U_unlock r (total_rate T')))
      = \<lparr>y_tracker = T', y_readers = rd, y_calls = cs[i := U_done r (max_byterate T) (allowance r (total_rate T') (max_byterate T))]\<rparr>"
    using assms(1) mx by (simp add: rate_move_def)
  show ?thesis
  proof (intro exI conjI)
    show "rate_run (replicate (length (true_rates T) + 5) i) \<lparr>y_tracker = T, y_readers = rd, y_calls = cs\<rparr>
      = \<lparr>y_tracker = T', y_readers = rd, y_calls = cs[i := U_done r (max_byterate T) (allowance r (total_rate T') (max_byterate T))]\<rparr>"
      by (simp only: split rate_run_append one two three)
    show "update_and_get_allowable r k T = (case allowance r (total_rate T') (max_byterate T) of Inl e \<Rightarrow> Inl e | Inr a \<Rightarrow> Inr (a, T'))"
      using mx by (simp add: update_and_get_allowable_def allowance_def Let_def T'_def [symmetric])
  qed
qed

section \<open>An example, and what goes wrong\<close>

text \<open>Two updates at once: both rates are stored before the first is read, and both are granted their share of the maximum.\<close>

definition two_updates :: "nat \<Rightarrow> nat \<Rightarrow> nat \<Rightarrow> nat \<Rightarrow> rate_sys" where
  "two_updates r k r' k' = \<lparr>y_tracker = \<lparr>true_rates = [0, 0], max_byterate = 100\<rparr>, y_readers = 0,
     y_calls = [U_lock r k, U_lock r' k']\<rparr>"

definition both_stored :: "nat list" where
  "both_stored = [0, 1, 0, 1, 0, 1, 1, 0, 0, 1, 0, 1, 1, 0]"

lemma two_updates_reachable:
  "rate_reachable own_slots \<lparr>true_rates = [0, 0], max_byterate = 100\<rparr> (two_updates 300 0 100 1)"
proof -
  let ?T = "\<lparr>true_rates = [0, 0], max_byterate = 100\<rparr> :: tracker"
  let ?y = "\<lambda>cs. \<lparr>y_tracker = ?T, y_readers = 0, y_calls = cs\<rparr>"
  have 0: "rate_reachable own_slots ?T (?y [])" by (rule rate_reachable.start) (simp add: own_slots_def)
  have "rate_step (?y []) (?y [U_lock 300 0])" using rate_step.enter [of "U_lock 300 0" "?y []"] by simp
  from rate_reachable.step [OF 0 this] have 1: "rate_reachable own_slots ?T (?y [U_lock 300 0])" by (simp add: own_slots_def)
  have "rate_step (?y [U_lock 300 0]) (?y [U_lock 300 0, U_lock 100 1])"
    using rate_step.enter [of "U_lock 100 1" "?y [U_lock 300 0]"] by simp
  from rate_reachable.step [OF 1 this] show ?thesis by (simp add: own_slots_def two_updates_def)
qed

lemma two_updates_run:
  "y_calls (rate_run both_stored (two_updates 300 0 100 1)) = [U_done 300 100 (Inr 75), U_done 100 100 (Inr 25)]"
  by (simp add: both_stored_def two_updates_def rate_move_def allowance_def to_size_t_def)

lemma rate_updates_concurrent_witness:
  "let y = rate_run both_stored (two_updates 300 0 100 1)
   in U_done 300 100 (Inr 75) \<in> set (y_calls y) \<and> Outside \<notin> set (y_calls y) \<and> (75 :: nat) \<le> 300 \<and> (75 :: rat) \<le> 100"
proof -
  let ?y = "rate_run both_stored (two_updates 300 0 100 1)"
  have "rate_run_within own_slots both_stored (two_updates 300 0 100 1)"
    by (simp add: both_stored_def two_updates_def rate_move_def own_slots_def allowance_def to_size_t_def)
  from rate_run_reachable [OF two_updates_reachable this]
  have r: "rate_reachable own_slots \<lparr>true_rates = [0, 0], max_byterate = 100\<rparr> ?y" .
  have d: "U_done 300 100 (Inr 75) \<in> set (y_calls ?y)" unfolding two_updates_run by simp
  show ?thesis using rate_updates_concurrent [OF r] d by (fastforce simp: Let_def)
qed

text \<open>
  Two enforcers with one slot, as they come about when a session goes before a newer one: the second overwrites the
  rate of the first before it is read, the first finds a total below its own rate, and is granted 1000000 bytes per
  second where the maximum is 100; or the total is 0 and the conversion undefined.
\<close>

lemma shared_slot_breaks_limit:
  "y_calls (rate_run both_stored (two_updates 1000000 1 1 1)) ! 0 = U_done 1000000 100 (Inr 1000000)"
  "y_calls (rate_run both_stored (two_updates 1000000 1 0 1)) ! 0 = U_done 1000000 100 (Inl Bad_cast)"
  by (simp_all add: both_stored_def two_updates_def rate_move_def allowance_def to_size_t_def)

end
