(* ===== verification/Broadcast_Order.thy ===== *)
theory Broadcast_Order
  imports Ws_Session Http_Session
begin

text \<open>
  From a call of \<open>shared_state::sendAsync\<close> to the messages the sessions write, for all sessions of a server together. The sends of
  the server run one after the other (what happens otherwise is in \<open>Shared_State\<close>).
\<close>

section \<open>Sessions with their strands\<close>

definition ws_sendAsync :: "item \<Rightarrow> nat \<Rightarrow> ws_session posting \<Rightarrow> ws_session posting" where
  "ws_sendAsync it mx s = s\<lparr>po_posted := po_posted s @ [(it, mx)], po_told := po_told s @ [it]\<rparr>"

definition hs_sendAsync :: "item \<Rightarrow> nat \<Rightarrow> http_session posting \<Rightarrow> http_session posting" where
  "hs_sendAsync it mx s = s\<lparr>po_posted := po_posted s @ [(it, mx)], po_told := po_told s @ [it]\<rparr>"

text \<open>
  \<open>bc_log\<close>, for the specification: the messages of all sends of the server. A session is known by its kind and address.
\<close>

type_synonym sender_id = "kind \<times> nat"

record broadcasting =
  bc_state :: shared_state
  bc_ws :: "sender_id \<Rightarrow> ws_session posting"
  bc_hs :: "sender_id \<Rightarrow> http_session posting"
  bc_log :: "item list"

text \<open>The sessions as their constructors make them.\<close>

record new_sessions =
  new_ws :: "sender_id \<Rightarrow> ws_session"
  new_hs :: "sender_id \<Rightarrow> http_session"

definition new_sessions_ok :: "new_sessions \<Rightarrow> bool" where
  "new_sessions_ok N \<longleftrightarrow> (\<forall>i. ws_queue (new_ws N i) = [] \<and> hs_send_queue (new_hs N i) = [])"

definition broadcasting_start :: "new_sessions \<Rightarrow> shared_state \<Rightarrow> broadcasting" where
  "broadcasting_start N st =
     \<lparr>bc_state = st, bc_ws = (\<lambda>i. posting_new (new_ws N i)), bc_hs = (\<lambda>i. posting_new (new_hs N i)), bc_log = []\<rparr>"

text \<open>What the server does with the sessions it sends to.\<close>

fun deliver :: "'e outcome \<Rightarrow> broadcasting \<Rightarrow> broadcasting" where
  "deliver (Session_send k p it mx) y =
     (if is_ws k then y\<lparr>bc_ws := (bc_ws y)((k, p) := ws_sendAsync it mx (bc_ws y (k, p)))\<rparr>
      else y\<lparr>bc_hs := (bc_hs y)((k, p) := hs_sendAsync it mx (bc_hs y (k, p)))\<rparr>)"
| "deliver _ y = y"

text \<open>
  A broadcast; a send to an endpoint; a session enters (a new object, at the address of an object that is gone) or leaves; the
  strand of a session runs the next call of \<open>on_send\<close>; the operation a session has under way completes.
\<close>

datatype 'e bc_event =
    Broadcast "kind \<Rightarrow> nat \<Rightarrow> 'e session_view" item nat bool bool
  | Sent_to "kind \<Rightarrow> nat \<Rightarrow> 'e session_view" 'e item nat
  | Member "kind \<Rightarrow> nat \<Rightarrow> 'e session_view" membership
  | Ws_next sender_id "rat \<times> tracker"
  | Ws_done sender_id "rat \<times> tracker" error_code nat
  | Hs_next sender_id "response list"
  | Hs_done sender_id "response list" error_code nat

definition at_rest :: "'s posting \<Rightarrow> bool" where
  "at_rest s \<longleftrightarrow> po_posted s = [] \<and> r_pending (po_run s) = []"

fun bc_member ::
  "new_sessions \<Rightarrow> (kind \<Rightarrow> nat \<Rightarrow> 'e session_view) \<Rightarrow> membership \<Rightarrow> broadcasting \<Rightarrow> broadcasting" where
  "bc_member N view (Enter k p) y =
     (if p \<in> set (sessions (bc_state y) k) \<or> \<not> at_rest (bc_ws y (k, p)) \<or> \<not> at_rest (bc_hs y (k, p)) then y
      else y\<lparr>bc_state := fst (member_step view (Enter k p) (bc_state y)),
             bc_ws := (bc_ws y)((k, p) := posting_new (new_ws N (k, p))),
             bc_hs := (bc_hs y)((k, p) := posting_new (new_hs N (k, p)))\<rparr>)"
| "bc_member N view (Exit k p) y = y\<lparr>bc_state := fst (member_step view (Exit k p) (bc_state y))\<rparr>"

fun bc_step :: "new_sessions \<Rightarrow> 'e bc_event \<Rightarrow> broadcasting \<Rightarrow> broadcasting result" where
  "bc_step N (Broadcast view it mx to_ws to_tcp) y =
     (case broadcast view it mx to_ws to_tcp (bc_state y) of
        (st, outs) \<Rightarrow> Inr (fold deliver outs (y\<lparr>bc_state := st, bc_log := bc_log y @ [it]\<rparr>)))"
| "bc_step N (Sent_to view ep it mx) y =
     (case send_to view ep it mx (bc_state y) of
        (st, outs) \<Rightarrow> Inr (fold deliver outs (y\<lparr>bc_state := st, bc_log := bc_log y @ [it]\<rparr>)))"
| "bc_step N (Member view m) y = Inr (bc_member N view m y)"
| "bc_step N (Ws_next i a) y =
     (case strand_next ws_queue ws_submit ws_complete a (bc_ws y i) of
        Inl e \<Rightarrow> Inl e | Inr s \<Rightarrow> Inr (y\<lparr>bc_ws := (bc_ws y)(i := s)\<rparr>))"
| "bc_step N (Ws_done i a ec n) y =
     (case strand_finish ws_queue ws_submit ws_complete a ec n (bc_ws y i) of
        Inl e \<Rightarrow> Inl e | Inr s \<Rightarrow> Inr (y\<lparr>bc_ws := (bc_ws y)(i := s)\<rparr>))"
| "bc_step N (Hs_next i a) y =
     (case strand_next hs_send_queue hs_submit hs_complete a (bc_hs y i) of
        Inl e \<Rightarrow> Inl e | Inr s \<Rightarrow> Inr (y\<lparr>bc_hs := (bc_hs y)(i := s)\<rparr>))"
| "bc_step N (Hs_done i a ec n) y =
     (case strand_finish hs_send_queue hs_submit hs_complete a ec n (bc_hs y i) of
        Inl e \<Rightarrow> Inl e | Inr s \<Rightarrow> Inr (y\<lparr>bc_hs := (bc_hs y)(i := s)\<rparr>))"

fun bc_run :: "new_sessions \<Rightarrow> 'e bc_event list \<Rightarrow> broadcasting \<Rightarrow> broadcasting result" where
  "bc_run N [] y = Inr y"
| "bc_run N (e # es) y = (case bc_step N e y of Inl f \<Rightarrow> Inl f | Inr y' \<Rightarrow> bc_run N es y')"

section \<open>What a send does to the sessions\<close>

definition broadcasting_ok :: "broadcasting \<Rightarrow> bool" where
  "broadcasting_ok y \<longleftrightarrow> registers_ok (bc_state y)
     \<and> (\<forall>i. posting_ok ws_queue (bc_log y) (bc_ws y i)) \<and> (\<forall>i. posting_ok hs_send_queue (bc_log y) (bc_hs y i))"

text \<open>Posting to distinct sessions, one after the other.\<close>

lemma fold_deliver:
  assumes "distinct ids"
  shows "fold deliver (map (\<lambda>(k, p). Session_send k p it mx) ids) y
    = y\<lparr>bc_ws := (\<lambda>i. if i \<in> set ids \<and> is_ws (fst i) then ws_sendAsync it mx (bc_ws y i) else bc_ws y i),
        bc_hs := (\<lambda>i. if i \<in> set ids \<and> \<not> is_ws (fst i) then hs_sendAsync it mx (bc_hs y i) else bc_hs y i)\<rparr>"
  using assms
proof (induction ids arbitrary: y)
  case (Cons i ids)
  obtain k p where i: "i = (k, p)" by fastforce
  have d: "i \<notin> set ids" "distinct ids" using Cons.prems by simp_all
  show ?case using d(1) unfolding i by (cases "is_ws k") (auto simp: Cons.IH [OF d(2)] fun_eq_iff)
qed simp

lemma fold_deliver_none: "fold deliver (not_connected it) y = y"
  by (cases "it_handler it") (simp_all add: not_connected_def)

text \<open>A correct send posts the message once to each of the sessions it is meant for, and to no other.\<close>

lemma deliver_delivers:
  assumes "delivers it mx S outs"
  shows "fold deliver outs y
    = y\<lparr>bc_ws := (\<lambda>i. if i \<in> S \<and> is_ws (fst i) then ws_sendAsync it mx (bc_ws y i) else bc_ws y i),
        bc_hs := (\<lambda>i. if i \<in> S \<and> \<not> is_ws (fst i) then hs_sendAsync it mx (bc_hs y i) else bc_hs y i)\<rparr>"
proof (cases "S = {}")
  case True
  then show ?thesis using assms fold_deliver_none by (simp add: delivers_def)
next
  case False
  then have d: "distinct (recipients outs)" "set (recipients outs) = S"
    "outs = map (\<lambda>(k, p). Session_send k p it mx) (recipients outs)" using assms by (simp_all add: delivers_def)
  show ?thesis by (subst d(3)) (simp only: fold_deliver [OF d(1)] d(2))
qed

lemma send_keeps:
  assumes ok: "broadcasting_ok y" and d: "delivers it mx S outs" and st: "sessions st = sessions (bc_state y)"
  shows "broadcasting_ok (fold deliver outs (y\<lparr>bc_state := st, bc_log := bc_log y @ [it]\<rparr>))"
  using ok st
  by (auto simp: deliver_delivers [OF d] broadcasting_ok_def registers_ok_def ws_sendAsync_def hs_sendAsync_def
      intro: posting_ok_send posting_ok_longer)

lemma bc_member_ok:
  assumes "broadcasting_ok y" and "new_sessions_ok N"
  shows "broadcasting_ok (bc_member N view m y)"
proof (cases m)
  case (Enter k p)
  then show ?thesis using assms registered_enter(2) [of "bc_state y" k p]
    by (simp add: member_enter broadcasting_ok_def new_sessions_ok_def posting_ok_new)
next
  case (Exit k p)
  then show ?thesis using assms registered_exit(2) [of "bc_state y" k p]
    by (simp add: member_exit broadcasting_ok_def)
qed

lemma broadcasting_ok_sessions:
  assumes "broadcasting_ok y"
  shows "posting_ok ws_queue (bc_log y) (bc_ws y i)" and "posting_ok hs_send_queue (bc_log y) (bc_hs y i)"
  using assms unfolding broadcasting_ok_def by blast+

lemma broadcasting_ok_update:
  assumes "broadcasting_ok y"
  shows "posting_ok ws_queue (bc_log y) s \<Longrightarrow> broadcasting_ok (y\<lparr>bc_ws := (bc_ws y)(i := s)\<rparr>)"
    and "posting_ok hs_send_queue (bc_log y) t \<Longrightarrow> broadcasting_ok (y\<lparr>bc_hs := (bc_hs y)(i := t)\<rparr>)"
  using assms by (simp_all add: broadcasting_ok_def)

lemma bc_step_ok:
  assumes ok: "broadcasting_ok y" and N: "new_sessions_ok N"
  shows "case bc_step N e y of Inl f \<Rightarrow> f = Bad_cast | Inr y' \<Rightarrow> broadcasting_ok y'"
proof (cases e)
  case (Broadcast view it mx w t)
  have r: "registers_ok (bc_state y)" using ok by (simp add: broadcasting_ok_def)
  note s = send_reaches_selected [OF r]
  obtain st outs where b: "broadcast view it mx w t (bc_state y) = (st, outs)" by fastforce
  then show ?thesis using send_keeps [OF ok s(1) [where it = it and mx = mx and view = view and to_ws = w and to_tcp = t] s(2) [where it = it and mx = mx and view = view and to_ws = w and to_tcp = t]] by (simp add: Broadcast)
next
  case (Sent_to view ep it mx)
  have r: "registers_ok (bc_state y)" using ok by (simp add: broadcasting_ok_def)
  note s = send_to_reaches_endpoint [OF r]
  obtain st outs where b: "send_to view ep it mx (bc_state y) = (st, outs)" by fastforce
  then show ?thesis using send_keeps [OF ok s(1) [where it = it and mx = mx and view = view and ep = ep] s(2) [where it = it and mx = mx and view = view and ep = ep]] by (simp add: Sent_to)
next
  case (Member view m)
  then show ?thesis using bc_member_ok [OF ok N] by simp
next
  case (Ws_next i a)
  show ?thesis
    using wsq.strand_next_ok [OF broadcasting_ok_sessions(1) [OF ok, of i], of a] broadcasting_ok_update(1) [OF ok, of _ i]
    by (auto simp: Ws_next split: sum.splits)
next
  case (Ws_done i a ec n)
  show ?thesis
    using wsq.strand_finish_ok [OF broadcasting_ok_sessions(1) [OF ok, of i], of a ec n] broadcasting_ok_update(1) [OF ok, of _ i]
    by (auto simp: Ws_done)
next
  case (Hs_next i a)
  show ?thesis
    using hsq.strand_next_ok [OF broadcasting_ok_sessions(2) [OF ok, of i], of a] broadcasting_ok_update(2) [OF ok, of _ i]
    by (auto simp: Hs_next split: sum.splits)
next
  case (Hs_done i a ec n)
  show ?thesis
    using hsq.strand_finish_ok [OF broadcasting_ok_sessions(2) [OF ok, of i], of a ec n] broadcasting_ok_update(2) [OF ok, of _ i]
    by (auto simp: Hs_done)
qed

section \<open>Sessions that are there all the time\<close>

fun addressed :: "kind \<Rightarrow> nat \<Rightarrow> 'e bc_event \<Rightarrow> bool" where
  "addressed k p (Broadcast view it mx to_ws to_tcp) \<longleftrightarrow> (if is_ws k then to_ws else to_tcp) \<and> sv_owned (view k p)"
| "addressed k p (Sent_to view ep it mx) \<longleftrightarrow> sv_owned (view k p) \<and> sv_endpoint (view k p) = ep"
| "addressed k p (Member view m) \<longleftrightarrow> m \<noteq> Exit k p"
| "addressed k p _ \<longleftrightarrow> True"

definition told :: "kind \<Rightarrow> nat \<Rightarrow> broadcasting \<Rightarrow> item list" where
  "told k p y = (if is_ws k then po_told (bc_ws y (k, p)) else po_told (bc_hs y (k, p)))"

definition stays :: "kind \<Rightarrow> nat \<Rightarrow> broadcasting \<Rightarrow> bool" where
  "stays k p y \<longleftrightarrow> broadcasting_ok y \<and> p \<in> set (sessions (bc_state y) k) \<and> told k p y = bc_log y"

lemma told_delivered:
  assumes "delivers it mx S outs" and "(k, p) \<in> S"
  shows "told k p (fold deliver outs y) = told k p y @ [it]"
  using assms(2) by (simp add: deliver_delivers [OF assms(1)] told_def ws_sendAsync_def hs_sendAsync_def)

lemma deliver_state: "delivers it mx S outs \<Longrightarrow> bc_state (fold deliver outs y) = bc_state y \<and> bc_log (fold deliver outs y) = bc_log y"
  by (simp add: deliver_delivers)

lemma bc_step_stays:
  assumes stay: "stays k p y" and e: "addressed k p e" and N: "new_sessions_ok N" and run: "bc_step N e y = Inr y'"
  shows "stays k p y'"
proof -
  have ok: "broadcasting_ok y" and p: "p \<in> set (sessions (bc_state y) k)" and t: "told k p y = bc_log y"
    using stay by (simp_all add: stays_def)
  have r: "registers_ok (bc_state y)" using ok by (simp add: broadcasting_ok_def)
  have reg: "(k, p) \<in> registered (bc_state y)" using p by (simp add: registered_def)
  have "broadcasting_ok y'" using bc_step_ok [OF ok N, of e] run by simp
  moreover have "p \<in> set (sessions (bc_state y') k) \<and> told k p y' = bc_log y'"
  proof (cases e)
    case (Broadcast view it mx w tc)
    let ?b = "broadcast view it mx w tc (bc_state y)"
    let ?y = "y\<lparr>bc_state := fst ?b, bc_log := bc_log y @ [it]\<rparr>"
    have y': "y' = fold deliver (snd ?b) ?y" using run by (simp add: Broadcast split: prod.splits)
    note d = send_reaches_selected [OF r, where it = it and mx = mx and view = view and to_ws = w and to_tcp = tc]
    have "told k p (fold deliver (snd ?b) ?y) = told k p ?y @ [it]"
      using e reg by (intro told_delivered [OF d(1)]) (simp add: Broadcast)
    moreover have "told k p ?y = told k p y" by (simp add: told_def)
    ultimately show ?thesis using deliver_state [OF d(1), of ?y] d(2) p t by (simp add: y')
  next
    case (Sent_to view ep it mx)
    let ?b = "send_to view ep it mx (bc_state y)"
    let ?y = "y\<lparr>bc_state := fst ?b, bc_log := bc_log y @ [it]\<rparr>"
    have y': "y' = fold deliver (snd ?b) ?y" using run by (simp add: Sent_to split: prod.splits)
    note d = send_to_reaches_endpoint [OF r, where it = it and mx = mx and view = view and ep = ep]
    have "told k p (fold deliver (snd ?b) ?y) = told k p ?y @ [it]"
      using e reg by (intro told_delivered [OF d(1)]) (simp add: Sent_to)
    moreover have "told k p ?y = told k p y" by (simp add: told_def)
    ultimately show ?thesis using deliver_state [OF d(1), of ?y] d(2) p t by (simp add: y')
  next
    case (Member view m)
    then show ?thesis
    proof (cases m)
      case (Enter k' p')
      then show ?thesis using run p t Member
        by (auto simp: member_enter insert_session_def told_def split: if_splits)
    next
      case (Exit k' p')
      then show ?thesis using run p t Member e
        by (auto simp: member_exit erase_session_def told_def split: if_splits)
    qed
  next
    case (Ws_next i a)
    then show ?thesis
      using run p t wsq.strand_next_ok [OF broadcasting_ok_sessions(1) [OF ok, of i], of a]
      by (auto simp: told_def split: sum.splits)
  next
    case (Ws_done i a ec n)
    then show ?thesis
      using run p t wsq.strand_finish_ok [OF broadcasting_ok_sessions(1) [OF ok, of i], of a ec n]
      by (auto simp: told_def)
  next
    case (Hs_next i a)
    then show ?thesis
      using run p t hsq.strand_next_ok [OF broadcasting_ok_sessions(2) [OF ok, of i], of a]
      by (auto simp: told_def split: sum.splits)
  next
    case (Hs_done i a ec n)
    then show ?thesis
      using run p t hsq.strand_finish_ok [OF broadcasting_ok_sessions(2) [OF ok, of i], of a ec n]
      by (auto simp: told_def)
  qed
  ultimately show ?thesis by (simp add: stays_def)
qed

lemma bc_run_ok:
  assumes "broadcasting_ok y" and "new_sessions_ok N"
  shows "case bc_run N es y of Inl f \<Rightarrow> f = Bad_cast
     | Inr y' \<Rightarrow> broadcasting_ok y' \<and> (\<forall>k p. stays k p y \<longrightarrow> (\<forall>e \<in> set es. addressed k p e) \<longrightarrow> stays k p y')"
  using assms(1)
proof (induction es arbitrary: y)
  case (Cons e es)
  show ?case
  proof (cases "bc_step N e y")
    case (Inl f)
    then show ?thesis using bc_step_ok [OF Cons.prems assms(2), of e] by simp
  next
    case (Inr y1)
    then have "broadcasting_ok y1" using bc_step_ok [OF Cons.prems assms(2), of e] by simp
    from Cons.IH [OF this] bc_step_stays [OF _ _ assms(2) Inr] show ?thesis
      by (simp add: Inr split: sum.splits)
  qed
qed simp

section \<open>One order for all\<close>

text \<open>What a session has written, what is in its queue and what waits on its strand, against the messages sent and those it was told.\<close>

definition in_order :: "('s \<Rightarrow> item list) \<Rightarrow> item list \<Rightarrow> 's posting \<Rightarrow> bool" where
  "in_order queue sent s \<longleftrightarrow>
     (let r = po_run s; out = r_done r @ queue (r_state r) @ map fst (po_posted s)
      in subseq out sent \<and> filter it_force out = filter it_force (po_told s)
         \<and> mset (handlers (po_told s)) = mset (r_called r) + mset (handlers (queue (r_state r) @ map fst (po_posted s))))"

lemma in_order_ws: "posting_ok ws_queue sent s \<Longrightarrow> in_order ws_queue sent (s :: ws_session posting)"
  unfolding in_order_def Let_def using wsq.posting_order [of sent s] by blast

lemma in_order_hs: "posting_ok hs_send_queue sent s \<Longrightarrow> in_order hs_send_queue sent (s :: http_session posting)"
  unfolding in_order_def Let_def using hsq.posting_order [of sent s] by blast


text \<open>Two TCP sessions; the second writes its first message after both messages have been sent.\<close>

definition order_sessions :: new_sessions where
  "order_sessions = \<lparr>new_ws = (\<lambda>_. fst (ws_session_new 0 None)), new_hs = (\<lambda>_. http_session_new False)\<rparr>"

definition order_item :: "nat \<Rightarrow> item" where
  "order_item k = \<lparr>it_ptr = of_nat (64 * Suc k), it_size = 8, it_handler = Some k, it_force = True\<rparr>"

definition order_view :: "kind \<Rightarrow> nat \<Rightarrow> nat session_view" where
  "order_view k p = \<lparr>sv_endpoint = p, sv_owned = True, sv_queue_size = 0\<rparr>"

definition order_state :: shared_state where
  "order_state = (shared_state_new ''www'' (\<lambda>_. False) True 4)\<lparr>sessions := (\<lambda>k. if k = Http then [1, 2] else [])\<rparr>"

definition order_events :: "nat bc_event list" where
  "order_events = [Broadcast order_view (order_item 0) 2 False True, Hs_next (Http, 1) [],
     Hs_done (Http, 1) [] Success 8, Broadcast order_view (order_item 1) 2 False True,
     Hs_next (Http, 2) [], Hs_next (Http, 2) [], Hs_done (Http, 2) [] Success 8]"

lemma order_sendable: "sendable (order_item 0)" "sendable (order_item 1)" "sendable (order_item (Suc 0))"
  by (simp_all add: sendable_def order_item_def)

lemma order_run:
  "\<exists>y. bc_run order_sessions order_events (broadcasting_start order_sessions order_state) = Inr y
     \<and> bc_log y = [order_item 0, order_item 1]
     \<and> r_done (po_run (bc_hs y (Http, 1))) = [order_item 0] \<and> r_done (po_run (bc_hs y (Http, 2))) = [order_item 0]"
  by (simp add: order_events_def order_sessions_def broadcasting_start_def posting_new_def run_start_def
      order_state_def shared_state_new_def broadcast_def pool_selected_def send_pooled_def send_along_def order_view_def
      Let_def hs_sendAsync_def strand_next_def strand_finish_def hs_submit_def hs_complete_def hs_on_send_def hs_on_write2_def
      hs_with_def trim.simps [of 2 2] hs_start_def http_session_new_def notify_def order_sendable)


end
