(* ===== verification/Raw_Messages.thy ===== *)
theory Raw_Messages
  imports Http_Session
begin

text \<open>
  Messages over plain TCP (\<open>server_is_tcp_instead_of_http\<close>, \<^verbatim>\<open>Networking/src/http_session.cpp\<close>) with their bytes: each message is a header of
  fixed length, from which the user's callback tells the length of the body that follows. The handlers are those of
  \<open>Http_Session\<close>; here they run on the bytes of a connection, which arrive in pieces of any size.
\<close>

section \<open>Buffer and stream\<close>

type_synonym byte = "8 word"

text \<open>\<open>std::vector::resize\<close>: new places are zero. Reading overwrites a part of the buffer.\<close>

definition resize :: "nat \<Rightarrow> byte list \<Rightarrow> byte list" where
  "resize n bs = take n bs @ replicate (n - length bs) 0"

definition overwrite :: "nat \<Rightarrow> byte list \<Rightarrow> byte list \<Rightarrow> byte list" where
  "overwrite off d bs = take off bs @ d @ drop (off + length d) bs"

lemma length_resize [simp]: "length (resize n bs) = n"
  by (simp add: resize_def)

lemma take_resize: "n \<le> length bs \<Longrightarrow> n \<le> m \<Longrightarrow> take n (resize m bs) = take n bs"
  by (simp add: resize_def min_def)

lemma overwrite_facts:
  assumes "off + length d \<le> length bs"
  shows "length (overwrite off d bs) = length bs"
    and "take (off + length d) (overwrite off d bs) = take off bs @ d"
  using assms by (simp_all add: overwrite_def min_absorb2)

section \<open>A connection\<close>

text \<open>
  The read under way (offset and length) and its handler, the bytes that have arrived and have not been read, the messages
  delivered to the user, and what the callback for the length of the body was given.
\<close>

datatype raw_handler = On_header | On_body size_t

record raw_connection =
  rw_session :: http_session
  rw_bytes :: "byte list"
  rw_read :: "(size_t \<times> size_t) option"
  rw_handler :: raw_handler
  rw_stream :: "byte list"
  rw_delivered :: "byte list list"
  rw_asked :: "byte list list"

text \<open>The effects of a handler: a message is handed over as it is in the buffer, and then the buffer may grow.\<close>

fun raw_effect :: "http_effect \<Rightarrow> raw_connection \<Rightarrow> raw_connection" where
  "raw_effect (Read_raw off len) y = y\<lparr>rw_read := Some (off, len)\<rparr>"
| "raw_effect (Deliver_raw n) y = y\<lparr>rw_delivered := rw_delivered y @ [take (unat n) (rw_bytes y)]\<rparr>"
| "raw_effect _ y = y"

definition raw_react :: "raw_handler \<Rightarrow> http_session \<Rightarrow> http_effect list \<Rightarrow> raw_connection \<Rightarrow> raw_connection" where
  "raw_react h s es y =
     (let y' = fold raw_effect es (y\<lparr>rw_session := s, rw_read := None, rw_handler := h\<rparr>)
      in y'\<lparr>rw_bytes := resize (unat (hs_buffer s)) (rw_bytes y')\<rparr>)"

definition raw_start :: "size_t \<Rightarrow> raw_connection" where
  "raw_start header =
     (case hs_do_read (Some header) (http_session_new True) of
        (s, es) \<Rightarrow> raw_react On_header s es
          \<lparr>rw_session = s, rw_bytes = [], rw_read = None, rw_handler = On_header, rw_stream = [], rw_delivered = [], rw_asked = []\<rparr>)"

text \<open>
  The read under way completes when all its bytes are there; a read beyond the end of the buffer is undefined. The callback is
  given the whole buffer.
\<close>

definition raw_complete :: "size_t \<Rightarrow> (byte list \<Rightarrow> size_t) \<Rightarrow> raw_connection \<Rightarrow> raw_connection result" where
  "raw_complete header cb y =
     (case rw_read y of
        None \<Rightarrow> Inr y
      | Some (off, len) \<Rightarrow>
          if length (rw_stream y) < unat len then Inr y
          else if length (rw_bytes y) < unat off + unat len then Inl Out_of_bounds
          else
            let bs = overwrite (unat off) (take (unat len) (rw_stream y)) (rw_bytes y);
                y' = y\<lparr>rw_bytes := bs, rw_stream := drop (unat len) (rw_stream y)\<rparr>
            in case rw_handler y of
                 On_header \<Rightarrow>
                   (case on_nonhttp_read_header header (Some (cb bs)) Success (rw_session y) of
                      Inl e \<Rightarrow> Inl e
                    | Inr (s, es) \<Rightarrow> Inr (raw_react (On_body (cb bs)) s es (y'\<lparr>rw_asked := rw_asked y @ [bs]\<rparr>)))
               | On_body n \<Rightarrow>
                   (case on_nonhttp_read_body (Some header) header n Success len (rw_session y) of
                      Inl e \<Rightarrow> Inl e
                    | Inr (s, es) \<Rightarrow> Inr (raw_react On_header s es y')))"

datatype raw_event = Arrive "byte list" | Complete

fun raw_step :: "size_t \<Rightarrow> (byte list \<Rightarrow> size_t) \<Rightarrow> raw_event \<Rightarrow> raw_connection \<Rightarrow> raw_connection result" where
  "raw_step header cb (Arrive bs) y = Inr (y\<lparr>rw_stream := rw_stream y @ bs\<rparr>)"
| "raw_step header cb Complete y = raw_complete header cb y"

fun raw_run :: "size_t \<Rightarrow> (byte list \<Rightarrow> size_t) \<Rightarrow> raw_event list \<Rightarrow> raw_connection \<Rightarrow> raw_connection result" where
  "raw_run header cb [] y = Inr y"
| "raw_run header cb (e # es) y = (case raw_step header cb e y of Inl f \<Rightarrow> Inl f | Inr y' \<Rightarrow> raw_run header cb es y')"

fun arrived :: "raw_event list \<Rightarrow> byte list" where
  "arrived [] = []"
| "arrived (Arrive bs # es) = bs @ arrived es"
| "arrived (Complete # es) = arrived es"

section \<open>The messages of the peer\<close>

text \<open>
  Messages as a correct peer sends them: the header has its length, the callback finds the length of the body in it whatever
  follows in the buffer, and the whole fits into the address space.
\<close>

type_synonym frame = "byte list \<times> byte list"

definition frame_ok :: "size_t \<Rightarrow> (byte list \<Rightarrow> size_t) \<Rightarrow> frame \<Rightarrow> bool" where
  "frame_ok header cb f \<longleftrightarrow>
     (case f of (h, b) \<Rightarrow> length h = unat header \<and> unat header + length b < 2 ^ 64 \<and> (\<forall>rest. cb (h @ rest) = of_nat (length b)))"

definition message :: "frame \<Rightarrow> byte list" where
  "message f = fst f @ snd f"

definition bytes_of :: "frame list \<Rightarrow> byte list" where
  "bytes_of fs = concat (map message fs)"

lemma bytes_of_simps [simp]:
  "bytes_of [] = []"
  "bytes_of (f # fs) = message f @ bytes_of fs"
  "bytes_of (fs @ gs) = bytes_of fs @ bytes_of gs"
  by (simp_all add: bytes_of_def)

text \<open>
  The state while the frames \<open>fs\<close> are being received and \<open>got\<close> bytes of them have arrived: \<open>past\<close> are those delivered, and the
  callback has been given their headers, and that of the next one when its body is being read.
\<close>

definition receiving_after :: "size_t \<Rightarrow> frame list \<Rightarrow> frame list \<Rightarrow> byte list \<Rightarrow> raw_connection \<Rightarrow> bool" where
  "receiving_after header past rest got y \<longleftrightarrow>
     hs_has_state (rw_session y) \<and> length (rw_bytes y) = unat (hs_buffer (rw_session y)) \<and> unat header \<le> length (rw_bytes y)
     \<and> rw_delivered y = map message past
     \<and> (case rw_handler y of
          On_header \<Rightarrow> rw_read y = Some (0, header) \<and> got = bytes_of past @ rw_stream y
            \<and> map (take (unat header)) (rw_asked y) = map fst past
        | On_body n \<Rightarrow> (\<exists>h b later. rest = (h, b) # later \<and> n = of_nat (length b) \<and> rw_read y = Some (header, n)
              \<and> take (unat header) (rw_bytes y) = h \<and> unat header + length b \<le> length (rw_bytes y)
              \<and> got = bytes_of past @ h @ rw_stream y
              \<and> map (take (unat header)) (rw_asked y) = map fst past @ [h]))"

definition receiving :: "size_t \<Rightarrow> frame list \<Rightarrow> byte list \<Rightarrow> raw_connection \<Rightarrow> bool" where
  "receiving header fs got y \<longleftrightarrow> (\<exists>past rest. fs = past @ rest \<and> receiving_after header past rest got y)"

lemma resize_same: "resize (length bs) bs = bs"
  by (simp add: resize_def)

lemma receiving_start: "receiving header fs [] (raw_start header)"
  unfolding receiving_def
  by (rule exI [of _ "[]"])
    (auto simp: receiving_after_def raw_start_def raw_react_def hs_do_read_def http_session_new_def word_le_nat_alt not_less)

lemma receiving_arrive: "receiving_after header past rest got y \<Longrightarrow>
    receiving_after header past rest (got @ bs) (y\<lparr>rw_stream := rw_stream y @ bs\<rparr>)"
  by (cases "rw_handler y") (auto simp: receiving_after_def)

lemma raw_react_handler [simp]: "rw_handler (raw_react h s es y) = h"
proof -
  have e: "rw_handler (raw_effect x z) = rw_handler z" for x z by (cases x) simp_all
  have "rw_handler (fold raw_effect es z) = rw_handler z" for z by (induction es arbitrary: z) (simp_all add: e)
  then show ?thesis by (simp add: raw_react_def Let_def)
qed

text \<open>The header of the next frame is complete: its body is read next.\<close>

lemma receiving_header:
  assumes r: "receiving_after header past ((h, b) # later) got y" and hd: "rw_handler y = On_header"
    and f: "frame_ok header cb (h, b)" and st: "rw_stream y = h @ tail"
  shows "\<exists>y'. raw_complete header cb y = Inr y' \<and> receiving_after header past ((h, b) # later) got y' \<and> rw_handler y' = On_body (of_nat (length b))"
proof -
  have o: "hs_has_state (rw_session y)" "length (rw_bytes y) = unat (hs_buffer (rw_session y))"
    "unat header \<le> length (rw_bytes y)" "rw_delivered y = map message past" "rw_read y = Some (0, header)"
    "got = bytes_of past @ rw_stream y" "map (take (unat header)) (rw_asked y) = map fst past"
    using r hd by (simp_all add: receiving_after_def)
  have fr: "length h = unat header" "unat header + length b < 2 ^ 64" "\<And>q. cb (h @ q) = of_nat (length b)"
    using f by (simp_all add: frame_ok_def)
  define bs where "bs = overwrite 0 h (rw_bytes y)"
  have bs: "length bs = length (rw_bytes y)" "take (unat header) bs = h"
    using overwrite_facts [of 0 h "rw_bytes y"] o(3) fr(1) by (simp_all add: bs_def)
  then have "bs = h @ drop (unat header) bs" by (metis append_take_drop_id)
  then have cb: "cb bs = of_nat (length b)" using fr(3) by metis
  have ub: "unat (of_nat (length b) :: size_t) = length b" using fr(2) by (simp add: unat_of_nat)
  have total: "unat (of_nat (length b) + header) = unat header + length b"
    using fr(2) ub by (subst unat_add_lt) simp_all
  define s where "s = (if hs_buffer (rw_session y) < of_nat (length b) + header
     then (rw_session y)\<lparr>hs_buffer := of_nat (length b) + header\<rparr> else rw_session y)"
  have s: "hs_has_state s" "unat (hs_buffer s) = max (length bs) (unat header + length b)"
    using o(1,2) total bs(1) by (auto simp: s_def word_less_nat_alt max_def)
  let ?n = "of_nat (length b) :: size_t"
  let ?y = "raw_react (On_body ?n) s [Read_raw header ?n] (y\<lparr>rw_bytes := bs, rw_stream := tail, rw_asked := rw_asked y @ [bs]\<rparr>)"
  have "raw_complete header cb y = Inr ?y"
    using o st fr(1) cb by (simp add: raw_complete_def hd bs_def [symmetric] on_nonhttp_read_header_def s_def Let_def)
  moreover have "receiving_after header past ((h, b) # later) got ?y"
    using o st s bs fr(1) by (simp add: receiving_after_def raw_react_def take_resize)
  moreover have "rw_handler ?y = On_body ?n" by simp
  ultimately show ?thesis by blast
qed

text \<open>The body is complete: the message is delivered, and the next header is read.\<close>

lemma receiving_body:
  assumes r: "receiving_after header past ((h, b) # later) got y" and hd: "rw_handler y = On_body n"
    and f: "frame_ok header cb (h, b)" and st: "rw_stream y = b @ tail"
  shows "\<exists>y'. raw_complete header cb y = Inr y' \<and> receiving_after header (past @ [(h, b)]) later got y' \<and> rw_handler y' = On_header"
proof -
  have o: "hs_has_state (rw_session y)" "length (rw_bytes y) = unat (hs_buffer (rw_session y))"
    "rw_delivered y = map message past" "n = of_nat (length b)" "rw_read y = Some (header, n)"
    "take (unat header) (rw_bytes y) = h" "unat header + length b \<le> length (rw_bytes y)"
    "got = bytes_of past @ h @ rw_stream y" "map (take (unat header)) (rw_asked y) = map fst past @ [h]"
    using r hd by (auto simp: receiving_after_def)
  have fr: "length h = unat header" "unat header + length b < 2 ^ 64"
    using f by (simp_all add: frame_ok_def)
  have un: "unat n = length b" using fr(2) by (simp add: o(4) unat_of_nat)
  have total: "unat (header + n) = unat header + length b" using fr(2) un by (subst unat_add_lt) simp_all
  define bs where "bs = overwrite (unat header) b (rw_bytes y)"
  have bs: "length bs = length (rw_bytes y)" "take (unat header + length b) bs = h @ b"
    using overwrite_facts [of "unat header" b "rw_bytes y"] o(6,7) by (simp_all add: bs_def)
  have big: "\<not> hs_buffer (rw_session y) < header + n" "\<not> hs_buffer (rw_session y) < header"
    using total o(2,7) by (simp_all add: word_less_nat_alt)
  let ?y = "raw_react On_header (rw_session y) [Deliver_raw (header + n), Read_raw 0 header] (y\<lparr>rw_bytes := bs, rw_stream := tail\<rparr>)"
  have "raw_complete header cb y = Inr ?y"
    using o(1,2,5,7) st un big
    by (simp add: raw_complete_def hd bs_def [symmetric] on_nonhttp_read_body_def hs_do_read_def Let_def)
  moreover have "receiving_after header (past @ [(h, b)]) later got ?y"
    using o bs st total resize_same [of bs]
    by (simp add: receiving_after_def raw_react_def message_def)
  moreover have "rw_handler ?y = On_header" by simp
  ultimately show ?thesis by blast
qed

definition raw_waits :: "raw_connection \<Rightarrow> bool" where
  "raw_waits y \<longleftrightarrow> (case rw_read y of None \<Rightarrow> True | Some (off, len) \<Rightarrow> length (rw_stream y) < unat len)"

lemma raw_complete_waits: "raw_waits y \<Longrightarrow> raw_complete header cb y = Inr y"
  by (auto simp: raw_waits_def raw_complete_def split: option.splits)

text \<open>How many reads are left.\<close>

definition left :: "frame list \<Rightarrow> raw_connection \<Rightarrow> nat" where
  "left rest y = 2 * length rest - (case rw_handler y of On_header \<Rightarrow> 0 | On_body n \<Rightarrow> 1)"

text \<open>With the bytes of the frames on the stream, in pieces of any size, a read waits for more of them, or completes.\<close>

lemma receiving_complete:
  assumes ra: "receiving_after header past rest got y" and p: "prefix got (bytes_of (past @ rest))"
    and fs: "\<forall>f \<in> set (past @ rest). frame_ok header cb f" and pos: "0 < header" and go: "\<not> raw_waits y"
  shows "\<exists>y' past' rest'. raw_complete header cb y = Inr y' \<and> past @ rest = past' @ rest'
     \<and> receiving_after header past' rest' got y' \<and> left rest' y' < left rest y"
proof (cases "rw_handler y")
  case On_header
  then have read: "rw_read y = Some (0, header)" "got = bytes_of past @ rw_stream y" using ra by (simp_all add: receiving_after_def)
  then have pr: "prefix (rw_stream y) (bytes_of rest)" using p by simp
  have len: "unat header \<le> length (rw_stream y)" using go read(1) by (simp add: raw_waits_def)
  then have "rw_stream y \<noteq> []" using pos by (auto simp: word_less_nat_alt)
  then obtain h b later where rest: "rest = (h, b) # later" using pr by (cases rest) auto
  have f: "frame_ok header cb (h, b)" using fs by (simp add: rest)
  then have "length h \<le> length (rw_stream y)" using len by (simp add: frame_ok_def)
  moreover have "prefix h (bytes_of rest)" by (simp add: rest message_def)
  ultimately have "prefix h (rw_stream y)" using pr prefix_length_prefix by blast
  then obtain tail where "rw_stream y = h @ tail" by (auto simp: prefix_def)
  from receiving_header [OF ra [unfolded rest] On_header f this] obtain y' where
    y': "raw_complete header cb y = Inr y'" "receiving_after header past rest got y'" "rw_handler y' = On_body (of_nat (length b))"
    unfolding rest by blast
  have "left rest y' < left rest y" using On_header y'(3) by (simp add: left_def rest)
  with y'(1,2) show ?thesis by blast
next
  case (On_body n)
  then obtain h b later where b: "rest = (h, b) # later" "n = of_nat (length b)" "rw_read y = Some (header, n)"
    "got = bytes_of past @ h @ rw_stream y"
    using ra by (auto simp: receiving_after_def)
  have f: "frame_ok header cb (h, b)" using fs by (simp add: b(1))
  then have un: "unat n = length b" by (simp add: frame_ok_def b(2) unat_of_nat)
  have pr: "prefix (rw_stream y) (b @ bytes_of later)" using p by (simp add: b(1,4) message_def)
  have "length b \<le> length (rw_stream y)" using go b(3) un by (simp add: raw_waits_def)
  then have "prefix b (rw_stream y)" using prefix_length_prefix [OF _ pr, of b] by simp
  then obtain tail where "rw_stream y = b @ tail" by (auto simp: prefix_def)
  from receiving_body [OF ra [unfolded b(1)] On_body f this] obtain y' where
    y': "raw_complete header cb y = Inr y'" "receiving_after header (past @ [(h, b)]) later got y'" "rw_handler y' = On_header"
    by blast
  have "left later y' < left rest y" using On_body y'(3) by (simp add: left_def b(1))
  with y'(1,2) show ?thesis by (simp add: b(1)) (metis append.assoc append_Cons append_Nil)
qed

lemma receiving_step:
  assumes r: "receiving header fs got y" and p: "prefix got (bytes_of fs)"
    and fs: "\<forall>f \<in> set fs. frame_ok header cb f" and pos: "0 < header"
  shows "\<exists>y'. raw_complete header cb y = Inr y' \<and> receiving header fs got y'"
proof (cases "raw_waits y")
  case True
  then show ?thesis using raw_complete_waits r by blast
next
  case False
  obtain past rest where "fs = past @ rest" "receiving_after header past rest got y" using r by (auto simp: receiving_def)
  with receiving_complete [OF this(2) _ _ pos False] p fs show ?thesis unfolding receiving_def by fastforce
qed

lemma receiving_run:
  assumes "receiving header fs got y" and "prefix (got @ arrived es) (bytes_of fs)"
    and "\<forall>f \<in> set fs. frame_ok header cb f" and "0 < header"
  shows "\<exists>y'. raw_run header cb es y = Inr y' \<and> receiving header fs (got @ arrived es) y'"
  using assms(1,2)
proof (induction es arbitrary: got y)
  case (Cons e es)
  show ?case
  proof (cases e)
    case (Arrive bs)
    have "receiving header fs (got @ bs) (y\<lparr>rw_stream := rw_stream y @ bs\<rparr>)"
      using Cons.prems(1) receiving_arrive unfolding receiving_def by blast
    from Cons.IH [OF this] Cons.prems(2) Arrive show ?thesis by simp
  next
    case Complete
    have "prefix got (bytes_of fs)" using Cons.prems(2) by (meson append_prefixD)
    from receiving_step [OF Cons.prems(1) this assms(3,4)] Cons.IH Cons.prems(2) show ?thesis
      by (auto simp: Complete)
  qed
qed simp

text \<open>When a read waits, every frame that has arrived completely has been delivered.\<close>

lemma receiving_waits:
  assumes "receiving_after header past rest got y" and "raw_waits y" and "\<forall>f \<in> set rest. frame_ok header cb f"
  shows "rest = [] \<or> length got < length (bytes_of (past @ [hd rest]))"
proof (cases rest)
  case (Cons f later)
  obtain h b where f: "f = (h, b)" by fastforce
  have fr: "length h = unat header" "unat header + length b < 2 ^ 64" using assms(3) by (simp_all add: Cons f frame_ok_def)
  then have "unat (of_nat (length b) :: size_t) = length b" by (simp add: unat_of_nat)
  then show ?thesis
    using assms(1,2) fr(1) by (cases "rw_handler y") (auto simp: receiving_after_def raw_waits_def Cons f message_def)
qed simp

text \<open>Reads complete as long as there are bytes: after at most two for each frame the next one waits.\<close>

lemma receiving_drains:
  assumes "receiving_after header past rest got y" and "prefix got (bytes_of (past @ rest))"
    and "\<forall>f \<in> set (past @ rest). frame_ok header cb f" and "0 < header" and "left rest y \<le> n"
  shows "\<exists>y'. raw_run header cb (replicate n Complete) y = Inr y' \<and> raw_waits y'"
  using assms
proof (induction n arbitrary: past rest y)
  case 0
  have "raw_waits y" using receiving_complete [OF 0(1-4)] 0(5) by fastforce
  then show ?case by simp
next
  case (Suc n)
  show ?case
  proof (cases "raw_waits y")
    case True
    have "raw_run header cb (replicate m Complete) y = Inr y" for m
      by (induction m) (simp_all add: raw_complete_waits [OF True])
    then show ?thesis using True by blast
  next
    case False
    from receiving_complete [OF Suc.prems(1-4) False] obtain y' past' rest' where
      y': "raw_complete header cb y = Inr y'" "past @ rest = past' @ rest'" "receiving_after header past' rest' got y'"
        "left rest' y' < left rest y" by blast
    have "prefix got (bytes_of (past' @ rest'))" "\<forall>f \<in> set (past' @ rest'). frame_ok header cb f"
      using Suc.prems(2,3) unfolding y'(2) by blast+
    moreover have "left rest' y' \<le> n" using y'(4) Suc.prems(5) by linarith
    ultimately show ?thesis using Suc.IH [OF y'(3) _ _ Suc.prems(4)] y'(1) by simp
  qed
qed

text \<open>
  C16. Messages over plain TCP: when a peer sends messages with a header of fixed length from which the callback tells the length of
  the body, then in whatever pieces the bytes arrive and whenever the reads complete, nothing is read outside the buffer, the messages
  delivered are the first ones sent, each one whole, in order and once, the callback is given the header of each of them once (and
  that of the message whose body is being read), and reads go on until every message that has arrived completely is delivered.
\<close>

theorem raw_messages_delivered:
  assumes "\<forall>f \<in> set fs. frame_ok header cb f" and "0 < header" and "prefix (arrived es) (bytes_of fs)"
  shows "\<exists>y k. raw_run header cb es (raw_start header) = Inr y \<and> k \<le> length fs \<and> rw_delivered y = map message (take k fs)
     \<and> (\<exists>j \<in> {k, Suc k}. map (take (unat header)) (rw_asked y) = map fst (take j fs))
     \<and> (raw_waits y \<longrightarrow> k = length fs \<or> length (arrived es) < length (bytes_of (take (Suc k) fs)))
     \<and> (\<exists>y'. raw_run header cb (replicate (2 * length fs) Complete) y = Inr y' \<and> raw_waits y')"
proof -
  from receiving_run [OF receiving_start, of es fs header cb] assms obtain y where
    y: "raw_run header cb es (raw_start header) = Inr y" "receiving header fs (arrived es) y" by auto
  obtain past rest where f: "fs = past @ rest" and r: "receiving_after header past rest (arrived es) y"
    using y(2) by (auto simp: receiving_def)
  have asked: "\<exists>j \<in> {length past, Suc (length past)}. map (take (unat header)) (rw_asked y) = map fst (take j fs)"
    using r by (cases "rw_handler y") (auto simp: receiving_after_def f)
  have waits: "length past = length fs \<or> length (arrived es) < length (bytes_of (take (Suc (length past)) fs))" if "raw_waits y"
    using receiving_waits [OF r that, of cb] assms(1) by (cases rest) (auto simp: f)
  have "left rest y \<le> 2 * length fs" by (simp add: left_def f)
  then have "\<exists>y'. raw_run header cb (replicate (2 * length fs) Complete) y = Inr y' \<and> raw_waits y'"
    using receiving_drains [OF r _ _ assms(2)] assms(1,3) by (simp add: f)
  moreover have "rw_delivered y = map message (take (length past) fs)" using r by (simp add: receiving_after_def f)
  ultimately show ?thesis using y(1) asked waits by (intro exI [of _ y] exI [of _ "length past"]) (simp add: f)
qed

section \<open>An example, and what the callback sees\<close>

text \<open>A header of one byte which says how long the body is.\<close>

definition byte_length :: "byte list \<Rightarrow> size_t" where
  "byte_length bs = (case bs of [] \<Rightarrow> 0 | b # _ \<Rightarrow> ucast b)"

definition two_frames :: "frame list" where
  "two_frames = [([2], [10, 11]), ([0], [])]"

definition pieces :: "raw_event list" where
  "pieces = [Arrive [2], Complete, Complete, Arrive [10], Complete, Arrive [11, 0], Complete, Complete]"

lemma two_frames_ok: "\<forall>f \<in> set two_frames. frame_ok 1 byte_length f"
  by (simp add: two_frames_def frame_ok_def byte_length_def)

lemma raw_messages_delivered_witness:
  "\<exists>y k. raw_run 1 byte_length pieces (raw_start 1) = Inr y \<and> rw_delivered y = map message (take k two_frames)"
proof -
  have "prefix (arrived pieces) (bytes_of two_frames)" by (simp add: pieces_def two_frames_def message_def)
  from raw_messages_delivered [OF two_frames_ok _ this] show ?thesis by auto
qed

text \<open>
  The callback is given the size of the buffer, not of the header: of a second message it sees, behind the header, bytes of the first.
\<close>

lemma callback_sees_old_bytes:
  "\<exists>y. raw_run 1 byte_length pieces (raw_start 1) = Inr y \<and> rw_delivered y = [[2, 10, 11]]
     \<and> rw_asked y = [[2], [0, 10, 11]]"
  by (simp add: pieces_def raw_start_def hs_do_read_def http_session_new_def raw_react_def resize_def raw_complete_def overwrite_def
      byte_length_def on_nonhttp_read_header_def on_nonhttp_read_body_def Let_def)

end
