(* ===== verification/Ws_Factory.thy ===== *)
theory Ws_Factory
  imports Ws_Connect
begin

text \<open>
  How WebSocket sessions are made (\<^verbatim>\<open>Networking/src/websocket_session.hpp\<close>, \<^verbatim>\<open>websocket_session.cpp\<close>): the four factory functions, for
  clients and for servers, plain and TLS, and the constructors they call. A factory for a server sets the session going; for a client the
  caller does (\<open>MultiClientReceiver::ConnectToServer\<close>).
\<close>

section \<open>The constructors\<close>

text \<open>What a session takes from the shared state.\<close>

record ws_state =
  st_tracker :: "tracker option"
  st_enforcer_args :: args
  st_timeouts :: timeout_settings
  st_message_max :: nat

definition state_rates :: "ws_state option \<Rightarrow> (tracker option \<times> args) option" where
  "state_rates st = map_option (\<lambda>s. (st_tracker s, st_enforcer_args s)) st"

definition config_of :: "bool \<Rightarrow> timeout_params \<Rightarrow> ws_state option \<Rightarrow> string \<Rightarrow> nat \<Rightarrow> ws_config" where
  "config_of ssl sugg st address port =
     \<lparr>is_ssl = ssl, serverAddress = address, serverPort = port, suggested = sugg, state_timeouts = map_option st_timeouts st,
      message_max = (case st of None \<Rightarrow> 0 | Some s \<Rightarrow> st_message_max s)\<rparr>"

text \<open>A session: its settings, its state, and the tracker it registered with. Address and port are those a client connects to.\<close>

type_synonym made_session = "ws_config \<times> ws_session \<times> tracker option"

definition plain_session_of_stream :: "rat \<Rightarrow> timeout_params \<Rightarrow> ws_state option \<Rightarrow> made_session" where
  "plain_session_of_stream now sugg st = (config_of False sugg st [] 0, ws_session_new now (state_rates st))"

definition plain_session_to :: "rat \<Rightarrow> timeout_params \<Rightarrow> ws_state option \<Rightarrow> string \<Rightarrow> nat \<Rightarrow> made_session" where
  "plain_session_to now sugg st address port = (config_of False sugg st address port, ws_session_new now (state_rates st))"

definition ssl_session_of_stream :: "rat \<Rightarrow> timeout_params \<Rightarrow> ws_state option \<Rightarrow> made_session" where
  "ssl_session_of_stream now sugg st = (config_of True sugg st [] 0, ws_session_new now (state_rates st))"

definition ssl_session_to :: "rat \<Rightarrow> timeout_params \<Rightarrow> ws_state option \<Rightarrow> string \<Rightarrow> nat \<Rightarrow> made_session" where
  "ssl_session_to now sugg st address port = (config_of True sugg st address port, ws_session_new now (state_rates st))"

section \<open>The factories\<close>

definition make_plain_client :: "rat \<Rightarrow> timeout_params \<Rightarrow> ws_state option \<Rightarrow> string \<Rightarrow> nat \<Rightarrow> made_session" where
  "make_plain_client now sugg st address port = plain_session_to now sugg st address port"

definition make_ssl_client :: "rat \<Rightarrow> timeout_params \<Rightarrow> ws_state option \<Rightarrow> string \<Rightarrow> nat \<Rightarrow> made_session" where
  "make_ssl_client now sugg st address port = ssl_session_to now sugg st address port"

definition start_session :: "role \<Rightarrow> made_session \<Rightarrow> ws_connection" where
  "start_session r m = (case m of (K, s, T) \<Rightarrow> conn_start r K s)"

definition make_plain_server :: "rat \<Rightarrow> timeout_params \<Rightarrow> ws_state option \<Rightarrow> ws_connection" where
  "make_plain_server now sugg st = start_session Server (plain_session_of_stream now sugg st)"

definition make_ssl_server :: "rat \<Rightarrow> timeout_params \<Rightarrow> ws_state option \<Rightarrow> ws_connection" where
  "make_ssl_server now sugg st = start_session Server (ssl_session_of_stream now sugg st)"

lemmas factory_defs = plain_session_of_stream_def plain_session_to_def ssl_session_of_stream_def ssl_session_to_def
  make_plain_client_def make_ssl_client_def make_plain_server_def make_ssl_server_def start_session_def config_of_def

section \<open>What a client dials\<close>

lemma conn_log_grows:
  assumes "conn_reachable K c0 c"
  shows "prefix (wc_log c0) (wc_log c)"
  using assms
proof induction
  case (step c c')
  from step(2) have "\<exists>es. wc_log c' = wc_log c @ es" by cases (auto simp: react_def)
  then show ?case using step.IH by (auto intro: prefix_order.trans)
qed simp

text \<open>
  A client that has been made for an address and a port and set running, plain or TLS, begins by resolving just these, goes through the set-up in
  order, and is registered with the shared state at most once, when it starts to read.
\<close>

lemma client_dials:
  assumes K: "(K, s, T) = make_plain_client now sugg st address port \<or> (K, s, T) = make_ssl_client now sugg st address port"
    and c: "conn_reachable K (start_session Client (K, s, T)) c"
  shows "prefix [Async_resolve address (show_nat port)] (wc_log c)"
    and "\<exists>k. prefix (operations (wc_log c)) (setup_ops Client K @ replicate k Read)"
    and "upgrades (wc_log c) \<le> 1"
proof -
  have s: "fst (ws_session_new now (state_rates st)) = s" and a: "serverAddress K = address" "serverPort K = port"
    using K by (auto simp: factory_defs) (metis fst_conv)+
  have start: "start_session Client (K, s, T) = conn_start Client K (fst (ws_session_new now (state_rates st)))"
    by (simp add: start_session_def s)
  have "wc_log (start_session Client (K, s, T)) = [Async_resolve address (show_nat port)]"
    by (simp add: start_session_def conn_start_def RunClient_def a Let_def)
  with conn_log_grows [OF c] show "prefix [Async_resolve address (show_nat port)] (wc_log c)" by simp
  note o = set_up_in_order [OF c [unfolded start]]
  show "\<exists>k. prefix (operations (wc_log c)) (setup_ops Client K @ replicate k Read)" using o by blast
  show "upgrades (wc_log c) \<le> 1" using o by (auto split: if_splits)
qed

text \<open>A session of a server waits for the handshake of its client, with the timeouts of the shared state set.\<close>

lemma server_accepts:
  "wc_pending (make_plain_server now sugg st) = Some Ws_accept"
  "wc_pending (make_ssl_server now sugg st) = Some Ws_accept"
  by (simp_all add: factory_defs conn_start_def runServer_def operations_def first_op_def ws_session_new_def split: prod.splits)

end
