(* ===== verification/Topic_Client.thy ===== *)
theory Topic_Client
  imports Topic_Message Send_Queue "HOL-Library.AList"
begin

text \<open>
  \<^verbatim>\<open>Networking/src/MultiClientReceiver.hpp\<close>: a receiver listens for announcements of topics
  and keeps one WebSocket client per topic and server. The constructor of
  \<^verbatim>\<open>Networking/src/MultiClientSender.hpp\<close>, which decides on the ports announced, is here too.

  A client session is known by a number, and whether it is still owned (so that locking a weak pointer to
  it succeeds) is an argument of the operations. The tables are \<open>unordered_map\<close>s: association lists, whose order
  means nothing. The \<open>operator[]\<close> of a table inserts an empty entry for a key that is not there.
\<close>

section \<open>State\<close>

record receiver_args =
  permitLoopback :: bool
  useSSL :: bool

text \<open>An endpoint: the textual form of its address, and its port.\<close>

type_synonym endpoint = "string \<times> nat"

record receiver =
  topicStates :: "(string \<times> nat option) list"
  clients :: "(string \<times> nat option) list"
  clientsSSL :: "(string \<times> nat option) list"
  rc_args :: receiver_args
  uniqueInstanceID :: "64 word"

definition receiver_new :: "(string \<times> nat option) list \<Rightarrow> receiver_args \<Rightarrow> 64 word \<Rightarrow> receiver" where
  "receiver_new states a ident =
     \<lparr>topicStates = states, clients = [], clientsSSL = [], rc_args = a, uniqueInstanceID = ident\<rparr>"

definition EndpointToString :: "endpoint \<Rightarrow> string" where
  "EndpointToString ep = fst ep @ '':'' @ show_nat (snd ep)"

definition UniqueClientName :: "string \<Rightarrow> endpoint \<Rightarrow> string" where
  "UniqueClientName topic ep = ''__'' @ topic @ ''__'' @ EndpointToString ep"

text \<open>\<open>table[key]\<close>: the entry, and the table in which it exists.\<close>

definition entry :: "string \<Rightarrow> (string \<times> nat option) list \<Rightarrow> nat option \<times> (string \<times> nat option) list" where
  "entry k tab = (case map_of tab k of None \<Rightarrow> (None, AList.update k None tab) | Some v \<Rightarrow> (v, tab))"

text \<open>\<open>lock()\<close> of a weak pointer.\<close>

definition lock :: "(nat \<Rightarrow> bool) \<Rightarrow> nat option \<Rightarrow> nat option" where
  "lock owned w = (case w of None \<Rightarrow> None | Some p \<Rightarrow> if owned p then Some p else None)"

section \<open>Connecting\<close>

text \<open>
  \<open>fresh\<close> is the session that \<open>make_websocket_session_client\<close> makes. The result: whether a client was created
  (and set running), and the receiver.
\<close>

definition ConnectToServer :: "(nat \<Rightarrow> bool) \<Rightarrow> nat \<Rightarrow> string \<Rightarrow> endpoint \<Rightarrow> receiver \<Rightarrow> bool \<times> receiver" where
  "ConnectToServer owned fresh topic ep r =
     (let (state, states) = entry topic (topicStates r);
          r1 = r\<lparr>topicStates := states\<rparr>;
          name = UniqueClientName topic ep
      in if state = None then (False, r1)
         else if useSSL (rc_args r)
         then (let (w, tab) = entry name (clientsSSL r1)
               in if lock owned w \<noteq> None then (False, r1\<lparr>clientsSSL := tab\<rparr>)
                  else (True, r1\<lparr>clientsSSL := AList.update name (Some fresh) tab\<rparr>))
         else (let (w, tab) = entry name (clients r1)
               in if lock owned w \<noteq> None then (False, r1\<lparr>clients := tab\<rparr>)
                  else (True, r1\<lparr>clients := AList.update name (Some fresh) tab\<rparr>)))"

text \<open>What a broadcast leads to: nothing, or an attempt to connect, with its topic and endpoint.\<close>

definition broadcast_target :: "string \<Rightarrow> string \<Rightarrow> receiver \<Rightarrow> (string \<times> endpoint) option result" where
  "broadcast_target address msg r =
     (case Parse msg of
        Inl e \<Rightarrow> Inl e
      | Inr (c, hadError) \<Rightarrow>
          (let port = (if useSSL (rc_args r) then unat (ch_port_secure c) else unat (ch_port_insecure c))
           in if hadError \<or> port = 0 then Inr None
              else if \<not> permitLoopback (rc_args r) \<and> ch_uniqueHandleID c = uniqueInstanceID r \<and> uniqueInstanceID r \<noteq> 0
              then Inr None
              else if map_of (topicStates r) (ch_topic c) = None then Inr None
              else Inr (Some (ch_topic c, (address, port)))))"

definition ProcessBroadcast ::
  "(nat \<Rightarrow> bool) \<Rightarrow> nat \<Rightarrow> string \<Rightarrow> string \<Rightarrow> receiver \<Rightarrow> (bool \<times> receiver) result" where
  "ProcessBroadcast owned fresh address msg r =
     (case broadcast_target address msg r of
        Inl e \<Rightarrow> Inl e
      | Inr None \<Rightarrow> Inr (False, r)
      | Inr (Some (topic, ep)) \<Rightarrow> Inr (ConnectToServer owned fresh topic ep r))"

text \<open>A periodic attempt: connect, then wait again. With an error the timer was cancelled and it ends.\<close>

definition on_wait ::
  "(nat \<Rightarrow> bool) \<Rightarrow> nat \<Rightarrow> string \<Rightarrow> endpoint \<Rightarrow> error_code \<Rightarrow> receiver \<Rightarrow> bool \<times> receiver" where
  "on_wait owned fresh topic ep ec r =
     (if ec \<noteq> Success then (False, r) else (True, snd (ConnectToServer owned fresh topic ep r)))"

text \<open>The numbers of insecure and of secure connections.\<close>

definition live_clients :: "(nat \<Rightarrow> bool) \<Rightarrow> (string \<times> nat option) list \<Rightarrow> nat list" where
  "live_clients owned tab = concat (map (\<lambda>(k, w). case lock owned w of None \<Rightarrow> [] | Some p \<Rightarrow> [p]) tab)"

definition count_connections :: "(nat \<Rightarrow> bool) \<Rightarrow> receiver \<Rightarrow> nat \<times> nat" where
  "count_connections owned r = (length (live_clients owned (clients r)), length (live_clients owned (clientsSSL r)))"

section \<open>Sending\<close>

text \<open>A post to a client session (plain or TLS), with the handler it gets; or a call of the handler.\<close>

datatype posted = Post_plain nat "nat option" | Post_ssl nat "nat option" | Handler_aborted nat

text \<open>
  The handler is moved into the first call of \<open>sendAsync\<close>; the later ones get the empty function it leaves
  behind. If there was no call the handler itself is called, which throws if it is empty.
\<close>

fun post_all :: "(nat \<Rightarrow> nat option \<Rightarrow> posted) \<Rightarrow> nat option \<Rightarrow> nat list \<Rightarrow> posted list \<times> nat option" where
  "post_all post h [] = ([], h)"
| "post_all post h (p # ps) = (case post_all post None ps of (es, h') \<Rightarrow> (post p h # es, h'))"

definition finish_posts :: "nat option \<Rightarrow> posted list \<Rightarrow> posted list result" where
  "finish_posts h es =
     (if es = [] then (case h of None \<Rightarrow> Inl Bad_function_call | Some k \<Rightarrow> Inr [Handler_aborted k]) else Inr es)"

definition receiver_SendAsync_to ::
  "(nat \<Rightarrow> bool) \<Rightarrow> string \<Rightarrow> endpoint \<Rightarrow> nat option \<Rightarrow> receiver \<Rightarrow> posted list result \<times> receiver" where
  "receiver_SendAsync_to owned topic ep h r =
     (let name = UniqueClientName topic ep;
          (w, tab) = entry name (clients r);
          (es, h1) = post_all Post_plain h (case lock owned w of None \<Rightarrow> [] | Some p \<Rightarrow> [p]);
          (w', tab') = entry name (clientsSSL r);
          (fs, h2) = post_all Post_ssl h1 (case lock owned w' of None \<Rightarrow> [] | Some p \<Rightarrow> [p])
      in (finish_posts h2 (es @ fs), r\<lparr>clients := tab, clientsSSL := tab'\<rparr>))"

definition receiver_SendAsync :: "(nat \<Rightarrow> bool) \<Rightarrow> nat option \<Rightarrow> receiver \<Rightarrow> posted list result" where
  "receiver_SendAsync owned h r =
     (let (es, h1) = post_all Post_plain h (live_clients owned (clients r));
          (fs, h2) = post_all Post_ssl h1 (live_clients owned (clientsSSL r))
      in finish_posts h2 (es @ fs))"

text \<open>The forms that take a string give every call a handler of its own, which owns the copy of the string.\<close>

definition receiver_SendAsync_string_to ::
  "(nat \<Rightarrow> bool) \<Rightarrow> string \<Rightarrow> endpoint \<Rightarrow> nat \<Rightarrow> receiver \<Rightarrow> posted list \<times> receiver" where
  "receiver_SendAsync_string_to owned topic ep h r =
     (let name = UniqueClientName topic ep;
          (w, tab) = entry name (clients r);
          (w', tab') = entry name (clientsSSL r)
      in ((case lock owned w of None \<Rightarrow> [] | Some p \<Rightarrow> [Post_plain p (Some h)])
          @ (case lock owned w' of None \<Rightarrow> [] | Some p \<Rightarrow> [Post_ssl p (Some h)]),
          r\<lparr>clients := tab, clientsSSL := tab'\<rparr>))"

definition receiver_SendAsync_string :: "(nat \<Rightarrow> bool) \<Rightarrow> nat \<Rightarrow> receiver \<Rightarrow> posted list" where
  "receiver_SendAsync_string owned h r =
     map (\<lambda>p. Post_plain p (Some h)) (live_clients owned (clients r))
     @ map (\<lambda>p. Post_ssl p (Some h)) (live_clients owned (clientsSSL r))"

section \<open>The ports a sender listens on\<close>

datatype security_mode = Mode_insecure | Mode_secure | Mode_both

text \<open>
  The listeners that are started, and the insecure and secure port announced; \<open>bound p\<close> is the port that
  binding to \<open>p\<close> gives. The listener for the secure port takes insecure clients as well.
\<close>

definition sender_listeners :: "(nat \<Rightarrow> nat) \<Rightarrow> nat \<Rightarrow> nat \<Rightarrow> (nat \<times> security_mode) list \<times> nat \<times> nat" where
  "sender_listeners bound insecure secure =
     (if insecure = secure \<and> 0 < secure then ([(secure, Mode_both)], bound secure, bound secure)
      else ((if 0 < insecure then [(insecure, Mode_insecure)] else [])
              @ (if 0 < secure then [(secure, Mode_both)] else []),
            (if 0 < insecure then bound insecure else 0), (if 0 < secure then bound secure else 0)))"

text \<open>On every port that is announced there is a listener that takes clients of its kind.\<close>

lemma sender_port_bound:
  assumes "sender_listeners bound insecure secure = (ls, a, b)" and "port = (if ssl then b else a)" and "0 < port"
  shows "\<exists>p mode. (p, mode) \<in> set ls \<and> bound p = port \<and> (ssl \<longrightarrow> mode = Mode_both)"
  using assms
  by (intro exI [of _ "if ssl then secure else insecure"]
      exI [of _ "if ssl \<or> insecure = secure then Mode_both else Mode_insecure"])
    (auto simp: sender_listeners_def split: if_splits)

section \<open>Names\<close>

text \<open>The textual form of an address has no underscore.\<close>

definition addr_ok :: "endpoint \<Rightarrow> bool" where
  "addr_ok ep \<longleftrightarrow> CHR ''_'' \<notin> set (fst ep)"

lemma show_nat_inject: "show_nat a = show_nat b \<Longrightarrow> a = b"
  by (metis read_show)

lemma last_part_inject:
  assumes "x @ c # y = x' @ c # y'" and "c \<notin> set y" and "c \<notin> set y'"
  shows "x = x' \<and> y = y'"
proof -
  have "takeWhile (\<lambda>d. d \<noteq> c) (rev (u @ c # v)) = rev v" if "c \<notin> set v" for u v
    using that takeWhile_append2 [of "rev v" "\<lambda>d. d \<noteq> c" "c # rev u"] by auto
  from this [OF assms(2), of x] this [OF assms(3), of x']
  have "takeWhile (\<lambda>d. d \<noteq> c) (rev (x @ c # y)) = rev y" "takeWhile (\<lambda>d. d \<noteq> c) (rev (x' @ c # y')) = rev y'" .
  with assms(1) have "y = y'" by (metis rev_rev_ident)
  with assms(1) show ?thesis by simp
qed

lemma EndpointToString_inject:
  assumes "EndpointToString ep = EndpointToString ep'"
  shows "ep = ep'"
proof -
  have "CHR '':'' \<notin> set (show_nat n)" for n using plain_digits [of n] by (auto simp: plain_def)
  then show ?thesis
    using last_part_inject [of "fst ep" "CHR '':''" "show_nat (snd ep)" "fst ep'" "show_nat (snd ep')"] assms
    by (auto simp: EndpointToString_def prod_eq_iff dest: show_nat_inject)
qed

lemma UniqueClientName_inject:
  assumes "UniqueClientName t ep = UniqueClientName t' ep'" and "addr_ok ep" and "addr_ok ep'"
  shows "t = t' \<and> ep = ep'"
proof -
  have "CHR ''_'' \<notin> set (show_nat n)" for n using show_nat_digits [of n] by (auto simp: is_digit_def)
  then have "CHR ''_'' \<notin> set (EndpointToString e)" if "addr_ok e" for e
    using that by (auto simp: EndpointToString_def addr_ok_def)
  then show ?thesis
    using last_part_inject [of "''__'' @ t @ ''_''" "CHR ''_''" "EndpointToString ep"
        "''__'' @ t' @ ''_''" "EndpointToString ep'"] assms EndpointToString_inject
    by (simp add: UniqueClientName_def)
qed

section \<open>One client per topic and server\<close>

text \<open>
  A receiver over time. \<open>made\<close>: for each client made, in order, the topic and the endpoint it was made for;
  \<open>gone\<close>: the clients that have been destroyed.
\<close>

record topic_net =
  tn_receiver :: receiver
  tn_made :: "(string \<times> endpoint) list"
  tn_gone :: "nat list"

datatype net_event = Broadcast_from string string | Attempt string endpoint | Gone nat

definition tn_live :: "topic_net \<Rightarrow> nat \<Rightarrow> bool" where
  "tn_live y p \<longleftrightarrow> p < length (tn_made y) \<and> p \<notin> set (tn_gone y)"

definition tn_connect :: "string \<Rightarrow> endpoint \<Rightarrow> topic_net \<Rightarrow> topic_net" where
  "tn_connect topic ep y =
     (case ConnectToServer (tn_live y) (length (tn_made y)) topic ep (tn_receiver y) of
        (created, r) \<Rightarrow> y\<lparr>tn_receiver := r, tn_made := tn_made y @ (if created then [(topic, ep)] else [])\<rparr>)"

fun tn_step :: "net_event \<Rightarrow> topic_net \<Rightarrow> topic_net result" where
  "tn_step (Broadcast_from address msg) y =
     (case broadcast_target address msg (tn_receiver y) of
        Inl e \<Rightarrow> Inl e
      | Inr None \<Rightarrow> Inr y
      | Inr (Some (topic, ep)) \<Rightarrow> Inr (tn_connect topic ep y))"
| "tn_step (Attempt topic ep) y = Inr (tn_connect topic ep y)"
| "tn_step (Gone p) y = Inr (if p < length (tn_made y) then y\<lparr>tn_gone := p # tn_gone y\<rparr> else y)"

fun tn_run :: "net_event list \<Rightarrow> topic_net \<Rightarrow> topic_net result" where
  "tn_run [] y = Inr y"
| "tn_run (ev # evs) y = (case tn_step ev y of Inl e \<Rightarrow> Inl e | Inr y' \<Rightarrow> tn_run evs y')"

fun event_ok :: "net_event \<Rightarrow> bool" where
  "event_ok (Broadcast_from address msg) \<longleftrightarrow> addr_ok (address, 0)"
| "event_ok (Attempt topic ep) \<longleftrightarrow> addr_ok ep"
| "event_ok (Gone p) \<longleftrightarrow> True"

definition table :: "receiver \<Rightarrow> (string \<times> nat option) list" where
  "table r = (if useSSL (rc_args r) then clientsSSL r else clients r)"

text \<open>The table and the clients that are alive agree.\<close>

definition tn_ok :: "topic_net \<Rightarrow> bool" where
  "tn_ok y \<longleftrightarrow>
     (\<forall>p topic ep. tn_live y p \<longrightarrow> tn_made y ! p = (topic, ep) \<longrightarrow>
        addr_ok ep \<and> map_of (table (tn_receiver y)) (UniqueClientName topic ep) = Some (Some p))
     \<and> (\<forall>p \<in> set (tn_gone y). p < length (tn_made y))
     \<and> (\<forall>name p. map_of (table (tn_receiver y)) name = Some (Some p) \<longrightarrow>
          p < length (tn_made y) \<and> name = UniqueClientName (fst (tn_made y ! p)) (snd (tn_made y ! p)))"

lemma entry_lookup:
  "fst (entry k tab) = (case map_of tab k of None \<Rightarrow> None | Some v \<Rightarrow> v)"
  "map_of (snd (entry k tab)) x = Some (Some p) \<longleftrightarrow> map_of tab x = Some (Some p)"
  by (auto simp: entry_def update_conv' split: option.splits)

lemma entry_known: "map_of tab k = Some (Some v) \<Longrightarrow> entry k tab = (Some v, tab)"
  by (simp add: entry_def)

lemma ConnectToServer_table:
  assumes "ConnectToServer owned fresh topic ep r = (created, r')"
  shows "rc_args r' = rc_args r"
    and "created \<Longrightarrow> map_of (table r') x = (if x = UniqueClientName topic ep then Some (Some fresh) else
           map_of (snd (entry (UniqueClientName topic ep) (table r))) x)"
    and "created \<Longrightarrow> lock owned (fst (entry (UniqueClientName topic ep) (table r))) = None"
    and "\<not> created \<Longrightarrow> map_of (table r') x = Some (Some p) \<longleftrightarrow> map_of (table r) x = Some (Some p)"
  using assms
  by (auto simp: ConnectToServer_def table_def update_conv' Let_def entry_lookup(2) split: prod.splits if_splits)
    (metis entry_lookup(2) snd_conv)+

lemma tn_connect_ok:
  assumes ok: "tn_ok y" and ep: "addr_ok ep"
  shows "tn_ok (tn_connect topic ep y)"
proof -
  let ?r = "tn_receiver y"
  let ?n = "length (tn_made y)"
  let ?name = "UniqueClientName topic ep"
  obtain created r' where c: "ConnectToServer (tn_live y) ?n topic ep ?r = (created, r')"
    by (cases "ConnectToServer (tn_live y) ?n topic ep ?r")
  have live: "map_of (table ?r) (UniqueClientName (fst (tn_made y ! p)) (snd (tn_made y ! p))) = Some (Some p)"
    "addr_ok (snd (tn_made y ! p))" if "tn_live y p" for p
    using ok that by (auto simp: tn_ok_def prod_eq_iff)
  have ref: "p < ?n \<and> name = UniqueClientName (fst (tn_made y ! p)) (snd (tn_made y ! p))"
    if "map_of (table ?r) name = Some (Some p)" for name p
    using ok that by (auto simp: tn_ok_def)
  show ?thesis
  proof (cases created)
    case False
    with c have "tn_connect topic ep y = y\<lparr>tn_receiver := r'\<rparr>" by (simp add: tn_connect_def)
    then show ?thesis
      using ok ConnectToServer_table(4) [OF c False] by (simp add: tn_ok_def tn_live_def)
  next
    case True
    let ?y = "y\<lparr>tn_receiver := r', tn_made := tn_made y @ [(topic, ep)]\<rparr>"
    have y': "tn_connect topic ep y = ?y" using c True by (simp add: tn_connect_def)
    have tab: "map_of (table r') x = Some (Some p) \<longleftrightarrow>
        (if x = ?name then p = ?n else map_of (table ?r) x = Some (Some p))" for x p
      using ConnectToServer_table(2) [OF c True, of x] entry_lookup(2) [of ?name "table ?r" x p] by auto
    have free: "\<not> tn_live y p" if "map_of (table ?r) ?name = Some (Some p)" for p
      using ConnectToServer_table(3) [OF c True] that by (auto simp: entry_lookup(1) lock_def split: if_splits)
    have 1: "addr_ok e \<and> map_of (table r') (UniqueClientName t e) = Some (Some p)"
      if "tn_live ?y p" "(tn_made y @ [(topic, ep)]) ! p = (t, e)" for p t e
    proof (cases "p = ?n")
      case True
      then show ?thesis using that ep by (simp add: tab)
    next
      case False
      with that have p: "tn_live y p" "tn_made y ! p = (t, e)" by (auto simp: tn_live_def nth_append split: if_splits)
      then show ?thesis using live [OF p(1)] free [of p] by (auto simp: tab)
    qed
    have 2: "p < Suc ?n \<and> name = UniqueClientName (fst ((tn_made y @ [(topic, ep)]) ! p)) (snd ((tn_made y @ [(topic, ep)]) ! p))"
      if "map_of (table r') name = Some (Some p)" for name p
      using that ref [of name p] by (auto simp: tab nth_append split: if_splits)
    have 3: "\<forall>p \<in> set (tn_gone y). p < Suc ?n" using ok by (auto simp: tn_ok_def)
    show ?thesis unfolding y' tn_ok_def using 1 2 3 by simp
  qed
qed

lemma tn_run_ok:
  assumes "tn_ok y" and "\<forall>ev \<in> set evs. event_ok ev" and "tn_run evs y = Inr y'"
  shows "tn_ok y'"
  using assms
proof (induction evs arbitrary: y)
  case Nil
  then show ?case by simp
next
  case (Cons ev evs)
  obtain y1 where y1: "tn_step ev y = Inr y1" "tn_run evs y1 = Inr y'"
    using Cons.prems(3) by (auto split: sum.splits)
  have "tn_ok y1"
  proof (cases ev)
    case (Broadcast_from address msg)
    have "addr_ok ep" if "broadcast_target address msg (tn_receiver y) = Inr (Some (topic, ep))" for topic ep
      using that Cons.prems(2) Broadcast_from
      by (auto simp: broadcast_target_def addr_ok_def Let_def split: sum.splits prod.splits if_splits)
    then show ?thesis
      using y1(1) Broadcast_from Cons.prems(1) tn_connect_ok
      by (auto split: sum.splits option.splits prod.splits)
  next
    case (Attempt topic ep)
    then show ?thesis using y1(1) Cons.prems tn_connect_ok [of y ep topic] by simp
  next
    case (Gone p)
    then have "y1 = y \<or> y1 = y\<lparr>tn_gone := p # tn_gone y\<rparr> \<and> p < length (tn_made y)"
      using y1(1) by (auto split: if_splits)
    then show ?thesis using Cons.prems(1) by (auto simp: tn_ok_def tn_live_def)
  qed
  then show ?case using Cons y1(2) by simp
qed


text \<open>After an attempt to connect for a topic that is known there is a client for it.\<close>

lemma tn_connect_connects:
  assumes ok: "tn_ok y" and ep: "addr_ok ep" and st: "map_of (topicStates (tn_receiver y)) topic = Some (Some st)"
  shows "\<exists>p. tn_live (tn_connect topic ep y) p \<and> tn_made (tn_connect topic ep y) ! p = (topic, ep)"
proof -
  let ?r = "tn_receiver y"
  let ?n = "length (tn_made y)"
  let ?name = "UniqueClientName topic ep"
  obtain created r' where c: "ConnectToServer (tn_live y) ?n topic ep ?r = (created, r')"
    by (cases "ConnectToServer (tn_live y) ?n topic ep ?r")
  show ?thesis
  proof (cases created)
    case True
    have "tn_live (tn_connect topic ep y) ?n"
      using c True ok by (auto simp: tn_connect_def tn_live_def tn_ok_def)
    then show ?thesis using c True by (intro exI [of _ ?n]) (simp add: tn_connect_def)
  next
    case False
    have "lock (tn_live y) (fst (entry ?name (table ?r))) \<noteq> None"
      using c False entry_known [OF st]
      by (auto simp: ConnectToServer_def table_def Let_def split: prod.splits if_splits)
    then obtain p where p: "map_of (table ?r) ?name = Some (Some p)" "tn_live y p"
      by (auto simp: entry_lookup(1) lock_def split: option.splits if_splits)
    have "?name = UniqueClientName (fst (tn_made y ! p)) (snd (tn_made y ! p))" "addr_ok (snd (tn_made y ! p))"
      using ok p by (auto simp: tn_ok_def prod_eq_iff)
    then have "tn_made y ! p = (topic, ep)"
      using UniqueClientName_inject [of topic ep "fst (tn_made y ! p)" "snd (tn_made y ! p)"] ep
      by (simp add: prod_eq_iff)
    then show ?thesis using c False p(2) by (intro exI [of _ p]) (simp add: tn_connect_def tn_live_def)
  qed
qed


definition example_net :: topic_net where
  "example_net = \<lparr>tn_receiver = receiver_new [(''cam'', Some 1)] \<lparr>permitLoopback = True, useSSL = False\<rparr> 7,
     tn_made = [], tn_gone = []\<rparr>"


text \<open>
  From the sender to the receiver: a sender that listens on the port of the kind the receiver wants is found. Its
  heartbeat, received from its address by a receiver that subscribed to the topic, has no client for it yet
  and is not the sender itself (or permits that), makes the receiver connect to that address and to the
  port that the sender has bound for this kind - on which there is a listener that takes such clients.
\<close>

lemma heartbeat_leads_to_connection:
  assumes "\<forall>c \<in> set topic. is_word c" and "topic \<noteq> []" and "i < 2 ^ 64" and "t < 2 ^ 64"
    and "sender_listeners bound insecure secure = (ls, a, b)" and "a < 2 ^ 16" and "b < 2 ^ 16"
    and "port = (if useSSL (rc_args r) then b else a)" and "0 < port"
    and "map_of (topicStates r) topic = Some (Some st)"
    and "permitLoopback (rc_args r) \<or> of_nat i \<noteq> uniqueInstanceID r \<or> uniqueInstanceID r = 0"
    and "lock owned (fst (entry (UniqueClientName topic (address, port)) (table r))) = None"
  shows "\<exists>r'. ProcessBroadcast owned fresh address (heartbeat_message topic a b i t) r = Inr (True, r')
     \<and> map_of (table r') (UniqueClientName topic (address, port)) = Some (Some fresh)
     \<and> (\<exists>p mode. (p, mode) \<in> set ls \<and> bound p = port \<and> (useSSL (rc_args r) \<longrightarrow> mode = Mode_both))"
proof -
  obtain c where c: "Parse (heartbeat_message topic a b i t) = Inr (c, False)" "ch_topic c = topic"
    "unat (ch_port_insecure c) = a" "unat (ch_port_secure c) = b" "unat (ch_uniqueHandleID c) = i"
    using heartbeat_parsed [OF assms(1,2,6,7,3,4)] assms(3,6,7) by (simp add: unat_of_nat)
  have ident: "ch_uniqueHandleID c = of_nat i" using c(5) by (metis of_nat_unat ucast_id)
  have target: "broadcast_target address (heartbeat_message topic a b i t) r = Inr (Some (topic, (address, port)))"
    using assms(8-11) c ident by (auto simp: broadcast_target_def Let_def)
  obtain created r' where con: "ConnectToServer owned fresh topic (address, port) r = (created, r')"
    by (cases "ConnectToServer owned fresh topic (address, port) r")
  have created: "created"
    using con assms(12) entry_known [OF assms(10)]
    by (auto simp: ConnectToServer_def table_def Let_def split: prod.splits if_splits)
  have "map_of (table r') (UniqueClientName topic (address, port)) = Some (Some fresh)"
    using ConnectToServer_table(2) [OF con created] by simp
  moreover have "\<exists>p mode. (p, mode) \<in> set ls \<and> bound p = port \<and> (useSSL (rc_args r) \<longrightarrow> mode = Mode_both)"
    by (rule sender_port_bound [OF assms(5,8,9)])
  ultimately show ?thesis using target con created by (simp add: ProcessBroadcast_def)
qed

theorem heartbeat_leads_to_connection_witness:
  "\<exists>r'. ProcessBroadcast (\<lambda>_. False) 5 ''10.0.0.1'' (heartbeat_message ''cam'' 0 8443 9 1700000000000)
       (receiver_new [(''cam'', Some 1)] \<lparr>permitLoopback = False, useSSL = True\<rparr> 7) = Inr (True, r')"
proof -
  let ?r = "receiver_new [(''cam'', Some 1)] \<lparr>permitLoopback = False, useSSL = True\<rparr> 7"
  have "\<exists>r'. ProcessBroadcast (\<lambda>_. False) 5 ''10.0.0.1'' (heartbeat_message ''cam'' 0 8443 9 1700000000000) ?r = Inr (True, r')
     \<and> map_of (table r') (UniqueClientName ''cam'' (''10.0.0.1'', 8443)) = Some (Some 5)
     \<and> (\<exists>p mode. (p, mode) \<in> set [(8443 :: nat, Mode_both)] \<and> id p = 8443 \<and> (useSSL (rc_args ?r) \<longrightarrow> mode = Mode_both))"
    by (rule heartbeat_leads_to_connection [where insecure = 0 and secure = 8443 and st = 1])
      (simp_all add: is_word_def is_digit_def sender_listeners_def receiver_new_def lock_def entry_def table_def)
  then show ?thesis by blast
qed

text \<open>
  Two flaws of sending by handler: of several clients only the first gets the handler, and with no client
  and no handler (the default argument) the call throws.
\<close>

lemma only_first_gets_handler:
  "receiver_SendAsync (\<lambda>_. True) (Some 3) ((receiver_new [] a ident)\<lparr>clients := [(''x'', Some 1), (''y'', Some 2)]\<rparr>)
     = Inr [Post_plain 1 (Some 3), Post_plain 2 None]"
  "receiver_SendAsync owned None (receiver_new [] a ident) = Inl Bad_function_call"
  by (simp_all add: receiver_SendAsync_def live_clients_def lock_def receiver_new_def finish_posts_def Let_def)

end
