(* ===== verification/Unique_Id.thy ===== *)
theory Unique_Id
  imports Topic_Client
begin

text \<open>
  \<open>GenerateUniqueID\<close> (\<^verbatim>\<open>MempoolIPC/src/UtilsIPC.h\<close>), the number by which a pool is known across computers: the first output of
  \<open>std::mt19937_64\<close>, seeded through \<open>std::seed_seq\<close> with four numbers of \<open>std::random_device\<close>, which are an argument. Generator
  and seeding are those of the C++ standard. The number goes into the announcements of a sender, and a receiver with the same number takes such an
  announcement for its own.
\<close>

unbundle bit_operations_syntax

section \<open>std::seed_seq\<close>

type_synonym u32 = "32 word"

definition seed_mix :: "u32 \<Rightarrow> u32" where
  "seed_mix x = x XOR drop_bit 27 x"

text \<open>\<open>generate\<close> for a range of \<open>n\<close> numbers: the distances \<open>p\<close> and \<open>q\<close>, and the number \<open>m\<close> of steps of the first loop.\<close>

definition seed_t :: "nat \<Rightarrow> nat" where
  "seed_t n = (if 623 \<le> n then 11 else if 68 \<le> n then 7 else if 39 \<le> n then 5 else if 7 \<le> n then 3 else (n - 1) div 2)"

definition seed_p :: "nat \<Rightarrow> nat" where
  "seed_p n = (n - seed_t n) div 2"

definition seed_q :: "nat \<Rightarrow> nat" where
  "seed_q n = seed_p n + seed_t n"

definition seed_first :: "u32 list \<Rightarrow> nat \<Rightarrow> nat \<Rightarrow> u32 list \<Rightarrow> u32 list" where
  "seed_first v n k b =
     (let i = k mod n; ip = (k + seed_p n) mod n; iq = (k + seed_q n) mod n;
          r1 = 1664525 * seed_mix (b ! i XOR b ! ip XOR b ! ((k + n - 1) mod n));
          r2 = r1 + (if k = 0 then of_nat (length v)
                     else if k \<le> length v then of_nat i + v ! (k - 1) else of_nat i);
          b1 = b[ip := b ! ip + r1];
          b2 = b1[iq := b1 ! iq + r2]
      in b2[i := r2])"

definition seed_second :: "nat \<Rightarrow> nat \<Rightarrow> u32 list \<Rightarrow> u32 list" where
  "seed_second n k b =
     (let i = k mod n; ip = (k + seed_p n) mod n; iq = (k + seed_q n) mod n;
          r3 = 1566083941 * seed_mix (b ! i + b ! ip + b ! ((k + n - 1) mod n));
          r4 = r3 - of_nat i;
          b1 = b[ip := b ! ip XOR r3];
          b2 = b1[iq := b1 ! iq XOR r4]
      in b2[i := r4])"

definition seed_generate :: "u32 list \<Rightarrow> nat \<Rightarrow> u32 list" where
  "seed_generate v n =
     (let m = max (length v + 1) n
      in fold (seed_second n) [m ..< m + n] (fold (seed_first v n) [0 ..< m] (replicate n 0x8b8b8b8b)))"

section \<open>std::mt19937_64\<close>

type_synonym u64 = "64 word"

text \<open>Seeding: 312 numbers, each of two of the sequence; not all of them (but for the lowest bits of the first) may be 0.\<close>

definition mt_seed :: "u32 list \<Rightarrow> u64 list" where
  "mt_seed v =
     (let a = seed_generate v 624;
          x = map (\<lambda>i. ucast (a ! (2 * i)) + push_bit 32 (ucast (a ! (2 * i + 1)))) [0 ..< 312]
      in if drop_bit 31 (x ! 0) = 0 \<and> list_all (\<lambda>w. w = 0) (drop 1 x) then x[0 := push_bit 63 1] else x)"

definition mt_twist :: "u64 \<Rightarrow> u64 \<Rightarrow> u64 \<Rightarrow> u64" where
  "mt_twist x0 x1 xm =
     (let y = push_bit 31 (drop_bit 31 x0) OR take_bit 31 x1
      in xm XOR drop_bit 1 y XOR (if bit y 0 then 0xb5026f5aa96619e9 else 0))"

definition temper_right :: "nat \<Rightarrow> u64 \<Rightarrow> u64 \<Rightarrow> u64" where
  "temper_right n m z = z XOR (drop_bit n z AND m)"

definition temper_left :: "nat \<Rightarrow> u64 \<Rightarrow> u64 \<Rightarrow> u64" where
  "temper_left n m z = z XOR (push_bit n z AND m)"

definition mt_temper :: "u64 \<Rightarrow> u64" where
  "mt_temper z = temper_right 43 (- 1) (temper_left 37 0xfff7eee000000000
     (temper_left 17 0x71d67fffeda60000 (temper_right 29 0x5555555555555555 z)))"

text \<open>The first number the generator gives comes from the first, the second and the 157th of its state.\<close>

definition mt_word :: "u32 list \<Rightarrow> u64" where
  "mt_word v = (let x = mt_seed v in mt_twist (x ! 0) (x ! 1) (x ! 156))"

section \<open>GenerateUniqueID\<close>

text \<open>\<open>device i\<close>: what the \<open>i\<close>-th call of the random device gives.\<close>

definition GenerateUniqueID :: "(nat \<Rightarrow> u32) \<Rightarrow> u64" where
  "GenerateUniqueID device = mt_temper (mt_word [device 0, device 1, device 2, device 3])"

section \<open>No number is preferred\<close>

lemma temper_right_inj:
  assumes "0 < n"
  shows "inj (temper_right n m)"
proof (rule injI)
  fix x y
  assume eq: "temper_right n m x = temper_right n m y"
  have step: "bit x i = bit y i" if "bit x (n + i) = bit y (n + i)" for i
    using arg_cong [OF eq, of "\<lambda>w. bit w i"] that by (auto simp: temper_right_def bit_simps)
  have "bit x i = bit y i" if "64 - i = k" for i k
    using that
  proof (induction k arbitrary: i rule: less_induct)
    case (less k)
    show ?case
    proof (cases "i < 64")
      case True
      then have "64 - (n + i) < k" using less.prems assms by linarith
      then show ?thesis using less.IH step by blast
    next
      case False
      then show ?thesis by (auto dest: bit_imp_le_length)
    qed
  qed
  then show "x = y" by (intro bit_eqI) blast
qed

lemma temper_left_inj:
  assumes "0 < n"
  shows "inj (temper_left n m)"
proof (rule injI)
  fix x y
  assume eq: "temper_left n m x = temper_left n m y"
  have "bit x i = bit y i" for i
  proof (induction i rule: less_induct)
    case (less i)
    then have "n \<le> i \<Longrightarrow> bit x (i - n) = bit y (i - n)" using assms by simp
    then show ?case using arg_cong [OF eq, of "\<lambda>w. bit w i"] by (auto simp: temper_left_def bit_simps)
  qed
  then show "x = y" by (intro bit_eqI) blast
qed

text \<open>
  The last steps of the generator lose nothing: two identifiers are equal exactly when the words they come from are, and
  every identifier, 0 too, comes from some word.
\<close>

lemma mt_temper_bij: "bij mt_temper"
proof -
  have parts: "mt_temper = temper_right 43 (- 1) \<circ> (temper_left 37 0xfff7eee000000000 \<circ>
      (temper_left 17 0x71d67fffeda60000 \<circ> temper_right 29 0x5555555555555555))"
    by (simp add: fun_eq_iff mt_temper_def)
  have "inj mt_temper"
    unfolding parts by (intro inj_compose temper_right_inj temper_left_inj) simp_all
  moreover have "finite (UNIV :: u64 set)" by (rule finite)
  ultimately show ?thesis by (simp add: bij_def finite_UNIV_inj_surj)
qed

lemma identifiers_equal_iff:
  "GenerateUniqueID d = GenerateUniqueID e
     \<longleftrightarrow> mt_word [d 0, d 1, d 2, d 3] = mt_word [e 0, e 1, e 2, e 3]"
  using mt_temper_bij by (simp add: GenerateUniqueID_def bij_def inj_eq)

lemma identifier_onto: "\<exists>w. mt_temper w = i"
  using mt_temper_bij by (metis bij_def surjD)

section \<open>What it is used for\<close>

text \<open>
  A receiver takes no client from a sender with its own identifier, unless it may, or the identifier is 0.
\<close>

lemma own_announcement_ignored:
  assumes "\<forall>c \<in> set topic. is_word c" and "topic \<noteq> []" and "a < 2 ^ 16" and "b < 2 ^ 16" and "t < 2 ^ 64"
    and "uniqueInstanceID r = GenerateUniqueID d" and "GenerateUniqueID d \<noteq> 0" and "\<not> permitLoopback (rc_args r)"
  shows "broadcast_target address (heartbeat_message topic a b (unat (GenerateUniqueID d)) t) r = Inr None"
proof -
  have "unat (GenerateUniqueID d) < 2 ^ 64" using unsigned_less [of "GenerateUniqueID d"] by simp
  from heartbeat_parsed [OF assms(1-4) this assms(5)] show ?thesis
    using assms(6-8) by (simp add: broadcast_target_def Let_def)
qed

end
