(* ===== verification/Heap_Passthrough.thy ===== *)
theory Heap_Passthrough
  imports Heap_Pool
begin

text \<open>
  \<open>Passthrough_Allocator\<close> (\<^verbatim>\<open>MempoolHeap/src/MemPoolHeap.h\<close>): an allocator for the pools that prints every request and hands it
  to \<open>std::allocator\<close>. The state is that of \<open>std::allocator\<close> with what has been printed.
\<close>

section \<open>The allocator\<close>

text \<open>A line of output: number of elements, size of one, and their product; \<open>Could_not\<close> is the line for a null pointer.\<close>

datatype printed = Allocated size_t size_t size_t | Deallocated size_t size_t size_t | Could_not

type_synonym 'h traced = "'h \<times> printed list"

text \<open>\<open>sz\<close> is \<open>sizeof(T)\<close>. A request that throws has been printed already.\<close>

definition pt_allocate :: "size_t \<Rightarrow> 'h byte_allocator \<Rightarrow> size_t \<Rightarrow> 'h traced \<Rightarrow> addr option \<times> 'h traced" where
  "pt_allocate sz A n h =
     (case allocate_bytes A (n * sz) (fst h) of
        (raw, h') \<Rightarrow> (raw, h', snd h @ [Allocated n sz (n * sz)] @ (if raw = Some nullptr then [Could_not] else [])))"

definition pt_deallocate :: "size_t \<Rightarrow> 'h byte_allocator \<Rightarrow> addr \<Rightarrow> size_t \<Rightarrow> 'h traced \<Rightarrow> 'h traced" where
  "pt_deallocate sz A p n h = (deallocate_bytes A p (n * sz) (fst h), snd h @ [Deallocated n sz (n * sz)])"

text \<open>Two of them are always equal: what one allocates another may free.\<close>

definition pt_equal :: "'a \<Rightarrow> 'b \<Rightarrow> bool" where
  "pt_equal x y \<longleftrightarrow> True"

definition pt_unequal :: "'a \<Rightarrow> 'b \<Rightarrow> bool" where
  "pt_unequal x y \<longleftrightarrow> \<not> pt_equal x y"

text \<open>As the allocator of bytes of a pool: the size of an element is 1.\<close>

definition passthrough :: "'h byte_allocator \<Rightarrow> 'h traced byte_allocator" where
  "passthrough A = \<lparr>allocate_bytes = pt_allocate 1 A, deallocate_bytes = pt_deallocate 1 A\<rparr>"

section \<open>Pools over it\<close>

lemma passthrough_ok: "allocator_ok A \<Longrightarrow> allocator_ok (passthrough A)"
  by (fastforce simp: allocator_ok_def passthrough_def pt_allocate_def split: prod.splits)

text \<open>What is printed for a piece of raw memory: its request, and its release, with the same size.\<close>

definition request_of :: "size_t \<Rightarrow> raw_memory \<Rightarrow> printed" where
  "request_of sz m = (let n = sz * rm_nElementsTotal m + alignof_max_align_t in Allocated n 1 n)"

lemma RawMemory_Allocate_passthrough:
  assumes "allocator_ok A"
  shows "RawMemory_Allocate (passthrough A) sz al m (h, out)
     = (case RawMemory_Allocate A sz al m h of (q, m', h') \<Rightarrow> (q, m', h', out @ [request_of sz m]))"
proof -
  let ?n = "sz * rm_nElementsTotal m + alignof_max_align_t"
  obtain raw h' where a: "allocate_bytes A ?n h = (raw, h')" by fastforce
  then have "raw \<noteq> Some nullptr" using assms by (auto simp: allocator_ok_def)
  then have "allocate_bytes (passthrough A) ?n (h, out) = (raw, h', out @ [request_of sz m])"
    using a by (simp add: passthrough_def pt_allocate_def request_of_def Let_def)
  with a show ?thesis by (simp add: RawMemory_Allocate_def Let_def split: prod.splits option.splits)
qed

lemma RawMemory_destroy_passthrough:
  "RawMemory_destroy (passthrough A) m (h, out)
     = (case RawMemory_destroy A m h of
          (m', h') \<Rightarrow> (m', h', out @ (if rm_raw m = nullptr then [] else [Deallocated (rm_rawSize m) 1 (rm_rawSize m)])))"
  by (simp add: RawMemory_destroy_def passthrough_def pt_deallocate_def)

text \<open>The printing changes nothing: a pool is made over \<open>Passthrough_Allocator\<close> as over \<open>std::allocator\<close>, with two requests printed.\<close>

lemma AllocatorState_passthrough:
  assumes "allocator_ok A" and "\<not> initialized s"
  shows "AllocatorState_Allocate (passthrough A) sz al s (h, out)
     = (case AllocatorState_Allocate A sz al s h of
          (s', h') \<Rightarrow> (s', h', out @ [request_of sz (memoryRaw s), request_of 8 (memoryPtrsToRaw s)]))"
  using assms(2) by (simp add: AllocatorState_Allocate_def RawMemory_Allocate_passthrough [OF assms(1)] Let_def split: prod.splits)

text \<open>What was requested for the memory of a pool is what is printed when it goes: nothing leaks.\<close>

lemma passthrough_balanced:
  assumes A: "allocator_ok A" and m: "rm_raw m = nullptr"
    and run: "RawMemory_Allocate (passthrough A) sz al m (h, out) = (q, m', h', out')" and q: "q \<noteq> nullptr"
  shows "\<exists>n. out' = out @ [Allocated n 1 n]
     \<and> snd (snd (RawMemory_destroy (passthrough A) m' (h', out'))) = out @ [Allocated n 1 n, Deallocated n 1 n]"
proof -
  obtain hh where r: "RawMemory_Allocate A sz al m h = (q, m', hh)" and out: "h' = hh" "out' = out @ [request_of sz m]"
    using run by (auto simp: RawMemory_Allocate_passthrough [OF A] split: prod.splits)
  have "rm_raw m' \<noteq> nullptr \<and> rm_rawSize m' = sz * rm_nElementsTotal m + alignof_max_align_t"
    using r q m by (auto simp: RawMemory_Allocate_def Let_def split: prod.splits option.splits if_splits)
  then show ?thesis using out
    by (auto simp: RawMemory_destroy_passthrough request_of_def Let_def split: prod.splits)
qed

end
