(* ===== verification/Asio_Utils.thy ===== *)
theory Asio_Utils
  imports Complex_Main Send_Queue
begin

text \<open>
  \<^verbatim>\<open>Networking/src/UtilsASIO.hpp\<close>: the receiver of UDP messages with its timeout, the
  heartbeat that announces a topic, and the context that owns the threads. An operation of the model is one
  handler, run to its end: the handlers of an object run one after the other. Times are milliseconds of the
  steady clock; \<open>double\<close> and \<open>float\<close> periods are rationals. Endpoints are only handed on and are
  left out; the buffer of the receiver is taken not to be empty, and the period to fit into milliseconds.
\<close>

section \<open>UDPReceiver\<close>

text \<open>
  Callbacks are known by whether they are set. \<open>deadline\<close> is the expiry of the timer (\<open>None\<close> is
  \<open>time_point::max()\<close>), \<open>timer_waits\<close> counts the waits on it and \<open>ended_waits\<close> holds the outcome of those
  whose handler is still to run; \<open>receives\<close> counts the receive operations that are outstanding.
\<close>

record udp_callbacks =
  callbackRead :: bool
  callbackError :: bool
  callbackTimeout :: bool

datatype udp_call = Call_read nat | Call_error error_code | Call_timeout

record udp_receiver =
  udp_cbs :: udp_callbacks
  timeout_period_seconds :: rat
  deadline :: "int option"
  timedout :: bool
  timer_waits :: nat
  ended_waits :: "error_code list"
  receives :: nat
  socket_open :: bool
  udp_log :: "udp_call list"

text \<open>A new timer has the epoch of the clock as its expiry.\<close>

definition UDPReceiver_new :: "rat \<Rightarrow> udp_callbacks \<Rightarrow> udp_receiver" where
  "UDPReceiver_new period cbs =
     \<lparr>udp_cbs = cbs, timeout_period_seconds = period, deadline = Some 0, timedout = False, timer_waits = 0,
      ended_waits = [], receives = 0, socket_open = True, udp_log = []\<rparr>"

text \<open>Setting the expiry of a timer cancels the waits on it; an ended wait is not affected.\<close>

definition set_expiry :: "int option \<Rightarrow> udp_receiver \<Rightarrow> udp_receiver" where
  "set_expiry d s =
     s\<lparr>deadline := d, timer_waits := 0, ended_waits := ended_waits s @ replicate (timer_waits s) Operation_aborted\<rparr>"

definition wait_for_timeout :: "udp_receiver \<Rightarrow> udp_receiver" where
  "wait_for_timeout s = s\<lparr>timer_waits := timer_waits s + 1\<rparr>"

definition udp_on_error :: "error_code \<Rightarrow> udp_receiver \<Rightarrow> udp_receiver" where
  "udp_on_error ec s =
     (if callbackError (udp_cbs s) \<and> \<not> timedout s then s\<lparr>udp_log := udp_log s @ [Call_error ec]\<rparr> else s)"

definition start_recieve :: "int \<Rightarrow> udp_receiver \<Rightarrow> udp_receiver" where
  "start_recieve now s =
     (let s = s\<lparr>timedout := False\<rparr>;
          s = (if timeout_period_seconds s \<le> 0 then set_expiry None s
               else set_expiry (Some (now + \<lfloor>timeout_period_seconds s * 1000\<rfloor>)) s)
      in s\<lparr>receives := receives s + 1\<rparr>)"

definition udp_run_wait :: "udp_receiver \<Rightarrow> udp_receiver" where
  "udp_run_wait s = wait_for_timeout (s\<lparr>timedout := False\<rparr>)"

definition udp_run :: "int \<Rightarrow> udp_receiver \<Rightarrow> udp_receiver" where
  "udp_run now s = start_recieve now (udp_run_wait s)"

definition on_recieve :: "error_code \<Rightarrow> nat \<Rightarrow> int \<Rightarrow> udp_receiver \<Rightarrow> udp_receiver" where
  "on_recieve ec n now s =
     (if ec \<noteq> Success then udp_on_error ec s
      else start_recieve now
             (if callbackRead (udp_cbs s) then s\<lparr>udp_log := udp_log s @ [Call_read n]\<rparr> else s))"

definition check_timeout :: "error_code \<Rightarrow> int \<Rightarrow> udp_receiver \<Rightarrow> udp_receiver" where
  "check_timeout ec now s =
     (let s = (if ec \<noteq> Success \<and> ec \<noteq> Operation_aborted then udp_on_error ec s else s)
      in if ec \<noteq> Success then s
         else wait_for_timeout
           (case deadline s of
              None \<Rightarrow> s
            | Some d \<Rightarrow>
                if d \<le> now
                then let s = s\<lparr>timedout := True\<rparr>;
                         s = (if callbackTimeout (udp_cbs s) then s\<lparr>udp_log := udp_log s @ [Call_timeout]\<rparr> else s)
                     in set_expiry None (s\<lparr>socket_open := False\<rparr>)
                else s))"

text \<open>
  What Boost.Asio does with the operations: a receive completes; the timer goes off, which ends the waits on it
  with success; the handler of an ended wait runs. Each event has the time at which it happens.
\<close>

datatype udp_event = Received error_code nat int | Timer_expires int | Run_wait int

fun udp_step :: "udp_event \<Rightarrow> udp_receiver \<Rightarrow> udp_receiver" where
  "udp_step (Received ec n now) s =
     (if receives s = 0 then s else on_recieve ec n now (s\<lparr>receives := receives s - 1\<rparr>))"
| "udp_step (Timer_expires now) s =
     (case deadline s of
        None \<Rightarrow> s
      | Some d \<Rightarrow> if d \<le> now
                   then s\<lparr>timer_waits := 0, ended_waits := ended_waits s @ replicate (timer_waits s) Success\<rparr>
                   else s)"
| "udp_step (Run_wait now) s =
     (case ended_waits s of [] \<Rightarrow> s | ec # rest \<Rightarrow> check_timeout ec now (s\<lparr>ended_waits := rest\<rparr>))"

fun udp_steps :: "udp_event list \<Rightarrow> udp_receiver \<Rightarrow> udp_receiver" where
  "udp_steps [] s = s"
| "udp_steps (e # es) s = udp_steps es (udp_step e s)"

text \<open>The callbacks of a receiver that never times out: the messages up to the first error, then the error.\<close>

fun calls_without_timeout :: "udp_callbacks \<Rightarrow> udp_event list \<Rightarrow> udp_call list" where
  "calls_without_timeout cbs [] = []"
| "calls_without_timeout cbs (Received ec n now # es) =
     (if ec = Success then (if callbackRead cbs then [Call_read n] else []) @ calls_without_timeout cbs es
      else if callbackError cbs then [Call_error ec] else [])"
| "calls_without_timeout cbs (Timer_expires now # es) = calls_without_timeout cbs es"
| "calls_without_timeout cbs (Run_wait now # es) = calls_without_timeout cbs es"

text \<open>
  The wait posted by \<open>run\<close> is cancelled by \<open>start_recieve\<close>, and the handler of a cancelled wait does not wait again:
  there is no wait from then on.
\<close>

definition udp_idle :: "udp_callbacks \<Rightarrow> udp_receiver \<Rightarrow> bool" where
  "udp_idle cbs s \<longleftrightarrow> udp_cbs s = cbs \<and> timer_waits s = 0 \<and> set (ended_waits s) \<subseteq> {Operation_aborted} \<and> \<not> timedout s"

lemma start_recieve_sels [simp]:
  "udp_cbs (start_recieve now s) = udp_cbs s"
  "timer_waits (start_recieve now s) = 0"
  "ended_waits (start_recieve now s) = ended_waits s @ replicate (timer_waits s) Operation_aborted"
  "timedout (start_recieve now s) = False"
  "receives (start_recieve now s) = receives s + 1"
  "udp_log (start_recieve now s) = udp_log s"
  by (simp_all add: start_recieve_def set_expiry_def Let_def)

lemma udp_run_idle:
  "udp_idle cbs (udp_run now (UDPReceiver_new period cbs))"
  "receives (udp_run now (UDPReceiver_new period cbs)) = 1"
  "udp_log (udp_run now (UDPReceiver_new period cbs)) = []"
  by (simp_all add: udp_idle_def udp_run_def udp_run_wait_def wait_for_timeout_def UDPReceiver_new_def)

lemma udp_step_timer:
  assumes "udp_idle cbs s"
  shows "udp_idle cbs (udp_step (Timer_expires now) s)" "receives (udp_step (Timer_expires now) s) = receives s"
    "udp_log (udp_step (Timer_expires now) s) = udp_log s"
  using assms by (auto simp: udp_idle_def split: option.splits)

lemma udp_step_wait:
  assumes "udp_idle cbs s"
  shows "udp_idle cbs (udp_step (Run_wait now) s)" "receives (udp_step (Run_wait now) s) = receives s"
    "udp_log (udp_step (Run_wait now) s) = udp_log s"
  using assms by (auto simp: udp_idle_def check_timeout_def Let_def split: list.splits)

lemma udp_steps_done:
  assumes "udp_idle cbs s" "receives s = 0"
  shows "udp_idle cbs (udp_steps es s) \<and> udp_log (udp_steps es s) = udp_log s"
  using assms
proof (induction es arbitrary: s)
  case (Cons e es)
  then show ?case by (cases e) (simp_all add: udp_step_timer udp_step_wait del: udp_step.simps(2,3))
qed simp

lemma udp_step_received:
  assumes "udp_idle cbs s" "receives s = 1"
  shows "udp_idle cbs (udp_step (Received ec n now) s)"
    "receives (udp_step (Received ec n now) s) = (if ec = Success then 1 else 0)"
    "udp_log (udp_step (Received ec n now) s) =
       udp_log s @ (if ec = Success then (if callbackRead cbs then [Call_read n] else [])
                    else if callbackError cbs then [Call_error ec] else [])"
  using assms by (simp_all add: on_recieve_def udp_on_error_def udp_idle_def)

lemma udp_steps_log:
  assumes "udp_idle cbs s" "receives s = 1"
  shows "udp_idle cbs (udp_steps es s) \<and> udp_log (udp_steps es s) = udp_log s @ calls_without_timeout cbs es"
  using assms
proof (induction es arbitrary: s)
  case (Cons e es)
  note facts = udp_step_received [OF Cons.prems] udp_step_timer [OF Cons.prems(1)] udp_step_wait [OF Cons.prems(1)]
    Cons.prems
  show ?case
  proof (cases e)
    case (Received ec n now)
    then show ?thesis
      using Cons.IH [of "udp_step e s"] udp_steps_done [of cbs "udp_step e s" es] facts
      by (cases "ec = Success") (simp_all del: udp_step.simps)
  qed (use Cons.IH [of "udp_step e s"] facts in \<open>simp_all del: udp_step.simps\<close>)
qed simp

text \<open>
  The timeout of a UDP receiver never fires, whatever the period and however the events of the socket and
  of the timer come: after \<open>run\<close> the callbacks made are exactly those of a receiver without a timeout (the messages in
  their order up to the first error, and then that error once), and no wait on the timer is pending.
\<close>

lemma udp_timeout_never_fires:
  "udp_log (udp_steps es (udp_run now (UDPReceiver_new period cbs))) = calls_without_timeout cbs es
   \<and> timer_waits (udp_steps es (udp_run now (UDPReceiver_new period cbs))) = 0
   \<and> \<not> timedout (udp_steps es (udp_run now (UDPReceiver_new period cbs)))"
  using udp_steps_log [of cbs "udp_run now (UDPReceiver_new period cbs)" es]
  by (simp add: udp_idle_def [of _ "udp_steps _ _"] udp_run_idle)

text \<open>
  If another thread runs the handlers of the timer while \<open>run\<close> is still between its two calls, the new timer counts as
  expired: the timeout is reported at once and the socket is closed before the first receive.
\<close>

lemma udp_timeout_race:
  defines "s \<equiv> start_recieve 1001 (udp_steps [Timer_expires 1000, Run_wait 1000]
                  (udp_run_wait (UDPReceiver_new 5 \<lparr>callbackRead = True, callbackError = True, callbackTimeout = True\<rparr>)))"
  shows "udp_log s = [Call_timeout] \<and> \<not> socket_open s"
  by (simp add: s_def udp_run_wait_def UDPReceiver_new_def wait_for_timeout_def check_timeout_def set_expiry_def
      start_recieve_def Let_def)

section \<open>Heartbeat\<close>

text \<open>
  \<open>msgCreator\<close>, when set, is given by the messages it makes, call by call. \<open>hb_ops\<close> are the outstanding operations; a
  send refers to the member \<open>msg\<close>, and \<open>Sending m\<close> records what it held when the send was started.
\<close>

datatype hb_op = Sending string | Waiting | Cancelled_wait

record heartbeat =
  msgCreator :: "(nat \<Rightarrow> string) option"
  hb_calls :: nat
  hb_msg :: string
  hb_running :: bool
  hb_ops :: "hb_op list"

definition Heartbeat_new :: "(nat \<Rightarrow> string) option \<Rightarrow> heartbeat" where
  "Heartbeat_new creator =
     \<lparr>msgCreator = creator, hb_calls = 0, hb_msg = '''', hb_running = False, hb_ops = []\<rparr>"

definition hb_start_send :: "heartbeat \<Rightarrow> heartbeat" where
  "hb_start_send s =
     (let s = (case msgCreator s of None \<Rightarrow> s | Some f \<Rightarrow> s\<lparr>hb_msg := f (hb_calls s), hb_calls := hb_calls s + 1\<rparr>)
      in s\<lparr>hb_ops := hb_ops s @ [Sending (hb_msg s)]\<rparr>)"

definition hb_run :: "heartbeat \<Rightarrow> heartbeat" where
  "hb_run s = (if hb_running s then s else hb_start_send (s\<lparr>hb_running := True\<rparr>))"

definition hb_on_wait :: "error_code \<Rightarrow> heartbeat \<Rightarrow> heartbeat" where
  "hb_on_wait ec s = (if ec \<noteq> Success then s else hb_start_send s)"

text \<open>Setting the expiry of the timer cancels the waits on it; the outcome of the send is not looked at.\<close>

definition hb_on_send :: "heartbeat \<Rightarrow> heartbeat" where
  "hb_on_send s =
     s\<lparr>hb_ops := map (\<lambda>op. if op = Waiting then Cancelled_wait else op) (hb_ops s) @ [Waiting]\<rparr>"

datatype hb_event = Hb_run | Hb_done error_code

fun hb_step :: "hb_event \<Rightarrow> heartbeat \<Rightarrow> heartbeat" where
  "hb_step Hb_run s = hb_run s"
| "hb_step (Hb_done ec) s =
     (case hb_ops s of
        [] \<Rightarrow> s
      | Sending m # ops \<Rightarrow> hb_on_send (s\<lparr>hb_ops := ops\<rparr>)
      | Waiting # ops \<Rightarrow> hb_on_wait ec (s\<lparr>hb_ops := ops\<rparr>)
      | Cancelled_wait # ops \<Rightarrow> hb_on_wait Operation_aborted (s\<lparr>hb_ops := ops\<rparr>))"

text \<open>
  However often \<open>run\<close> is called, one operation at most is outstanding, so that the message of a send is not overwritten
  before it is sent; the heart beats on as long as no wait fails.
\<close>

definition hb_ok :: "heartbeat \<Rightarrow> bool" where
  "hb_ok s \<longleftrightarrow> hb_ops s \<in> {[], [Sending (hb_msg s)], [Waiting]} \<and> (\<not> hb_running s \<longrightarrow> hb_ops s = [])"

lemma hb_start_send_ok:
  "hb_ops s = [] \<Longrightarrow> hb_running s \<Longrightarrow> hb_ok (hb_start_send s) \<and> hb_ops (hb_start_send s) \<noteq> []"
  by (simp add: hb_ok_def hb_start_send_def Let_def split: option.splits)

lemma hb_on_wait_ok: "hb_ops s = [] \<Longrightarrow> hb_running s \<Longrightarrow> hb_ok (hb_on_wait ec s)"
  using hb_start_send_ok [of s] by (simp add: hb_on_wait_def) (simp add: hb_ok_def)

lemma hb_on_send_ok: "hb_ops s = [] \<Longrightarrow> hb_running s \<Longrightarrow> hb_ok (hb_on_send s)"
  by (simp add: hb_ok_def hb_on_send_def)

lemma hb_step_ok: "hb_ok s \<Longrightarrow> hb_ok (hb_step e s)"
  using hb_start_send_ok [of "s\<lparr>hb_running := True\<rparr>"]
  by (cases e) (auto simp: hb_ok_def [of s] hb_run_def hb_on_wait_ok hb_on_send_ok)

lemma heartbeat_one_operation: "hb_ok (fold hb_step es (Heartbeat_new creator))"
proof -
  have "hb_ok s \<Longrightarrow> hb_ok (fold hb_step es s)" for s
    by (induction es arbitrary: s) (simp_all add: hb_step_ok)
  then show ?thesis by (simp add: hb_ok_def Heartbeat_new_def)
qed

lemma heartbeat_goes_on:
  assumes "hb_ok s" "hb_ops s \<noteq> []"
  shows "hb_ops (hb_step (Hb_done Success) s) \<noteq> []"
  using assms by (auto simp: hb_ok_def hb_on_wait_def hb_on_send_def hb_start_send_def Let_def)

section \<open>GuardedContext\<close>

text \<open>
  The threads of the vector, each with whether it can be joined. \<open>signal_waits\<close> counts the waits on the signals; a
  cancelled one calls its handler with an error, which does nothing.
\<close>

datatype gc_call = Call_signal int | Call_shutdown

record guarded_context =
  gc_threads :: "(nat \<times> bool) list"
  gc_stopped :: bool
  signal_waits :: nat
  signalCallback :: bool
  shutdownCallback :: bool
  gc_log :: "gc_call list"

definition GuardedContext_new :: guarded_context where
  "GuardedContext_new =
     \<lparr>gc_threads = [], gc_stopped = False, signal_waits = 0, signalCallback = False, shutdownCallback = False,
      gc_log = []\<rparr>"

definition on_sigevent :: "error_code \<Rightarrow> int \<Rightarrow> guarded_context \<Rightarrow> guarded_context" where
  "on_sigevent ec n s =
     (if ec \<noteq> Success then s
      else let s = s\<lparr>gc_stopped := True\<rparr>
           in if signalCallback s then s\<lparr>gc_log := gc_log s @ [Call_signal n], signalCallback := False\<rparr> else s)"

definition gc_Run :: "nat \<Rightarrow> guarded_context \<Rightarrow> guarded_context" where
  "gc_Run n s =
     (if length (gc_threads s) > 0 then s
      else s\<lparr>gc_threads := map (\<lambda>i. (i, True)) [0..<n], signal_waits := signal_waits s + 1\<rparr>)"

text \<open>\<open>join\<close> throws when a thread joins itself; the result says whether all threads were joined.\<close>

fun join_threads :: "nat option \<Rightarrow> (nat \<times> bool) list \<Rightarrow> (nat \<times> bool) list \<times> bool" where
  "join_threads self [] = ([], True)"
| "join_threads self ((i, joinable) # ts) =
     (if joinable \<and> self = Some i then ((i, joinable) # ts, False)
      else case join_threads self ts of (ts', ok) \<Rightarrow> ((i, False) # ts', ok))"

definition gc_Shutdown :: "nat option \<Rightarrow> guarded_context \<Rightarrow> guarded_context \<times> bool" where
  "gc_Shutdown self s =
     (let s = (if shutdownCallback s then s\<lparr>gc_log := gc_log s @ [Call_shutdown], shutdownCallback := False\<rparr> else s);
          s = s\<lparr>signal_waits := 0\<rparr>;
          s = (if \<not> gc_stopped s then s\<lparr>gc_stopped := True\<rparr> else s)
      in case join_threads self (gc_threads s) of (ts, ok) \<Rightarrow> (s\<lparr>gc_threads := ts\<rparr>, ok))"

definition GuardedContext_with :: "nat \<Rightarrow> guarded_context" where
  "GuardedContext_with nThreads = gc_Run nThreads GuardedContext_new"

definition SetSignalCallback :: "bool \<Rightarrow> guarded_context \<Rightarrow> guarded_context" where
  "SetSignalCallback b s = s\<lparr>signalCallback := b\<rparr>"

definition SetShutdownCallback :: "bool \<Rightarrow> guarded_context \<Rightarrow> guarded_context" where
  "SetShutdownCallback b s = s\<lparr>shutdownCallback := b\<rparr>"

lemmas gc_setters [simp] = SetSignalCallback_def SetShutdownCallback_def

text \<open>An exception that leaves the destructor ends the program.\<close>

definition GuardedContext_destroy :: "nat option \<Rightarrow> guarded_context \<Rightarrow> guarded_context result" where
  "GuardedContext_destroy self s = (case gc_Shutdown self s of (s', joined) \<Rightarrow> if joined then Inr s' else Inl System_error)"

datatype gc_op = Set_signal_callback bool | Set_shutdown_callback bool | Do_run nat | Signal_event error_code int
  | Do_shutdown "nat option"

fun gc_step :: "gc_op \<Rightarrow> guarded_context \<Rightarrow> guarded_context" where
  "gc_step (Set_signal_callback b) s = SetSignalCallback b s"
| "gc_step (Set_shutdown_callback b) s = SetShutdownCallback b s"
| "gc_step (Do_run n) s = gc_Run n s"
| "gc_step (Signal_event ec n) s =
     (if signal_waits s = 0 then s else on_sigevent ec n (s\<lparr>signal_waits := signal_waits s - 1\<rparr>))"
| "gc_step (Do_shutdown self) s = fst (gc_Shutdown self s)"

text \<open>Shutting down joins every thread, unless a thread of the context does it before it has been joined.\<close>

lemma join_threads_correct:
  "snd (join_threads self ts) \<longleftrightarrow> list_all (\<lambda>p. \<not> (snd p \<and> self = Some (fst p))) ts"
  "snd (join_threads self ts) \<Longrightarrow> fst (join_threads self ts) = map (\<lambda>(i, j). (i, False)) ts"
  by (induction ts rule: join_threads.induct) (auto split: prod.splits if_splits)

lemma gc_Shutdown_join:
  "snd (gc_Shutdown self s) = snd (join_threads self (gc_threads s))"
  "gc_threads (fst (gc_Shutdown self s)) = fst (join_threads self (gc_threads s))"
  "gc_stopped (fst (gc_Shutdown self s))"
  by (simp_all add: gc_Shutdown_def Let_def split: prod.split)

lemma shutdown_joins:
  "snd (gc_Shutdown self s) \<longleftrightarrow> list_all (\<lambda>p. \<not> (snd p \<and> self = Some (fst p))) (gc_threads s)"
  "snd (gc_Shutdown self s) \<Longrightarrow> gc_threads (fst (gc_Shutdown self s)) = map (\<lambda>(i, j). (i, False)) (gc_threads s)"
  "gc_stopped (fst (gc_Shutdown self s))"
  by (simp_all add: gc_Shutdown_join join_threads_correct)

text \<open>Each callback is called at most once for each time it is set.\<close>

lemma gc_step_calls:
  "count_list (gc_log (gc_step e s)) Call_shutdown + (if shutdownCallback (gc_step e s) then 1 else 0)
   \<le> count_list (gc_log s) Call_shutdown + (if shutdownCallback s then 1 else 0)
      + (if e = Set_shutdown_callback True then 1 else 0)"
  by (cases e) (auto simp: gc_Run_def on_sigevent_def gc_Shutdown_def Let_def split: prod.splits)

lemma shutdown_callback_called_once:
  "count_list (gc_log (fold gc_step es GuardedContext_new)) Call_shutdown
   \<le> count_list es (Set_shutdown_callback True)"
proof -
  have "count_list (gc_log (fold gc_step es s)) Call_shutdown
    \<le> count_list (gc_log s) Call_shutdown + (if shutdownCallback s then 1 else 0)
       + count_list es (Set_shutdown_callback True)" for s
  proof (induction es arbitrary: s)
    case (Cons e es)
    show ?case using Cons.IH [of "gc_step e s"] gc_step_calls [of e s] by (simp split: if_splits)
  qed simp
  from this [of GuardedContext_new] show ?thesis by (simp add: GuardedContext_new_def)
qed

text \<open>
  Whatever has happened before, a context that is destroyed by a thread of somebody else is stopped and all its threads have
  been joined; by one of its own threads, say in a completion handler that drops the last pointer to it, the program ends, unless
  the thread has been joined before.
\<close>

lemma gc_step_threads: "map fst (gc_threads (gc_step e s)) = map fst (gc_threads s) \<or> gc_threads s = []"
proof -
  have "map fst (fst (join_threads self ts)) = map fst ts" for self ts
    by (induction ts rule: join_threads.induct) (auto split: prod.splits)
  then show ?thesis
    by (cases e) (auto simp: gc_Run_def on_sigevent_def Let_def gc_Shutdown_join)
qed

lemma destroyed_from_outside:
  "\<exists>s. GuardedContext_destroy None (fold gc_step es (GuardedContext_with n)) = Inr s \<and> gc_stopped s
     \<and> (\<forall>p \<in> set (gc_threads s). \<not> snd p) \<and> (0 < n \<longrightarrow> map fst (gc_threads s) = [0..<n])"
proof -
  let ?s = "fold gc_step es (GuardedContext_with n)"
  have names: "map fst (gc_threads (fold gc_step es s)) = [0..<n]" if "0 < n" "map fst (gc_threads s) = [0..<n]" for s
    using that
  proof (induction es arbitrary: s)
    case (Cons e es)
    have "gc_threads s \<noteq> []" using Cons.prems by (cases n) auto
    then have "map fst (gc_threads (gc_step e s)) = [0..<n]" using gc_step_threads [of e s] Cons.prems(2) by simp
    then show ?case using Cons.IH [OF Cons.prems(1)] by simp
  qed simp
  have ok: "snd (gc_Shutdown None ?s)" by (simp add: shutdown_joins(1) list_all_iff)
  have "map fst (gc_threads (GuardedContext_with n)) = [0..<n]"
    by (simp add: GuardedContext_with_def gc_Run_def GuardedContext_new_def comp_def)
  then have "0 < n \<longrightarrow> map fst (gc_threads ?s) = [0..<n]" using names by blast
  moreover have "fst \<circ> (\<lambda>(i, j). (i, False)) = (fst :: nat \<times> bool \<Rightarrow> nat)" by auto
  ultimately show ?thesis
    using ok shutdown_joins(2,3) [of None ?s] by (auto simp: GuardedContext_destroy_def split: prod.splits)
qed

lemma destroyed_by_own_thread:
  assumes "i < n"
  shows "GuardedContext_destroy (Some i) (GuardedContext_with n) = Inl System_error"
proof -
  have "gc_threads (GuardedContext_with n) = map (\<lambda>i. (i, True)) [0..<n]"
    by (simp add: GuardedContext_with_def gc_Run_def GuardedContext_new_def)
  then have "\<not> snd (gc_Shutdown (Some i) (GuardedContext_with n))"
    unfolding shutdown_joins(1) using assms by (auto simp: list_all_iff)
  then show ?thesis by (simp add: GuardedContext_destroy_def case_prod_beta)
qed

end
