(* ===== verification/Topic_Discovery.thy ===== *)
theory Topic_Discovery
  imports Topic_Client Asio_Utils Shared_State
begin

text \<open>
  How receivers find senders: \<^verbatim>\<open>Networking/src/MultiClientSender.hpp\<close> and
  \<^verbatim>\<open>MultiClientReceiver.hpp\<close> with the arguments of \<^verbatim>\<open>args.hpp\<close>, put together from the parts
  modelled elsewhere: the sender beats with the \<open>Heartbeat\<close> of \<open>Asio_Utils\<close>, the receiver listens with its
  \<open>UDPReceiver\<close>, and connects as in \<open>Topic_Client\<close>.
\<close>

section \<open>Arguments\<close>

record listen_args =
  la_receiver :: receiver_args
  broadcastRcvPort :: nat
  maxMessageLength :: nat
  la_timeout_seconds :: rat
  la_verbose :: bool

definition default_listen_args :: listen_args where
  "default_listen_args =
     \<lparr>la_receiver = \<lparr>permitLoopback = True, useSSL = True\<rparr>, broadcastRcvPort = 8081, maxMessageLength = 500,
      la_timeout_seconds = 3, la_verbose = False\<rparr>"

record sender_args =
  broadcastDestination :: string
  broadcastSendPort :: nat
  broadcastReceiverPort :: nat
  heartbeatPeriod_seconds :: rat
  serverBindAddress :: string
  serverBindPort_insecure :: nat
  serverBindPort_secure :: nat
  sa_verbose :: bool

definition default_sender_args :: sender_args where
  "default_sender_args =
     \<lparr>broadcastDestination = ''255.255.255.255'', broadcastSendPort = 0, broadcastReceiverPort = 8081,
      heartbeatPeriod_seconds = 1 / 2, serverBindAddress = ''0.0.0.0'', serverBindPort_insecure = 0,
      serverBindPort_secure = 0, sa_verbose = False\<rparr>"

section \<open>The sender\<close>

record topic_sender =
  sd_topic :: string
  sd_state :: "shared_state option"
  sd_listeners :: "(nat \<times> security_mode) list"
  boundServerPort_insecure :: nat
  boundServerPort_secure :: nat
  sd_id :: nat

text \<open>The callbacks of the server: reads are printed, and comings and goings when it is to be verbose.\<close>

definition MultiClientSender_new :: "(nat \<Rightarrow> nat) \<Rightarrow> string \<Rightarrow> sender_args \<Rightarrow> nat \<Rightarrow> topic_sender" where
  "MultiClientSender_new bound topic a ident =
     (case sender_listeners bound (serverBindPort_insecure a) (serverBindPort_secure a) of
        (ls, insecure, secure) \<Rightarrow>
          \<lparr>sd_topic = topic,
           sd_state = Some (shared_state_new ''''
             (\<lambda>c. c = Cb_ws_read \<or> sa_verbose a \<and> (c = Cb_upgrade \<or> c = Cb_close)) False 0),
           sd_listeners = ls, boundServerPort_insecure = insecure, boundServerPort_secure = secure, sd_id = ident\<rparr>)"

text \<open>\<open>clock k\<close>: the system time at the \<open>k\<close>-th message.\<close>

definition sender_message :: "(nat \<Rightarrow> nat) \<Rightarrow> topic_sender \<Rightarrow> nat \<Rightarrow> string" where
  "sender_message clock sd k =
     heartbeat_message (sd_topic sd) (boundServerPort_insecure sd) (boundServerPort_secure sd) (sd_id sd) (clock k)"

definition StartHeartbeat :: "(nat \<Rightarrow> nat) \<Rightarrow> topic_sender \<Rightarrow> heartbeat option" where
  "StartHeartbeat clock sd =
     (case sd_state sd of
        None \<Rightarrow> None
      | Some st \<Rightarrow> Some (hb_run (Heartbeat_new (Some (sender_message clock sd)))))"

definition sender_SendAsync ::
  "(kind \<Rightarrow> nat \<Rightarrow> 'e session_view) \<Rightarrow> item \<Rightarrow> nat \<Rightarrow> topic_sender \<Rightarrow> topic_sender \<times> 'e outcome list" where
  "sender_SendAsync view it mx sd =
     (case sd_state sd of
        None \<Rightarrow> (sd, [])
      | Some st \<Rightarrow> (case broadcast view it mx True False st of (st', es) \<Rightarrow> (sd\<lparr>sd_state := Some st'\<rparr>, es)))"

section \<open>The receiver\<close>

text \<open>
  \<open>ln_there\<close>: the receiver itself still exists. The callback for messages has a plain pointer to it, the one for the timeout
  a weak pointer; the timeout stops the \<open>io_context\<close>. A datagram longer than the buffer is cut.
\<close>

record listening =
  ln_net :: topic_net
  ln_udp :: udp_receiver
  ln_args :: listen_args
  ln_there :: bool
  ln_stopped :: bool

definition ListenForTopics :: "int \<Rightarrow> listen_args \<Rightarrow> topic_net \<Rightarrow> listening" where
  "ListenForTopics now a net =
     \<lparr>ln_net = net,
      ln_udp = udp_run now (UDPReceiver_new (la_timeout_seconds a)
        \<lparr>callbackRead = True, callbackError = True, callbackTimeout = True\<rparr>),
      ln_args = a, ln_there = True, ln_stopped = False\<rparr>"

text \<open>\<open>RequestTopics\<close>: a first attempt is posted; \<open>on_wait\<close> renews it.\<close>

definition RequestTopics :: "string \<Rightarrow> endpoint \<Rightarrow> net_event" where
  "RequestTopics topic ep = Attempt topic ep"

datatype listen_event =
    Datagram string string int
  | Udp_other udp_event
  | Requested string endpoint
  | Client_gone nat
  | Receiver_gone

fun is_received :: "udp_event \<Rightarrow> bool" where
  "is_received (Received ec n now) \<longleftrightarrow> ec = Success"
| "is_received _ \<longleftrightarrow> False"

fun listen_step :: "listen_event \<Rightarrow> listening \<Rightarrow> listening result" where
  "listen_step (Datagram address msg now) y =
     (if receives (ln_udp y) = 0 then Inr y
      else let m = take (maxMessageLength (ln_args y)) msg;
               u = udp_step (Received Success (length m) now) (ln_udp y)
           in if \<not> ln_there y then Inl Use_after_free
              else (case tn_step (Broadcast_from address m) (ln_net y) of
                      Inl e \<Rightarrow> Inl e
                    | Inr net \<Rightarrow> Inr (y\<lparr>ln_net := net, ln_udp := u\<rparr>)))"
| "listen_step (Udp_other e) y =
     (if is_received e then Inr y
      else let u = udp_step e (ln_udp y);
               fired = count_list (udp_log u) Call_timeout > count_list (udp_log (ln_udp y)) Call_timeout
           in Inr (y\<lparr>ln_udp := u, ln_stopped := (ln_stopped y \<or> fired \<and> ln_there y)\<rparr>))"
| "listen_step (Requested topic ep) y =
     (case tn_step (RequestTopics topic ep) (ln_net y) of Inl e \<Rightarrow> Inl e | Inr net \<Rightarrow> Inr (y\<lparr>ln_net := net\<rparr>))"
| "listen_step (Client_gone p) y =
     (case tn_step (Gone p) (ln_net y) of Inl e \<Rightarrow> Inl e | Inr net \<Rightarrow> Inr (y\<lparr>ln_net := net\<rparr>))"
| "listen_step Receiver_gone y = Inr (y\<lparr>ln_there := False\<rparr>)"

fun listen_run :: "listen_event list \<Rightarrow> listening \<Rightarrow> listening result" where
  "listen_run [] y = Inr y"
| "listen_run (e # es) y = (case listen_step e y of Inl f \<Rightarrow> Inl f | Inr y' \<Rightarrow> listen_run es y')"

fun listen_ok :: "listen_event \<Rightarrow> bool" where
  "listen_ok (Datagram address msg now) \<longleftrightarrow> addr_ok (address, 0)"
| "listen_ok (Requested topic ep) \<longleftrightarrow> addr_ok ep"
| "listen_ok _ \<longleftrightarrow> True"

section \<open>The timeout does not stop anything\<close>

text \<open>The UDP receiver of a run, in the terms of \<open>Asio_Utils\<close>.\<close>

definition listens :: "listening \<Rightarrow> bool" where
  "listens y \<longleftrightarrow>
     udp_idle \<lparr>callbackRead = True, callbackError = True, callbackTimeout = True\<rparr> (ln_udp y)
     \<and> receives (ln_udp y) \<le> 1 \<and> Call_timeout \<notin> set (udp_log (ln_udp y)) \<and> \<not> ln_stopped y"

lemma udp_step_listens:
  assumes "udp_idle \<lparr>callbackRead = True, callbackError = True, callbackTimeout = True\<rparr> u" and "receives u \<le> 1"
    and "Call_timeout \<notin> set (udp_log u)"
  shows "udp_idle \<lparr>callbackRead = True, callbackError = True, callbackTimeout = True\<rparr> (udp_step e u)
     \<and> receives (udp_step e u) \<le> 1 \<and> Call_timeout \<notin> set (udp_log (udp_step e u))"
proof (cases e)
  case (Received ec n now)
  show ?thesis
  proof (cases "receives u = 1")
    case True
    from udp_step_received [OF assms(1) True, of ec n now] assms(3) show ?thesis
      by (simp add: Received del: udp_step.simps)
  next
    case False
    then show ?thesis using assms by (simp add: Received)
  qed
next
  case (Timer_expires now)
  from udp_step_timer [OF assms(1), of now] assms show ?thesis by (simp add: Timer_expires del: udp_step.simps)
next
  case (Run_wait now)
  from udp_step_wait [OF assms(1), of now] assms show ?thesis by (simp add: Run_wait del: udp_step.simps)
qed

lemma listen_start: "listens (ListenForTopics now a net)"
  by (simp add: listens_def ListenForTopics_def udp_run_idle)

lemma listen_step_listens:
  assumes y: "listens y" and run: "listen_step e y = Inr y'"
  shows "listens y'"
proof (cases e)
  case (Datagram address msg now)
  let ?m = "take (maxMessageLength (ln_args y)) msg"
  from udp_step_listens [of "ln_udp y" "Received Success (length ?m) now"] y run Datagram show ?thesis
    by (auto simp: listens_def Let_def simp del: udp_step.simps tn_step.simps split: if_splits sum.splits)
next
  case (Udp_other u)
  have "count_list (udp_log w) Call_timeout = 0" if "Call_timeout \<notin> set (udp_log w)" for w
    using that by (simp add: count_list_0_iff)
  with udp_step_listens [of "ln_udp y" u] y run Udp_other show ?thesis
    by (auto simp: listens_def Let_def simp del: udp_step.simps split: if_splits)
qed (use assms in \<open>auto simp: listens_def simp del: tn_step.simps split: sum.splits\<close>)

lemma listen_run_listens: "listens y \<Longrightarrow> listen_run es y = Inr y' \<Longrightarrow> listens y'"
proof (induction es arbitrary: y)
  case Nil
  then show ?case by simp
next
  case (Cons e es)
  from Cons.prems(2) obtain y1 where y1: "listen_step e y = Inr y1" "listen_run es y1 = Inr y'"
    by (auto split: sum.splits simp del: listen_step.simps)
  from Cons.IH [OF listen_step_listens [OF Cons.prems(1) y1(1)] y1(2)] show ?case .
qed

section \<open>Topics that are subscribed stay subscribed\<close>

lemma tn_connect_states:
  "map_of (topicStates (tn_receiver y)) topic = Some (Some st) \<Longrightarrow>
     map_of (topicStates (tn_receiver (tn_connect t ep y))) topic = Some (Some st)"
  "rc_args (tn_receiver (tn_connect t ep y)) = rc_args (tn_receiver y)"
  "uniqueInstanceID (tn_receiver (tn_connect t ep y)) = uniqueInstanceID (tn_receiver y)"
  by (auto simp: tn_connect_def ConnectToServer_def Let_def entry_def update_conv' split: prod.splits option.splits if_splits)

text \<open>What a step keeps of the receiver.\<close>

definition same_subscription :: "topic_net \<Rightarrow> topic_net \<Rightarrow> bool" where
  "same_subscription y y' \<longleftrightarrow>
     (\<forall>topic st. map_of (topicStates (tn_receiver y)) topic = Some (Some st) \<longrightarrow>
        map_of (topicStates (tn_receiver y')) topic = Some (Some st))
     \<and> rc_args (tn_receiver y') = rc_args (tn_receiver y)
     \<and> uniqueInstanceID (tn_receiver y') = uniqueInstanceID (tn_receiver y)"

lemma tn_step_subscription: "tn_step e y = Inr y' \<Longrightarrow> same_subscription y y'"
  by (cases e) (auto simp: same_subscription_def tn_connect_states split: sum.splits option.splits prod.splits if_splits)

lemma listen_step_net:
  assumes "listen_step e y = Inr y'" and "tn_ok (ln_net y)" and "listen_ok e"
  shows "same_subscription (ln_net y) (ln_net y') \<and> tn_ok (ln_net y') \<and> ln_args y' = ln_args y"
proof -
  have stay: "same_subscription (ln_net y) (ln_net y)" by (simp add: same_subscription_def)
  have ok: "tn_ok net" if "tn_step ev (ln_net y) = Inr net" "event_ok ev" for ev net
    using tn_run_ok [of "ln_net y" "[ev]" net] assms(2) that by simp
  show ?thesis
    using assms stay tn_step_subscription ok
    by (cases e)
      (fastforce simp: Let_def RequestTopics_def simp del: tn_step.simps udp_step.simps split: if_splits sum.splits)+
qed

lemma listen_run_net:
  assumes "listen_run es y = Inr y'" and "tn_ok (ln_net y)" and "\<forall>e \<in> set es. listen_ok e"
  shows "same_subscription (ln_net y) (ln_net y') \<and> tn_ok (ln_net y') \<and> ln_args y' = ln_args y"
  using assms
proof (induction es arbitrary: y)
  case Nil
  then show ?case by (simp add: same_subscription_def)
next
  case (Cons e es)
  from Cons.prems(1) obtain y1 where y1: "listen_step e y = Inr y1" "listen_run es y1 = Inr y'"
    by (auto split: sum.splits simp del: listen_step.simps)
  have "listen_ok e" using Cons.prems(3) by simp
  from listen_step_net [OF y1(1) Cons.prems(2) this] Cons.IH [OF y1(2)] Cons.prems(3)
  show ?case by (auto simp: same_subscription_def)
qed

section \<open>Discovery\<close>

text \<open>Every message under way is one that the sender made.\<close>

definition beats :: "(nat \<Rightarrow> string) \<Rightarrow> heartbeat \<Rightarrow> bool" where
  "beats f s \<longleftrightarrow> msgCreator s = Some f \<and> (\<forall>m. Sending m \<in> set (hb_ops s) \<longrightarrow> (\<exists>k. m = f k))"

lemma hb_start_send_beats: "beats f s \<Longrightarrow> beats f (hb_start_send s)"
  by (auto simp: beats_def hb_start_send_def Let_def)

lemma hb_step_beats:
  assumes "beats f s"
  shows "beats f (hb_step e s)"
proof -
  have sub: "beats f (s\<lparr>hb_ops := ops\<rparr>)" if "set ops \<subseteq> set (hb_ops s)" for ops
    using that assms by (auto simp: beats_def)
  have run: "beats f (s\<lparr>hb_running := True\<rparr>)" using assms by (simp add: beats_def)
  have send: "beats f (hb_on_send t)" if "beats f t" for t
    using that by (auto simp: beats_def hb_on_send_def)
  have wait: "beats f (hb_on_wait ec t)" if "beats f t" for ec t
    using that hb_start_send_beats by (simp add: hb_on_wait_def)
  show ?thesis
  proof (cases e)
    case Hb_run
    then show ?thesis using assms hb_start_send_beats [OF run] by (simp add: hb_run_def)
  next
    case (Hb_done ec)
    show ?thesis
    proof (cases "hb_ops s")
      case Nil
      then show ?thesis using Hb_done assms by simp
    next
      case (Cons op ops)
      then have "beats f (s\<lparr>hb_ops := ops\<rparr>)" by (intro sub) auto
      then show ?thesis using Hb_done Cons send wait by (cases op) simp_all
    qed
  qed
qed

lemma sender_beats:
  assumes "StartHeartbeat clock sd = Some h"
  shows "beats (sender_message clock sd) (fold hb_step es h)"
proof -
  have "beats f (fold hb_step es s)" if "beats f s" for f s
    using that by (induction es arbitrary: s) (simp_all add: hb_step_beats)
  moreover have "beats (sender_message clock sd) (hb_step Hb_run (Heartbeat_new (Some (sender_message clock sd))))"
    by (rule hb_step_beats) (simp add: beats_def Heartbeat_new_def)
  then have "beats (sender_message clock sd) h" using assms by (auto simp: StartHeartbeat_def split: option.splits)
  ultimately show ?thesis by blast
qed

lemma message_target:
  assumes "\<forall>c \<in> set topic. is_word c" and "topic \<noteq> []" and "a < 2 ^ 16" and "b < 2 ^ 16" and "i < 2 ^ 64" and "t < 2 ^ 64"
    and "port = (if useSSL (rc_args r) then b else a)" and "0 < port" and "map_of (topicStates r) topic \<noteq> None"
    and "permitLoopback (rc_args r) \<or> of_nat i \<noteq> uniqueInstanceID r \<or> uniqueInstanceID r = 0"
  shows "broadcast_target address (heartbeat_message topic a b i t) r = Inr (Some (topic, (address, port)))"
  using heartbeat_parsed [OF assms(1-6)] assms(3,4,7-10)
  by (auto simp: broadcast_target_def Let_def unat_of_nat)


definition example_sender :: topic_sender where
  "example_sender = MultiClientSender_new id ''cam'' (default_sender_args\<lparr>serverBindPort_secure := 8443\<rparr>) 9"


text \<open>
  A sender with the default arguments is never found: its ports are 0, for which it does not listen at all (and not at any free port),
  and the announcement of a port 0 is ignored by every receiver.
\<close>

lemma default_sender_never_found:
  assumes "\<forall>c \<in> set topic. is_word c" and "topic \<noteq> []" and "ident < 2 ^ 64" and "clock k < 2 ^ 64"
    and "sd = MultiClientSender_new bound topic default_sender_args ident"
  shows "sd_listeners sd = [] \<and> ProcessBroadcast owned fresh address (sender_message clock sd k) r = Inr (False, r)"
proof -
  have sd: "sd_listeners sd = []" "sd_topic sd = topic" "sd_id sd = ident" "boundServerPort_insecure sd = 0" "boundServerPort_secure sd = 0"
    using assms(5) by (simp_all add: MultiClientSender_new_def sender_listeners_def default_sender_args_def)
  have "broadcast_target address (sender_message clock sd k) r = Inr None"
    using heartbeat_parsed [OF assms(1,2) _ _ assms(3,4), of 0 0]
    by (simp add: broadcast_target_def sender_message_def sd)
  with sd(1) show ?thesis by (simp add: ProcessBroadcast_def)
qed

text \<open>
  The program of the example waits for the receiver's timeout to stop the \<open>io_context\<close>: that does not happen.
\<close>

lemma listening_never_stopped:
  assumes "listen_run es (ListenForTopics now a net) = Inr y"
  shows "\<not> ln_stopped y"
  using listen_run_listens [OF listen_start assms] by (simp add: listens_def)

text \<open>
  The UDP receiver outlives the receiver of topics: the operation it has under way owns it, and its callback for messages has a plain
  pointer to the receiver of topics.
\<close>

lemma datagram_after_receiver_gone:
  assumes "listen_run es (ListenForTopics now a net) = Inr y" and "receives (ln_udp y) = 1"
  shows "listen_run [Receiver_gone, Datagram address msg t] y = Inl Use_after_free"
  using assms by (simp add: Let_def)

end
