(* ===== verification/Pooled_Send.thy ===== *)
theory Pooled_Send
  imports IPC_Channel Ws_Session Topic_Discovery
begin

text \<open>
  Sending without copying, the way \<^verbatim>\<open>Networking/examples/Example_Networking.cpp\<close> (\<open>ProducerProcess\<close>) does it: an element is
  taken from a \<open>MemPoolIPC\<close>, its address is handed to \<open>MultiClientSender::SendAsync\<close>, and a completion handler that does nothing holds the
  shared pointer. Every session that is to send the message gets a copy of the handler, so that the element goes back to
  the pool when the last of them is done with it. Pool, sender and WebSocket sessions are those of the other theories.
\<close>

section \<open>The producer\<close>

type_synonym session_id = "kind \<times> nat"

text \<open>
  \<open>pd_posted\<close>: the calls of \<open>on_send\<close> that have been posted to the strands of the sessions; \<open>pd_runs\<close>: the
  sessions; \<open>pd_elems\<close>: the element of each message some handler of which still exists; messages are numbered, and so are the handlers.
\<close>

record 'h producing =
  pd_pool :: "'h mp_sys"
  pd_sender :: topic_sender
  pd_runs :: "(session_id \<times> ws_session run) list"
  pd_posted :: "(session_id \<times> item \<times> nat) list"
  pd_elems :: "(nat \<times> sptr) list"
  pd_next :: nat

definition producing_start :: "topic_sender \<Rightarrow> mempool \<Rightarrow> 'h \<Rightarrow> 'h producing" where
  "producing_start sd mp h =
     \<lparr>pd_pool = mp_start mp h, pd_sender = sd, pd_runs = [], pd_posted = [], pd_elems = [], pd_next = 0\<rparr>"

text \<open>The messages that wait to be submitted or are in the queue of a session: with each of them goes a handler.\<close>

definition carried :: "'h producing \<Rightarrow> item list" where
  "carried y = map (\<lambda>(p, it, mx). it) (pd_posted y) @ concat (map (\<lambda>(p, r). ws_queue (r_state r)) (pd_runs y))"

definition holds_handler :: "nat \<Rightarrow> 'h producing \<Rightarrow> bool" where
  "holds_handler k y \<longleftrightarrow> list_ex (\<lambda>it. it_handler it = Some k) (carried y)"

definition session_of :: "(session_id \<Rightarrow> ws_session) \<Rightarrow> session_id \<Rightarrow> 'h producing \<Rightarrow> ws_session run" where
  "session_of fresh p y = (case map_of (pd_runs y) p of None \<Rightarrow> run_start (fresh p) | Some r \<Rightarrow> r)"

definition set_session :: "session_id \<Rightarrow> ws_session run \<Rightarrow> 'h producing \<Rightarrow> 'h producing" where
  "set_session p r y = y\<lparr>pd_runs := (p, r) # filter (\<lambda>e. fst e \<noteq> p) (pd_runs y)\<rparr>"

text \<open>The shared pointers whose last handler has gone give their elements back.\<close>

definition give_back :: "'h segment \<Rightarrow> ipc_layout \<Rightarrow> addr \<Rightarrow> nat \<Rightarrow> 'h producing \<Rightarrow> 'h producing result" where
  "give_back S L B k y =
     (case map_of (pd_elems y) k of
        None \<Rightarrow> Inr y
      | Some x \<Rightarrow>
          (case mp_step S L (Release B (position x (ms_held (pd_pool y))) False) (pd_pool y) of
             Inl e \<Rightarrow> Inl e
           | Inr pool \<Rightarrow> Inr (y\<lparr>pd_pool := pool, pd_elems := filter (\<lambda>e. fst e \<noteq> k) (pd_elems y)\<rparr>)))"

fun sweep :: "'h segment \<Rightarrow> ipc_layout \<Rightarrow> addr \<Rightarrow> nat list \<Rightarrow> 'h producing \<Rightarrow> 'h producing result" where
  "sweep S L B [] y = Inr y"
| "sweep S L B (k # ks) y =
     (case (if holds_handler k y then Inr y else give_back S L B k y) of
        Inl e \<Rightarrow> Inl e
      | Inr y' \<Rightarrow> sweep S L B ks y')"

definition posts :: "'e outcome list \<Rightarrow> (session_id \<times> item \<times> nat) list" where
  "posts es = concat (map (\<lambda>e. case e of Session_send k p it mx \<Rightarrow> [((k, p), it, mx)] | _ \<Rightarrow> []) es)"

definition message_item :: "addr \<Rightarrow> size_t \<Rightarrow> nat \<times> sptr \<Rightarrow> item" where
  "message_item B sz e = \<lparr>it_ptr = abs_ptr B (fst (snd e)), it_size = sz, it_handler = Some (fst e), it_force = False\<rparr>"

text \<open>
  One iteration of the producer's loop. When the pool is depleted the program sleeps and goes on. The local variable \<open>ptr\<close> goes
  at the end: then only the handlers are left.
\<close>

definition producer_step ::
  "'h segment \<Rightarrow> ipc_layout \<Rightarrow> addr \<Rightarrow> size_t \<Rightarrow> (kind \<Rightarrow> nat \<Rightarrow> 'e session_view) \<Rightarrow> 'h producing \<Rightarrow> 'h producing result" where
  "producer_step S L B sz view y =
     (case mp_step S L (Make B True) (pd_pool y) of
        Inl e \<Rightarrow> Inl e
      | Inr pool \<Rightarrow>
          (case drop (length (ms_held (pd_pool y))) (ms_held pool) of
             [] \<Rightarrow> Inr (y\<lparr>pd_pool := pool\<rparr>)
           | x # _ \<Rightarrow>
               (case sender_SendAsync view (message_item B sz (pd_next y, x)) (2 ^ 64 - 1) (pd_sender y) of
                  (sd, outs) \<Rightarrow>
                    sweep S L B [pd_next y]
                      (y\<lparr>pd_pool := pool, pd_sender := sd, pd_posted := pd_posted y @ posts outs,
                         pd_elems := pd_elems y @ [(pd_next y, x)], pd_next := pd_next y + 1\<rparr>))))"

text \<open>
  What else happens, on the threads of the \<open>io_context\<close>: a posted \<open>on_send\<close> is run (in any order), the operation a session has
  under way completes, a session that has none and to which nothing is posted is destroyed, the registers of the server change. A
  session of which the producer has not heard begins as \<open>fresh\<close> says. The tracker of rates may be any at any time.
\<close>

datatype 'e produce_event =
    Produced "kind \<Rightarrow> nat \<Rightarrow> 'e session_view"
  | Delivered nat rat tracker
  | Completed session_id rat tracker error_code nat
  | Session_over session_id
  | Registers shared_state

fun produce_step ::
  "'h segment \<Rightarrow> ipc_layout \<Rightarrow> addr \<Rightarrow> size_t \<Rightarrow> (session_id \<Rightarrow> ws_session) \<Rightarrow> 'e produce_event \<Rightarrow> 'h producing
   \<Rightarrow> 'h producing result" where
  "produce_step S L B sz fresh (Produced view) y = producer_step S L B sz view y"
| "produce_step S L B sz fresh (Delivered j now T) y =
     (if length (pd_posted y) \<le> j then Inr y
      else (case pd_posted y ! j of (p, it, mx) \<Rightarrow>
              (case io_step ws_queue ws_submit ws_complete (Submit (now, T) it mx) (session_of fresh p y) of
                 Inl e \<Rightarrow> Inl e
               | Inr r \<Rightarrow> sweep S L B (map fst (pd_elems y))
                            (set_session p r (y\<lparr>pd_posted := drop_nth j (pd_posted y)\<rparr>)))))"
| "produce_step S L B sz fresh (Completed p now T ec n) y =
     (case io_step ws_queue ws_submit ws_complete (Finish (now, T) ec n) (session_of fresh p y) of
        Inl e \<Rightarrow> Inl e
      | Inr r \<Rightarrow> sweep S L B (map fst (pd_elems y)) (set_session p r y))"
| "produce_step S L B sz fresh (Session_over p) y =
     (if r_pending (session_of fresh p y) = [] \<and> \<not> list_ex (\<lambda>e. fst e = p) (pd_posted y)
      then Inr (y\<lparr>pd_runs := filter (\<lambda>e. fst e \<noteq> p) (pd_runs y)\<rparr>) else Inr y)"
| "produce_step S L B sz fresh (Registers st) y = Inr (y\<lparr>pd_sender := (pd_sender y)\<lparr>sd_state := Some st\<rparr>\<rparr>)"

fun produce_run ::
  "'h segment \<Rightarrow> ipc_layout \<Rightarrow> addr \<Rightarrow> size_t \<Rightarrow> (session_id \<Rightarrow> ws_session) \<Rightarrow> 'e produce_event list \<Rightarrow> 'h producing
   \<Rightarrow> 'h producing result" where
  "produce_run S L B sz fresh [] y = Inr y"
| "produce_run S L B sz fresh (e # es) y =
     (case produce_step S L B sz fresh e y of Inl f \<Rightarrow> Inl f | Inr y' \<Rightarrow> produce_run S L B sz fresh es y')"

section \<open>The invariant\<close>

text \<open>The elements lent are those of the messages; what the sessions carry are these messages, at the addresses of their elements.\<close>

definition produce_pre :: "nat \<Rightarrow> ipc_layout \<Rightarrow> size_t \<Rightarrow> size_t \<Rightarrow> addr \<Rightarrow> size_t \<Rightarrow> 'h producing \<Rightarrow> bool" where
  "produce_pre Z L n cnt B sz y \<longleftrightarrow>
     mp_inv Z L n cnt (pd_pool y) \<and> ms_weak (pd_pool y) = []
     \<and> (\<forall>(p, r) \<in> set (pd_runs y). run_ok ws_queue r) \<and> distinct (map fst (pd_runs y))
     \<and> distinct (map fst (pd_elems y)) \<and> distinct (map snd (pd_elems y))
     \<and> snd ` set (pd_elems y) = set (ms_held (pd_pool y)) \<and> (\<forall>e \<in> set (pd_elems y). fst e < pd_next y)
     \<and> set (carried y) \<subseteq> message_item B sz ` set (pd_elems y)"

definition produce_ok :: "nat \<Rightarrow> ipc_layout \<Rightarrow> size_t \<Rightarrow> size_t \<Rightarrow> addr \<Rightarrow> size_t \<Rightarrow> 'h producing \<Rightarrow> bool" where
  "produce_ok Z L n cnt B sz y \<longleftrightarrow>
     produce_pre Z L n cnt B sz y \<and> (\<forall>e \<in> set (pd_elems y). holds_handler (fst e) y)"

lemma set_carried:
  "set (carried y) = (\<lambda>(p, it, mx). it) ` set (pd_posted y) \<union> (\<Union>e \<in> set (pd_runs y). set (ws_queue (r_state (snd e))))"
  by (auto simp: carried_def split: prod.splits)

lemma holds_handler_iff: "holds_handler k y \<longleftrightarrow> (\<exists>it \<in> set (carried y). it_handler it = Some k)"
  by (simp add: holds_handler_def list_ex_iff)

lemma holds_handler_cong: "carried y' = carried y \<Longrightarrow> holds_handler k y' = holds_handler k y"
  by (simp add: holds_handler_def)

lemma give_back_good:
  assumes pre: "produce_pre Z L n cnt B sz y" and B: "map_ok Z B" and k: "\<not> holds_handler k y"
  shows "\<exists>y'. give_back S L B k y = Inr y' \<and> produce_pre Z L n cnt B sz y' \<and> carried y' = carried y
     \<and> pd_elems y' = filter (\<lambda>e. fst e \<noteq> k) (pd_elems y)"
proof (cases "map_of (pd_elems y) k")
  case None
  then have "filter (\<lambda>e. fst e \<noteq> k) (pd_elems y) = pd_elems y" by (auto simp: map_of_eq_None_iff filter_id_conv)
  then show ?thesis using pre None by (simp add: give_back_def)
next
  case (Some x)
  have p: "mp_inv Z L n cnt (pd_pool y)" "ms_weak (pd_pool y) = []" "distinct (map fst (pd_elems y))" "distinct (map snd (pd_elems y))"
    "snd ` set (pd_elems y) = set (ms_held (pd_pool y))" "set (carried y) \<subseteq> message_item B sz ` set (pd_elems y)"
    using pre by (simp_all add: produce_pre_def)
  have kx: "(k, x) \<in> set (pd_elems y)" using Some by (rule map_of_SomeD)
  then have "x \<in> set (ms_held (pd_pool y))" using p(5) by force
  from mp_release_set [OF p(1) B p(2) this, of S] obtain pool where
    r: "mp_step S L (Release B (position x (ms_held (pd_pool y))) False) (pd_pool y) = Inr pool" "mp_inv Z L n cnt pool"
      "ms_weak pool = []" "set (ms_held pool) = set (ms_held (pd_pool y)) - {x}" by blast
  let ?es = "filter (\<lambda>e. fst e \<noteq> k) (pd_elems y)"
  let ?y = "y\<lparr>pd_pool := pool, pd_elems := ?es\<rparr>"
  have only: "e = (k, x)" if "e \<in> set (pd_elems y)" "fst e = k \<or> snd e = x" for e
    using that(2)
  proof
    assume "fst e = k"
    then have "fst e = fst (k, x)" by simp
    with p(3) that(1) kx show ?thesis unfolding distinct_map by (elim conjE) (rule inj_onD)
  next
    assume "snd e = x"
    then have "snd e = snd (k, x)" by simp
    with p(4) that(1) kx show ?thesis unfolding distinct_map by (elim conjE) (rule inj_onD)
  qed
  have "snd ` set ?es = snd ` set (pd_elems y) - {x}"
  proof (intro set_eqI iffI)
    fix z
    assume "z \<in> snd ` set ?es"
    then obtain e where e: "e \<in> set (pd_elems y)" "fst e \<noteq> k" "z = snd e" by auto
    then have "e \<noteq> (k, x)" by auto
    then have "snd e \<noteq> x" using only [OF e(1)] by blast
    then show "z \<in> snd ` set (pd_elems y) - {x}" using e by simp
  next
    fix z
    assume "z \<in> snd ` set (pd_elems y) - {x}"
    then obtain e where e: "e \<in> set (pd_elems y)" "z = snd e" "z \<noteq> x" by auto
    then have "e \<noteq> (k, x)" by auto
    then have "fst e \<noteq> k" using only [OF e(1)] by blast
    then show "z \<in> snd ` set ?es" using e by simp
  qed
  moreover have "set (carried y) \<subseteq> message_item B sz ` set ?es"
  proof
    fix it
    assume it: "it \<in> set (carried y)"
    then obtain e where e: "e \<in> set (pd_elems y)" "it = message_item B sz e" using p(6) by blast
    then have "fst e \<noteq> k" using k it by (auto simp: holds_handler_iff message_item_def)
    then show "it \<in> message_item B sz ` set ?es" using e by simp
  qed
  moreover have "distinct (map fst ?es)" "distinct (map snd ?es)" using p(3,4) by (simp_all add: distinct_map_filter)
  moreover have c: "carried ?y = carried y" by (simp add: carried_def)
  ultimately have "produce_pre Z L n cnt B sz ?y" using pre r(2-4) p(5) by (simp add: produce_pre_def)
  moreover have "give_back S L B k y = Inr ?y" using Some r(1) by (simp add: give_back_def)
  ultimately show ?thesis using c by auto
qed

lemma sweep_good:
  assumes "produce_pre Z L n cnt B sz y" and B: "map_ok Z B"
  shows "\<exists>y'. sweep S L B ks y = Inr y' \<and> produce_pre Z L n cnt B sz y' \<and> carried y' = carried y
     \<and> set (pd_elems y') = {e \<in> set (pd_elems y). fst e \<in> set ks \<longrightarrow> holds_handler (fst e) y}"
  using assms(1)
proof (induction ks arbitrary: y)
  case Nil
  then show ?case by simp
next
  case (Cons k ks)
  show ?case
  proof (cases "holds_handler k y")
    case True
    from Cons.IH [OF Cons.prems] obtain y' where "sweep S L B ks y = Inr y'" "produce_pre Z L n cnt B sz y'" "carried y' = carried y"
      "set (pd_elems y') = {e \<in> set (pd_elems y). fst e \<in> set ks \<longrightarrow> holds_handler (fst e) y}" by blast
    with True show ?thesis by auto
  next
    case False
    from give_back_good [OF Cons.prems B False, of S] obtain y1 where
      y1: "give_back S L B k y = Inr y1" "produce_pre Z L n cnt B sz y1" "carried y1 = carried y"
        "pd_elems y1 = filter (\<lambda>e. fst e \<noteq> k) (pd_elems y)" by blast
    from Cons.IH [OF y1(2)] obtain y' where
      y': "sweep S L B ks y1 = Inr y'" "produce_pre Z L n cnt B sz y'" "carried y' = carried y1"
        "set (pd_elems y') = {e \<in> set (pd_elems y1). fst e \<in> set ks \<longrightarrow> holds_handler (fst e) y1}" by blast
    have "sweep S L B (k # ks) y = Inr y'" using False y1(1) y'(1) by simp
    moreover have "set (pd_elems y') = {e \<in> set (pd_elems y). fst e \<in> set (k # ks) \<longrightarrow> holds_handler (fst e) y}"
      using y'(4) y1(4) False holds_handler_cong [OF y1(3)] by auto
    ultimately show ?thesis using y'(2,3) y1(3) by simp
  qed
qed

section \<open>Every event keeps it\<close>

lemma make_step_cases:
  assumes inv: "mp_inv Z L n cnt y" and w: "ms_weak y = []" and B: "map_ok Z B"
  shows "mp_step S L (Make B args) y = Inr y
     \<or> (\<exists>x y'. mp_step S L (Make B args) y = Inr y' \<and> ms_held y' = ms_held y @ [x] \<and> mp_inv Z L n cnt y' \<and> ms_weak y' = []
          \<and> x \<notin> set (ms_held y))"
proof (cases "length (ms_held y) < unat n")
  case True
  then have "length (ms_held y) + length (ms_weak y) < unat n" using w by simp
  from make_pooled_cases(3) [OF inv B this, of S args "ms_heap y"] obtain x ml where
    mk: "make_pooled S L B args (ms_pool y) (ms_heap y) = Inr (Some x, ml, ms_heap y)" by blast
  let ?y' = "y\<lparr>ms_pool := ml, ms_held := ms_held y @ [x]\<rparr>"
  have step: "mp_step S L (Make B args) y = Inr ?y'" using mk by simp
  have "map_ok Z (op_base (Make B args))" using B by simp
  from mp_step_inv [OF inv this, of S] have inv': "mp_inv Z L n cnt ?y'" unfolding step by auto
  then have "x \<notin> set (ms_held y)" by (auto simp: mp_inv_def)
  then have "ms_held ?y' = ms_held y @ [x] \<and> mp_inv Z L n cnt ?y' \<and> ms_weak ?y' = [] \<and> x \<notin> set (ms_held y)"
    using inv' w by simp
  with step show ?thesis by blast
next
  case False
  then have "length (ms_held y) = unat n" using mp_inv_cards(3) [OF inv] by simp
  from make_pooled_cases(2) [OF inv B this, of S args "ms_heap y"] show ?thesis by simp
qed

lemma posts_items:
  assumes "sender_SendAsync view it mx sd = (sd', outs)"
  shows "\<forall>(p, i, m) \<in> set (posts outs). i = it"
proof -
  have "\<forall>e \<in> set outs. \<forall>k p i m. e = Session_send k p i m \<longrightarrow> i = it"
    using assms by (auto simp: sender_SendAsync_def broadcast_def send_pooled_def send_along_def Let_def split: option.splits if_splits)
  then show ?thesis by (fastforce simp: posts_def split: outcome.splits)
qed

lemma sweep_all:
  assumes "produce_pre Z L n cnt B sz y" and "map_ok Z B"
  shows "\<exists>y'. sweep S L B (map fst (pd_elems y)) y = Inr y' \<and> produce_ok Z L n cnt B sz y'"
proof -
  from sweep_good [OF assms, of S "map fst (pd_elems y)"] obtain y' where
    y': "sweep S L B (map fst (pd_elems y)) y = Inr y'" "produce_pre Z L n cnt B sz y'" "carried y' = carried y"
      "set (pd_elems y') = {e \<in> set (pd_elems y). fst e \<in> set (map fst (pd_elems y)) \<longrightarrow> holds_handler (fst e) y}" by blast
  then have "\<forall>e \<in> set (pd_elems y'). holds_handler (fst e) y'" using holds_handler_cong [OF y'(3)] by auto
  with y'(1,2) show ?thesis by (simp add: produce_ok_def)
qed

lemma queue_carried:
  assumes "\<forall>p. ws_queue (fresh p) = []"
  shows "set (ws_queue (r_state (session_of fresh p y))) \<subseteq> set (carried y)"
proof (cases "map_of (pd_runs y) p")
  case None
  then show ?thesis using spec [OF assms, of p] by (simp add: session_of_def run_start_def)
next
  case (Some r)
  then have "(p, r) \<in> set (pd_runs y)" by (rule map_of_SomeD)
  then have "set (ws_queue (r_state (snd (p, r)))) \<subseteq> (\<Union>e \<in> set (pd_runs y). set (ws_queue (r_state (snd e))))"
    by (rule UN_upper)
  then show ?thesis using Some unfolding set_carried by (simp add: session_of_def le_supI2)
qed

lemma session_run_ok:
  assumes "\<forall>p. ws_queue (fresh p) = []" and "produce_pre Z L n cnt B sz y"
  shows "run_ok ws_queue (session_of fresh p y)"
proof (cases "map_of (pd_runs y) p")
  case None
  then show ?thesis using spec [OF assms(1), of p] by (simp add: session_of_def run_start_def run_ok_def pending_ok_def)
next
  case (Some r)
  then have "(p, r) \<in> set (pd_runs y)" by (rule map_of_SomeD)
  then show ?thesis using assms(2) Some by (auto simp: session_of_def produce_pre_def)
qed

text \<open>A session has done something: what it carries is among what was carried before.\<close>

lemma union_within: "A' \<subseteq> A \<Longrightarrow> R' \<subseteq> R \<Longrightarrow> Q \<subseteq> A \<union> R \<Longrightarrow> A' \<union> (Q \<union> R') \<subseteq> A \<union> R"
  by blast

lemma session_step_pre:
  assumes pre: "produce_pre Z L n cnt B sz y" and r: "run_ok ws_queue r"
    and q: "set (ws_queue (r_state r)) \<subseteq> set (carried y)" and sub: "set ps \<subseteq> set (pd_posted y)"
  shows "produce_pre Z L n cnt B sz (set_session p r (y\<lparr>pd_posted := ps\<rparr>))"
proof -
  let ?y = "set_session p r (y\<lparr>pd_posted := ps\<rparr>)"
  let ?f = "\<lambda>e. set (ws_queue (r_state (snd e)))" and ?runs = "filter (\<lambda>e. fst e \<noteq> p) (pd_runs y)"
  have y': "pd_posted ?y = ps" "pd_runs ?y = (p, r) # ?runs" by (simp_all add: set_session_def)
  have eq: "set (carried ?y) = (\<lambda>(p, it, mx). it) ` set ps \<union> (?f (p, r) \<union> (\<Union>e \<in> set ?runs. ?f e))"
    unfolding set_carried [of ?y] y' by (simp only: list.set UN_insert)
  have "set (carried ?y) \<subseteq> set (carried y)"
    unfolding eq set_carried [of y]
  proof (rule union_within)
    show "(\<lambda>(p, it, mx). it) ` set ps \<subseteq> (\<lambda>(p, it, mx). it) ` set (pd_posted y)" using sub by (rule image_mono)
    show "(\<Union>e \<in> set ?runs. ?f e) \<subseteq> (\<Union>e \<in> set (pd_runs y). ?f e)" by (rule UN_mono) auto
    show "?f (p, r) \<subseteq> (\<lambda>(p, it, mx). it) ` set (pd_posted y) \<union> (\<Union>e \<in> set (pd_runs y). ?f e)"
      using q unfolding set_carried [of y] snd_conv .
  qed
  then have "set (carried ?y) \<subseteq> message_item B sz ` set (pd_elems y)" using pre by (auto simp: produce_pre_def)
  moreover have "distinct (map fst (pd_runs y))" using pre by (simp add: produce_pre_def)
  then have "distinct (map fst (pd_runs ?y))" unfolding y' by (auto simp: distinct_map_filter)
  ultimately show ?thesis using pre r by (simp add: produce_pre_def set_session_def)
qed

lemma producer_step_ok:
  assumes ok: "produce_ok Z L n cnt B sz y" and B: "map_ok Z B"
  shows "\<exists>y'. producer_step S L B sz view y = Inr y' \<and> produce_ok Z L n cnt B sz y'"
proof -
  have pre: "produce_pre Z L n cnt B sz y" and held: "\<forall>e \<in> set (pd_elems y). holds_handler (fst e) y"
    using ok by (simp_all add: produce_ok_def)
  have p: "mp_inv Z L n cnt (pd_pool y)" "ms_weak (pd_pool y) = []" using pre by (simp_all add: produce_pre_def)
  from make_step_cases [OF p B, of S True] show ?thesis
  proof (elim disjE exE conjE)
    assume "mp_step S L (Make B True) (pd_pool y) = Inr (pd_pool y)"
    then show ?thesis using ok by (simp add: producer_step_def)
  next
    fix x pool
    assume m: "mp_step S L (Make B True) (pd_pool y) = Inr pool" "ms_held pool = ms_held (pd_pool y) @ [x]"
      "mp_inv Z L n cnt pool" "ms_weak pool = []" "x \<notin> set (ms_held (pd_pool y))"
    let ?k = "pd_next y"
    let ?it = "message_item B sz (?k, x)"
    obtain sd outs where s: "sender_SendAsync view ?it (2 ^ 64 - 1) (pd_sender y) = (sd, outs)" by fastforce
    let ?y = "y\<lparr>pd_pool := pool, pd_sender := sd, pd_posted := pd_posted y @ posts outs,
       pd_elems := pd_elems y @ [(?k, x)], pd_next := ?k + 1\<rparr>"
    have run: "producer_step S L B sz view y = sweep S L B [?k] ?y" using m(1,2) s by (simp add: producer_step_def)
    have c: "set (carried ?y) = set (carried y) \<union> set (map (\<lambda>(p, it, mx). it) (posts outs))" by (auto simp: carried_def)
    have it: "set (map (\<lambda>(p, it, mx). it) (posts outs)) \<subseteq> {?it}" using posts_items [OF s] by auto
    have old: "set (carried y) \<subseteq> message_item B sz ` set (pd_elems y)" "\<forall>e \<in> set (pd_elems y). fst e < ?k"
      "snd ` set (pd_elems y) = set (ms_held (pd_pool y))" using pre by (simp_all add: produce_pre_def)
    have fresh: "?k \<notin> fst ` set (pd_elems y)" "x \<notin> snd ` set (pd_elems y)" using old(2,3) m(5) by auto
    have "message_item B sz ` set (pd_elems ?y) = insert ?it (message_item B sz ` set (pd_elems y))" by simp
    then have "set (carried ?y) \<subseteq> message_item B sz ` set (pd_elems ?y)" unfolding c using it old(1) by blast
    then have "produce_pre Z L n cnt B sz ?y"
      using pre m(2-4) fresh old(3) by (simp add: produce_pre_def less_SucI)
    from sweep_good [OF this B, of S "[?k]"] obtain y' where
      y': "sweep S L B [?k] ?y = Inr y'" "produce_pre Z L n cnt B sz y'" "carried y' = carried ?y"
        "set (pd_elems y') = {e \<in> set (pd_elems ?y). fst e \<in> set [?k] \<longrightarrow> holds_handler (fst e) ?y}" by blast
    have "holds_handler (fst e) y'" if "e \<in> set (pd_elems y')" for e
    proof (cases "fst e = ?k")
      case True
      then show ?thesis using that y'(4) holds_handler_cong [OF y'(3)] by simp
    next
      case False
      then have "e \<in> set (pd_elems y)" using that y'(4) by auto
      then have "holds_handler (fst e) y" using held by blast
      moreover have "set (carried y) \<subseteq> set (carried y')" using c y'(3) by simp
      ultimately show ?thesis unfolding holds_handler_iff by blast
    qed
    then show ?thesis using run y'(1,2) by (simp add: produce_ok_def)
  qed
qed

lemma session_over_ok:
  assumes fresh: "\<forall>p. ws_queue (fresh p) = []" and ok: "produce_ok Z L n cnt B sz y" and idle: "r_pending (session_of fresh p y) = []"
  shows "produce_ok Z L n cnt B sz (y\<lparr>pd_runs := filter (\<lambda>e. fst e \<noteq> p) (pd_runs y)\<rparr>)"
proof -
  let ?y = "y\<lparr>pd_runs := filter (\<lambda>e. fst e \<noteq> p) (pd_runs y)\<rparr>" and ?f = "\<lambda>e. set (ws_queue (r_state (snd e)))"
  have pre: "produce_pre Z L n cnt B sz y" using ok by (simp add: produce_ok_def)
  have "?f e = {}" if e: "e \<in> set (pd_runs y)" "fst e = p" for e
  proof -
    have "distinct (map fst (pd_runs y))" using pre by (simp add: produce_pre_def)
    moreover have "(p, snd e) \<in> set (pd_runs y)" using e by (metis prod.collapse)
    ultimately have "map_of (pd_runs y) p = Some (snd e)" by (rule map_of_is_SomeI)
    then have r: "session_of fresh p y = snd e" by (simp add: session_of_def)
    then have "run_ok ws_queue (snd e)" using session_run_ok [OF fresh pre, of p] by simp
    then show ?thesis using idle r by (auto simp: run_ok_def pending_ok_def split: list.splits)
  qed
  then have "(\<Union>e \<in> set (pd_runs ?y). ?f e) = (\<Union>e \<in> set (pd_runs y). ?f e)" by fastforce
  then have c: "set (carried ?y) = set (carried y)" unfolding set_carried by simp
  then have "holds_handler k ?y = holds_handler k y" for k by (simp add: holds_handler_iff)
  with ok c show ?thesis by (simp add: produce_ok_def produce_pre_def distinct_map_filter)
qed

lemma produce_step_ok:
  assumes fresh: "\<forall>p. ws_queue (fresh p) = []" and ok: "produce_ok Z L n cnt B sz y" and B: "map_ok Z B"
  shows "case produce_step S L B sz fresh e y of Inl f \<Rightarrow> f = Bad_cast | Inr y' \<Rightarrow> produce_ok Z L n cnt B sz y'"
proof -
  have pre: "produce_pre Z L n cnt B sz y" using ok by (simp add: produce_ok_def)
  have run: "run_ok ws_queue (session_of fresh p y)" for p by (rule session_run_ok [OF fresh pre])
  have que: "set (ws_queue (r_state (session_of fresh p y))) \<subseteq> set (carried y)" for p by (rule queue_carried [OF fresh])
  show ?thesis
  proof (cases e)
    case (Produced view)
    from producer_step_ok [OF ok B, of S view] show ?thesis by (auto simp: Produced)
  next
    case (Delivered j now T)
    show ?thesis
    proof (cases "j < length (pd_posted y)")
      case True
      obtain p it mx where j: "pd_posted y ! j = (p, it, mx)" by (cases "pd_posted y ! j")
      let ?r = "session_of fresh p y"
      show ?thesis
      proof (cases "io_step ws_queue ws_submit ws_complete (Submit (now, T) it mx) ?r")
        case (Inl f)
        then have "ws_submit (now, T) it mx (r_state ?r) = Inl f" by (auto split: sum.splits)
        then show ?thesis using True j Inl wsq.submit_fails by (simp add: Delivered)
      next
        case (Inr r)
        then obtain w es where w: "ws_submit (now, T) it mx (r_state ?r) = Inr (w, es)" "r_state r = w" by (auto split: sum.splits)
        have "set (fst (trim (max mx 2) 2 (ws_queue (r_state ?r)))) \<subseteq> set (ws_queue (r_state ?r))"
          using trim_subseq by (auto dest: list_emb_set)
        moreover have "(p, it, mx) \<in> set (pd_posted y)" using True j nth_mem by metis
        then have "it \<in> set (carried y)" by (force simp: carried_def)
        ultimately have q: "set (ws_queue (r_state r)) \<subseteq> set (carried y)"
          using que [of p] wsq.submit_queue [OF w(1)] w(2) by auto
        let ?y = "set_session p r (y\<lparr>pd_posted := drop_nth j (pd_posted y)\<rparr>)"
        have "produce_pre Z L n cnt B sz ?y"
          by (rule session_step_pre [OF pre wsq.submit_run_ok [OF run Inr] q set_drop_nth_subset])
        from sweep_all [OF this B, of S] have "\<exists>y'. sweep S L B (map fst (pd_elems y)) ?y = Inr y' \<and> produce_ok Z L n cnt B sz y'"
          by (simp add: set_session_def)
        then show ?thesis using True j Inr by (auto simp: Delivered simp del: io_step.simps)
      qed
    next
      case False
      then show ?thesis using ok by (simp add: Delivered)
    qed
  next
    case (Completed p now T ec m)
    from wsq.finish_run_ok [OF run [of p], of "(now, T)" ec m] obtain r where
      r: "io_step ws_queue ws_submit ws_complete (Finish (now, T) ec m) (session_of fresh p y) = Inr r" "run_ok ws_queue r"
        "ws_queue (r_state r) = drop 1 (ws_queue (r_state (session_of fresh p y)))" by blast
    have q: "set (ws_queue (r_state r)) \<subseteq> set (carried y)" using que [of p] r(3) set_drop_subset by fastforce
    from session_step_pre [OF pre r(2) q subset_refl] have "produce_pre Z L n cnt B sz (set_session p r y)" by simp
    from sweep_all [OF this B, of S] have
      "\<exists>y'. sweep S L B (map fst (pd_elems y)) (set_session p r y) = Inr y' \<and> produce_ok Z L n cnt B sz y'"
      by (simp add: set_session_def)
    then show ?thesis using r(1) by (auto simp: Completed simp del: io_step.simps)
  next
    case (Session_over p)
    then show ?thesis using ok session_over_ok [OF fresh ok] by simp
  next
    case (Registers st)
    then show ?thesis using ok by (simp add: produce_ok_def produce_pre_def carried_def holds_handler_def)
  qed
qed

lemma produce_run_ok:
  assumes fresh: "\<forall>p. ws_queue (fresh p) = []" and "produce_ok Z L n cnt B sz y" and B: "map_ok Z B"
  shows "case produce_run S L B sz fresh es y of Inl f \<Rightarrow> f = Bad_cast | Inr y' \<Rightarrow> produce_ok Z L n cnt B sz y'"
  using assms(2)
proof (induction es arbitrary: y)
  case Nil
  then show ?case by simp
next
  case (Cons e es)
  from produce_step_ok [OF fresh Cons.prems B, where S = S and e = e] Cons.IH show ?case
    by (cases "produce_step S L B sz fresh e y") (simp_all del: produce_step.simps)
qed

text \<open>
  C5. What is being sent stays lent. Whatever is produced, whichever sessions get it, whenever their strands run and however their writes end: nothing
  fails but the undefined conversion of a rate; whatever a session is writing is the memory of an element that the pool has lent, so
  that it is not reused under the write; the pool's statistics count exactly the messages of which some session still has the handler; and when no
  session has anything left, all elements are back.
\<close>

theorem sent_elements_stay_lent:
  assumes "segment_ok Z S" and "mp_fits L n cnt" and "MemPoolIPC_new S L B0 n cnt h = Inr (mp, h')" and "map_ok Z B"
    and fresh: "\<forall>p. ws_queue (fresh p) = []"
  shows "case produce_run S L B sz fresh es (producing_start sd mp h') of
       Inl f \<Rightarrow> f = Bad_cast
     | Inr y \<Rightarrow>
         (\<forall>(p, r) \<in> set (pd_runs y). \<forall>q m. Async_write q m \<in> set (r_pending r) \<longrightarrow>
            (\<exists>x \<in> set (ms_held (pd_pool y)). q = abs_ptr B (fst x) \<and> m = sz))
         \<and> mp_Statistics (fst (ms_pool (pd_pool y))) = (length (pd_elems y), unat n - length (pd_elems y))
         \<and> (\<forall>e \<in> set (pd_elems y). holds_handler (fst e) y) \<and> (carried y = [] \<longrightarrow> pd_elems y = [])"
proof -
  have "produce_ok Z L n cnt B sz (producing_start sd mp h')"
    using mp_start_inv [OF assms(1-3)]
    by (simp add: produce_ok_def produce_pre_def producing_start_def carried_def) (simp add: mp_start_def)
  from produce_run_ok [OF fresh this assms(4), where S = S and es = es] show ?thesis
  proof (cases "produce_run S L B sz fresh es (producing_start sd mp h')")
    case (Inr y)
    from produce_run_ok [OF fresh \<open>produce_ok Z L n cnt B sz (producing_start sd mp h')\<close> assms(4), where S = S and es = es] Inr
    have ok: "produce_ok Z L n cnt B sz y" by simp
    have p: "mp_inv Z L n cnt (pd_pool y)" "ms_weak (pd_pool y) = []" "\<forall>(p, r) \<in> set (pd_runs y). run_ok ws_queue r"
      "distinct (map snd (pd_elems y))" "snd ` set (pd_elems y) = set (ms_held (pd_pool y))"
      "set (carried y) \<subseteq> message_item B sz ` set (pd_elems y)" "\<forall>e \<in> set (pd_elems y). holds_handler (fst e) y"
      using ok by (simp_all add: produce_ok_def produce_pre_def)
    have "distinct (ms_held (pd_pool y))" using p(1) by (auto simp: mp_inv_def distinct_map)
    then have "length (pd_elems y) = length (ms_held (pd_pool y))"
      using p(4,5) distinct_card by (metis length_map list.set_map)
    then have stats: "mp_Statistics (fst (ms_pool (pd_pool y))) = (length (pd_elems y), unat n - length (pd_elems y))"
      using mp_inv_statistics [OF p(1)] p(2) by simp
    have writes: "\<exists>x \<in> set (ms_held (pd_pool y)). q = abs_ptr B (fst x) \<and> m = sz"
      if r: "(p, r) \<in> set (pd_runs y)" and w: "Async_write q m \<in> set (r_pending r)" for p r q m
    proof -
      have "run_ok ws_queue r" using r p(3) by auto
      then obtain it rest where it: "ws_queue (r_state r) = it # rest" "q = it_ptr it" "m = it_size it"
        using w by (cases "ws_queue (r_state r)") (auto simp: run_ok_def pending_ok_def start_for_def)
      then have "it \<in> set (carried y)" using r unfolding set_carried by force
      then obtain e where e: "e \<in> set (pd_elems y)" "it = message_item B sz e" using p(6) by blast
      have "snd e \<in> set (ms_held (pd_pool y))" using e(1) p(5) by blast
      then show ?thesis using it(2,3) e(2) by (intro bexI [of _ "snd e"]) (simp_all add: message_item_def)
    qed
    have "carried y = [] \<Longrightarrow> pd_elems y = []" using p(7) by (cases "pd_elems y") (auto simp: holds_handler_iff)
    then show ?thesis using Inr stats writes p(7) by auto
  qed simp
qed

text \<open>The producer's loop alone never fails, whatever the sessions do.\<close>

lemma producing_never_fails:
  assumes "produce_ok Z L n cnt B sz y" and "map_ok Z B"
  shows "\<exists>y'. produce_run S L B sz fresh (map Produced views) y = Inr y' \<and> produce_ok Z L n cnt B sz y'"
  using assms(1)
proof (induction views arbitrary: y)
  case Nil
  then show ?case by simp
next
  case (Cons v views)
  from producer_step_ok [OF Cons.prems assms(2), of S v] Cons.IH show ?case by fastforce
qed

definition example_producer :: topic_sender where
  "example_producer = example_sender\<lparr>sd_state := Some example_state\<rparr>"

lemma sent_elements_stay_lent_witness:
  "\<exists>mp h' y. produce_run bump_segment example_ipc_layout 65536 12 (\<lambda>_. quiet_session)
       (map Produced [example_view, example_view, example_view]) (producing_start example_producer mp h') = Inr y
     \<and> mp_Statistics (fst (ms_pool (pd_pool y))) = (length (pd_elems y), 2 - length (pd_elems y))"
proof -
  from example_mempool obtain mp h' where
    mp: "MemPoolIPC_new bump_segment example_ipc_layout 65536 2 3 64 = Inr (mp, h')" by blast
  have B: "map_ok 4096 65536" by (simp add: map_ok_def)
  have q: "\<forall>p. ws_queue ((\<lambda>_. quiet_session) p) = []" by (simp add: quiet_session_def ws_session_new_def)
  let ?y = "producing_start example_producer mp h'"
  have "produce_ok 4096 example_ipc_layout 2 3 65536 12 ?y"
    using mp_start_inv [OF bump_segment_ok example_mempool_fits mp]
    by (simp add: produce_ok_def produce_pre_def producing_start_def carried_def) (simp add: mp_start_def)
  from producing_never_fails [OF this B, where S = bump_segment and fresh = "\<lambda>_. quiet_session"
      and views = "[example_view, example_view, example_view]"] obtain y where
    y: "produce_run bump_segment example_ipc_layout 65536 12 (\<lambda>_. quiet_session)
       (map Produced [example_view, example_view, example_view]) ?y = Inr y" by blast
  have "mp_Statistics (fst (ms_pool (pd_pool y))) = (length (pd_elems y), 2 - length (pd_elems y))"
    using sent_elements_stay_lent [OF bump_segment_ok example_mempool_fits mp B q, where sz = 12 and sd = example_producer
        and es = "map Produced [example_view, example_view, example_view]", unfolded y] by simp
  with y show ?thesis by blast
qed

section \<open>The consumer\<close>

text \<open>
  The callback of \<open>ConsumerProcess\<close> for a message that arrives: it is copied into an element of the pool, which is routed to
  the receivers on this computer without waiting. The pointer is not checked for null, neither by it nor by the router.
\<close>

definition consumer_read ::
  "'s semaphore \<Rightarrow> 'h segment \<Rightarrow> ipc_layout \<Rightarrow> addr \<Rightarrow> ('h, 's) channel \<Rightarrow> ('h, 's) channel result option" where
  "consumer_read V S L B c =
     (case ch_acquire S L B True c of
        Inl e \<Rightarrow> Some (Inl e)
      | Inr c1 \<Rightarrow>
          let x = (if length (ch_owned c1) = length (ch_owned c) then None else Some (last (ch_owned c1)))
          in (case ch_publish V Soft x c1 of
                None \<Rightarrow> None
              | Some (Inl e) \<Rightarrow> Some (Inl e)
              | Some (Inr c2) \<Rightarrow> Some (case x of None \<Rightarrow> Inr c2 | Some a \<Rightarrow> ch_let_go S L B a c2)))"

text \<open>It never fails and never waits; the callback keeps nothing, and while the pool has an element every receiver with room gets it.\<close>

lemma consumer_read_good:
  assumes V: "semaphore_ok V" and ok: "channel_ok Z V L n cnt c" and B: "map_ok Z B"
  shows "\<exists>c' x. consumer_read V S L B c = Some (Inr c') \<and> channel_ok Z V L n cnt c' \<and> ch_owned c' = ch_owned c
     \<and> (x = None \<longleftrightarrow> \<not> length (ms_held (ch_pool c)) < unat n) \<and> (\<forall>q. served V Soft x (ch_router c) (ch_router c') q)"
proof -
  from ch_acquire_good [OF ok B, of S True] obtain c1 where
    c1: "ch_acquire S L B True c = Inr c1" "channel_ok Z V L n cnt c1" "ch_router c1 = ch_router c"
      "if length (ms_held (ch_pool c)) < unat n then \<exists>x. ch_owned c1 = ch_owned c @ [x] \<and> \<not> referenced c x else c1 = c"
    by blast
  show ?thesis
  proof (cases "length (ms_held (ch_pool c)) < unat n")
    case True
    then obtain x where x: "ch_owned c1 = ch_owned c @ [x]" "\<not> referenced c x" using c1(4) by auto
    have "set_option (Some x) \<subseteq> set (ch_owned c1)" using x(1) by simp
    from ch_publish_good [OF V c1(2) _ this, of Soft] obtain c2 where
      c2: "ch_publish V Soft (Some x) c1 = Some (Inr c2)" "channel_ok Z V L n cnt c2" "ch_owned c2 = ch_owned c1"
        "\<forall>q. served V Soft (Some x) (ch_router c1) (ch_router c2) q" by auto
    have "x \<in> set (ch_owned c2)" using c2(3) x(1) by simp
    from ch_let_go_good [OF c2(2) B this, of S] obtain c3 where
      c3: "ch_let_go S L B x c2 = Inr c3" "channel_ok Z V L n cnt c3" "ch_router c3 = ch_router c2"
        "ch_owned c3 = remove1 x (ch_owned c2)" by blast
    have "x \<notin> set (ch_owned c)" using x(2) by (simp add: referenced_def)
    then have "ch_owned c3 = ch_owned c" using c3(4) c2(3) x(1) by (simp add: remove1_append)
    moreover have "consumer_read V S L B c = Some (Inr c3)"
      using c1(1) x(1) c2(1) c3(1) by (simp add: consumer_read_def Let_def)
    ultimately show ?thesis
      using c2(4) c3(2,3) c1(3) True by (intro exI [of _ c3] exI [of _ "Some x"]) simp
  next
    case False
    then have "c1 = c" using c1(4) by simp
    moreover have "set_option None \<subseteq> set (ch_owned c)" by simp
    from ch_publish_good [OF V ok _ this, of Soft] obtain c2 where
      c2: "ch_publish V Soft None c = Some (Inr c2)" "channel_ok Z V L n cnt c2" "ch_owned c2 = ch_owned c"
        "\<forall>q. served V Soft None (ch_router c) (ch_router c2) q" by auto
    ultimately have "consumer_read V S L B c = Some (Inr c2)" using c1(1) by (simp add: consumer_read_def)
    then show ?thesis using c2(2-4) False by (intro exI [of _ c2] exI [of _ None]) simp
  qed
qed

end
