(* ===== verification/Tcp_Client.thy ===== *)
theory Tcp_Client
  imports Send_Queue
begin

text \<open>
  \<^verbatim>\<open>Networking/src/client.hpp\<close>, class \<open>TCPClientBase\<close>: a plain or TLS connection to a
  server, with a queue of strings to write. All handlers run on the executor of the socket; an operation of the
  model is one handler. The endpoint, which is only handed to the callbacks, is left out.
\<close>

section \<open>State and effects\<close>

record tcp_callbacks =
  has_read :: bool
  has_accept :: bool
  has_close :: bool
  has_error :: bool

record tcp_client =
  tc_callbacks :: tcp_callbacks
  tc_connected :: bool
  write_msgs :: "string list"

datatype tcp_effect =
    Start_resolve
  | Start_handshake
  | Start_write string
  | Start_read
  | Start_connect
  | Close_socket
  | User_accept
  | User_read nat
  | User_close
  | User_error error_code

definition TCPClient_new :: "tcp_callbacks \<Rightarrow> tcp_client" where
  "TCPClient_new cbs = \<lparr>tc_callbacks = cbs, tc_connected = False, write_msgs = []\<rparr>"

section \<open>Operations\<close>

definition tc_handle_error :: "error_code \<Rightarrow> tcp_client \<Rightarrow> tcp_effect list" where
  "tc_handle_error ec s = (if has_error (tc_callbacks s) then [User_error ec] else [])"

definition tc_handle_close :: "tcp_client \<Rightarrow> tcp_client \<times> tcp_effect list" where
  "tc_handle_close s =
     (if tc_connected s
      then (s\<lparr>tc_connected := False\<rparr>, Close_socket # (if has_close (tc_callbacks s) then [User_close] else []))
      else (s, []))"

text \<open>The lowest layer is closed before the connection is tried.\<close>

definition tc_on_resolve :: "error_code \<Rightarrow> tcp_client \<Rightarrow> tcp_effect list" where
  "tc_on_resolve ec s = (if ec \<noteq> Success then tc_handle_error ec s else [Close_socket, Start_connect])"

definition tc_on_finish_connect :: "error_code \<Rightarrow> tcp_client \<Rightarrow> tcp_client \<times> tcp_effect list" where
  "tc_on_finish_connect ec s =
     (if ec = Success
      then (s\<lparr>tc_connected := True\<rparr>, (if has_accept (tc_callbacks s) then [User_accept] else []) @ [Start_read])
      else case tc_handle_close s of (s', es) \<Rightarrow> (s', tc_handle_error ec s @ es))"

text \<open>\<open>front()\<close> of an empty queue is undefined; the callers have just seen to it that it is not empty.\<close>

definition tc_do_write :: "tcp_client \<Rightarrow> tcp_effect list result" where
  "tc_do_write s = (case write_msgs s of [] \<Rightarrow> Inl Out_of_bounds | m # _ \<Rightarrow> Inr [Start_write m])"

definition tc_schedule_write :: "string \<Rightarrow> tcp_client \<Rightarrow> (tcp_client \<times> tcp_effect list) result" where
  "tc_schedule_write m s =
     (let in_progress = (write_msgs s \<noteq> []);
          s' = s\<lparr>write_msgs := write_msgs s @ [m]\<rparr>
      in if in_progress then Inr (s', [])
         else (case tc_do_write s' of Inl e \<Rightarrow> Inl e | Inr es \<Rightarrow> Inr (s', es)))"

definition tc_on_write :: "error_code \<Rightarrow> tcp_client \<Rightarrow> (tcp_client \<times> tcp_effect list) result" where
  "tc_on_write ec s =
     (if ec = Success
      then (case write_msgs s of
              [] \<Rightarrow> Inl Out_of_bounds
            | m # ms \<Rightarrow>
                let s' = s\<lparr>write_msgs := ms\<rparr>
                in if ms = [] then Inr (s', [])
                   else (case tc_do_write s' of Inl e \<Rightarrow> Inl e | Inr es \<Rightarrow> Inr (s', es)))
      else case tc_handle_close (s\<lparr>write_msgs := []\<rparr>) of
             (s', es) \<Rightarrow> Inr (s', tc_handle_error ec s @ es))"

definition tc_on_read :: "error_code \<Rightarrow> nat \<Rightarrow> tcp_client \<Rightarrow> tcp_client \<times> tcp_effect list" where
  "tc_on_read ec n s =
     (if ec = Success then (s, (if has_read (tc_callbacks s) then [User_read n] else []) @ [Start_read])
      else case tc_handle_close s of (s', es) \<Rightarrow> (s', tc_handle_error ec s @ es))"

section \<open>A connection over time\<close>

text \<open>
  \<open>cn_writing\<close>: the writes under way; \<open>cn_sent\<close>: the messages whose write succeeded; \<open>cn_given\<close>: the messages
  given to \<open>write\<close>; \<open>cn_failed\<close>: some write has failed; \<open>cn_accepts\<close>: the connections that succeeded;
  \<open>cn_closes\<close>: the calls of the user's close callback.
\<close>

record connection =
  cn_client :: tcp_client
  cn_writing :: "string list"
  cn_given :: "string list"
  cn_sent :: "string list"
  cn_failed :: bool
  cn_accepts :: nat
  cn_closes :: nat

datatype tcp_event =
    Ev_write string
  | Ev_write_done error_code
  | Ev_connected error_code
  | Ev_read_done error_code nat
  | Ev_close

fun started :: "tcp_effect \<Rightarrow> string list" where
  "started (Start_write m) = [m]"
| "started _ = []"

definition connection_start :: "tcp_callbacks \<Rightarrow> connection" where
  "connection_start cbs = \<lparr>cn_client = TCPClient_new cbs, cn_writing = [], cn_given = [], cn_sent = [],
     cn_failed = False, cn_accepts = 0, cn_closes = 0\<rparr>"

definition cn_take :: "tcp_client \<times> tcp_effect list \<Rightarrow> connection \<Rightarrow> connection" where
  "cn_take r y = y\<lparr>cn_client := fst r, cn_writing := cn_writing y @ concat (map started (snd r)),
     cn_closes := cn_closes y + count_if ((=) User_close) (snd r)\<rparr>"

fun cn_step :: "tcp_event \<Rightarrow> connection \<Rightarrow> connection result" where
  "cn_step (Ev_write m) y =
     (case tc_schedule_write m (cn_client y) of
        Inl e \<Rightarrow> Inl e | Inr r \<Rightarrow> Inr ((cn_take r y)\<lparr>cn_given := cn_given y @ [m]\<rparr>))"
| "cn_step (Ev_write_done ec) y =
     (case cn_writing y of
        [] \<Rightarrow> Inr y
      | m # ms \<Rightarrow>
          (case tc_on_write ec (cn_client y) of
             Inl e \<Rightarrow> Inl e
           | Inr r \<Rightarrow> Inr ((cn_take r (y\<lparr>cn_writing := ms\<rparr>))\<lparr>
               cn_sent := cn_sent y @ (if ec = Success then [m] else []),
               cn_failed := (cn_failed y \<or> ec \<noteq> Success)\<rparr>)))"
| "cn_step (Ev_connected ec) y =
     Inr ((cn_take (tc_on_finish_connect ec (cn_client y)) y)\<lparr>
       cn_accepts := cn_accepts y + (if ec = Success then 1 else 0)\<rparr>)"
| "cn_step (Ev_read_done ec n) y = Inr (cn_take (tc_on_read ec n (cn_client y)) y)"
| "cn_step Ev_close y = Inr (cn_take (tc_handle_close (cn_client y)) y)"

fun cn_run :: "tcp_event list \<Rightarrow> connection \<Rightarrow> connection result" where
  "cn_run [] y = Inr y"
| "cn_run (ev # evs) y = (case cn_step ev y of Inl e \<Rightarrow> Inl e | Inr y' \<Rightarrow> cn_run evs y')"

definition connection_ok :: "connection \<Rightarrow> bool" where
  "connection_ok y \<longleftrightarrow>
     cn_writing y = take 1 (write_msgs (cn_client y))
     \<and> subseq (cn_sent y @ write_msgs (cn_client y)) (cn_given y)
     \<and> (\<not> cn_failed y \<longrightarrow> cn_sent y @ write_msgs (cn_client y) = cn_given y)
     \<and> cn_closes y + (if tc_connected (cn_client y) then 1 else 0) \<le> cn_accepts y"

lemma tc_error_frame [simp]:
  "concat (map started (tc_handle_error ec s)) = []" "count_if ((=) User_close) (tc_handle_error ec s) = 0"
  by (simp_all add: tc_handle_error_def)

lemma tc_close_frame:
  assumes "tc_handle_close s = (s', es)"
  shows "concat (map started es) = []" "write_msgs s' = write_msgs s" "\<not> tc_connected s'"
    "count_if ((=) User_close) es \<le> (if tc_connected s then 1 else 0)"
  using assms by (auto simp: tc_handle_close_def split: if_splits)

lemma cn_step_ok:
  assumes "connection_ok y"
  shows "\<exists>y'. cn_step ev y = Inr y' \<and> connection_ok y'"
proof (cases ev)
  case (Ev_write m)
  let ?q = "write_msgs (cn_client y)"
  have "subseq ((cn_sent y @ ?q) @ [m]) (cn_given y @ [m])"
    using assms by (intro list_emb_append_mono subseq_order.refl) (simp add: connection_ok_def)
  with assms show ?thesis
    by (cases ?q) (auto simp: Ev_write tc_schedule_write_def tc_do_write_def cn_take_def connection_ok_def)
next
  case (Ev_write_done ec)
  show ?thesis
  proof (cases "cn_writing y")
    case Nil
    with assms show ?thesis by (simp add: Ev_write_done)
  next
    case (Cons m ms)
    then obtain q where q: "write_msgs (cn_client y) = m # q" "ms = []"
      using assms by (cases "write_msgs (cn_client y)") (auto simp: connection_ok_def)
    show ?thesis
    proof (cases "ec = Success")
      case True
      with assms Cons q show ?thesis
        by (cases q) (auto simp: Ev_write_done tc_on_write_def tc_do_write_def cn_take_def connection_ok_def)
    next
      case False
      obtain s' es where c: "tc_handle_close (cn_client y\<lparr>write_msgs := []\<rparr>) = (s', es)" by fastforce
      have "subseq (cn_sent y @ []) (cn_sent y @ m # q)" by (intro list_emb_append_mono subseq_order.refl) simp
      then have "subseq (cn_sent y) (cn_given y)"
        using assms q(1) subseq_order.trans unfolding connection_ok_def by fastforce
      with assms Cons q False c tc_close_frame [OF c] show ?thesis
        by (auto simp: Ev_write_done tc_on_write_def cn_take_def connection_ok_def split: if_splits)
    qed
  qed
next
  case (Ev_connected ec)
  obtain s' es where c: "tc_handle_close (cn_client y) = (s', es)" by fastforce
  with assms tc_close_frame [OF c] show ?thesis
    by (auto simp: Ev_connected tc_on_finish_connect_def cn_take_def connection_ok_def split: if_splits)
next
  case (Ev_read_done ec n)
  obtain s' es where c: "tc_handle_close (cn_client y) = (s', es)" by fastforce
  with assms tc_close_frame [OF c] show ?thesis
    by (auto simp: Ev_read_done tc_on_read_def cn_take_def connection_ok_def split: if_splits)
next
  case Ev_close
  obtain s' es where c: "tc_handle_close (cn_client y) = (s', es)" by fastforce
  with assms tc_close_frame [OF c] show ?thesis
    by (auto simp: Ev_close cn_take_def connection_ok_def split: if_splits)
qed

lemma cn_run_ok:
  assumes "connection_ok y"
  shows "\<exists>y'. cn_run evs y = Inr y' \<and> connection_ok y'"
  using assms
proof (induction evs arbitrary: y)
  case Nil
  then show ?case by simp
next
  case (Cons ev evs)
  from cn_step_ok [OF Cons.prems, of ev] show ?case using Cons.IH by fastforce
qed

text \<open>
  C30. The client writes in order, one message at a time: whatever is written, read and closed and whatever
  fails, nothing is undefined; the write under way is that of the first queued message, and there is one
  exactly while the queue is not empty; the messages written, followed by those queued, are those given, in
  order - all of them as long as no write has failed. The user's close callback is not called more often
  than connections have succeeded.
\<close>

theorem tcp_writes_in_order:
  "\<exists>y. cn_run evs (connection_start cbs) = Inr y
     \<and> cn_writing y = take 1 (write_msgs (cn_client y))
     \<and> subseq (cn_sent y @ write_msgs (cn_client y)) (cn_given y)
     \<and> (cn_failed y \<or> cn_sent y @ write_msgs (cn_client y) = cn_given y)
     \<and> cn_closes y \<le> cn_accepts y"
proof -
  have "connection_ok (connection_start cbs)"
    by (simp add: connection_start_def connection_ok_def TCPClient_new_def)
  from cn_run_ok [OF this, of evs] show ?thesis by (auto simp: connection_ok_def)
qed

section \<open>The calls of the user\<close>

text \<open>
  \<open>write\<close> and \<open>close\<close> may be called from any thread: they post to the executor of the socket, which runs what is posted in the
  order of the posts. \<open>ca_told\<close>, for the specification: the messages given to \<open>write\<close>.
\<close>

datatype tcp_post = Schedule_write string | Handle_close

record called_client =
  ca_connection :: connection
  ca_posted :: "tcp_post list"
  ca_told :: "string list"

definition tc_write :: "string \<Rightarrow> called_client \<Rightarrow> called_client" where
  "tc_write m s = s\<lparr>ca_posted := ca_posted s @ [Schedule_write m], ca_told := ca_told s @ [m]\<rparr>"

definition tc_close :: "called_client \<Rightarrow> called_client" where
  "tc_close s = s\<lparr>ca_posted := ca_posted s @ [Handle_close]\<rparr>"

fun post_event :: "tcp_post \<Rightarrow> tcp_event" where
  "post_event (Schedule_write m) = Ev_write m"
| "post_event Handle_close = Ev_close"

definition tc_next_post :: "called_client \<Rightarrow> called_client result" where
  "tc_next_post s =
     (case ca_posted s of
        [] \<Rightarrow> Inr s
      | p # ps \<Rightarrow>
          (case cn_step (post_event p) (ca_connection s) of
             Inl e \<Rightarrow> Inl e
           | Inr y \<Rightarrow> Inr (s\<lparr>ca_connection := y, ca_posted := ps\<rparr>)))"

datatype caller_event =
    Call_write string
  | Call_close
  | Next_post
  | Write_done error_code
  | Connect_done error_code
  | Read_done error_code nat

fun completion :: "caller_event \<Rightarrow> tcp_event option" where
  "completion (Write_done ec) = Some (Ev_write_done ec)"
| "completion (Connect_done ec) = Some (Ev_connected ec)"
| "completion (Read_done ec n) = Some (Ev_read_done ec n)"
| "completion _ = None"

fun caller_step :: "caller_event \<Rightarrow> called_client \<Rightarrow> called_client result" where
  "caller_step (Call_write m) s = Inr (tc_write m s)"
| "caller_step Call_close s = Inr (tc_close s)"
| "caller_step Next_post s = tc_next_post s"
| "caller_step ev s =
     (case completion ev of
        None \<Rightarrow> Inr s
      | Some e \<Rightarrow> (case cn_step e (ca_connection s) of Inl f \<Rightarrow> Inl f | Inr y \<Rightarrow> Inr (s\<lparr>ca_connection := y\<rparr>)))"

fun caller_run :: "caller_event list \<Rightarrow> called_client \<Rightarrow> called_client result" where
  "caller_run [] s = Inr s"
| "caller_run (ev # evs) s = (case caller_step ev s of Inl e \<Rightarrow> Inl e | Inr s' \<Rightarrow> caller_run evs s')"

fun post_message :: "tcp_post \<Rightarrow> string list" where
  "post_message (Schedule_write m) = [m]"
| "post_message Handle_close = []"

definition called_ok :: "called_client \<Rightarrow> bool" where
  "called_ok s \<longleftrightarrow> connection_ok (ca_connection s)
     \<and> ca_told s = cn_given (ca_connection s) @ concat (map post_message (ca_posted s))"

lemma cn_step_given:
  assumes "cn_step ev y = Inr y'"
  shows "cn_given y' = cn_given y @ (case ev of Ev_write m \<Rightarrow> [m] | _ \<Rightarrow> [])"
  using assms by (cases ev) (auto simp: cn_take_def split: sum.splits list.splits)

lemma caller_step_ok:
  assumes "called_ok s"
  shows "\<exists>s'. caller_step ev s = Inr s' \<and> called_ok s'"
proof -
  have ok: "connection_ok (ca_connection s)" using assms by (simp add: called_ok_def)
  have complete: "\<exists>s'. caller_step ev s = Inr s' \<and> called_ok s'" if "completion ev = Some e" for e
  proof -
    obtain y where y: "cn_step e (ca_connection s) = Inr y" "connection_ok y" using cn_step_ok [OF ok] by blast
    have "cn_given y = cn_given (ca_connection s)" using cn_step_given [OF y(1)] that by (cases ev) auto
    then show ?thesis using that y assms by (cases ev) (auto simp: called_ok_def simp del: cn_step.simps)
  qed
  show ?thesis
  proof (cases ev)
    case Next_post
    show ?thesis
    proof (cases "ca_posted s")
      case Nil
      then show ?thesis using assms Next_post by (simp add: tc_next_post_def)
    next
      case (Cons p ps)
      obtain y where y: "cn_step (post_event p) (ca_connection s) = Inr y" "connection_ok y" using cn_step_ok [OF ok] by blast
      have "cn_given y = cn_given (ca_connection s) @ post_message p" using cn_step_given [OF y(1)] by (cases p) simp_all
      then show ?thesis using assms Next_post Cons y by (simp add: tc_next_post_def called_ok_def)
    qed
  qed (use assms complete in \<open>auto simp: tc_write_def tc_close_def called_ok_def\<close>)
qed

text \<open>
  Whichever threads call, the messages that have been written, those in the queue and those still posted are the messages given to
  \<open>write\<close> in the order of the calls, as long as no write has failed; what has been written is in that order in any case.
\<close>

lemma written_as_called:
  "\<exists>s. caller_run evs \<lparr>ca_connection = connection_start cbs, ca_posted = [], ca_told = []\<rparr> = Inr s
     \<and> subseq (cn_sent (ca_connection s)) (ca_told s)
     \<and> (\<not> cn_failed (ca_connection s) \<longrightarrow>
          cn_sent (ca_connection s) @ write_msgs (cn_client (ca_connection s)) @ concat (map post_message (ca_posted s)) = ca_told s)"
proof -
  have run: "\<exists>s'. caller_run evs s = Inr s' \<and> called_ok s'" if "called_ok s" for s
    using that
  proof (induction evs arbitrary: s)
    case (Cons ev evs)
    from caller_step_ok [OF Cons.prems, of ev] Cons.IH show ?case by fastforce
  qed simp
  have "called_ok \<lparr>ca_connection = connection_start cbs, ca_posted = [], ca_told = []\<rparr>"
    by (simp add: called_ok_def connection_ok_def connection_start_def TCPClient_new_def)
  from run [OF this] obtain s where s: "caller_run evs \<lparr>ca_connection = connection_start cbs, ca_posted = [], ca_told = []\<rparr> = Inr s"
    "connection_ok (ca_connection s)" "ca_told s = cn_given (ca_connection s) @ concat (map post_message (ca_posted s))"
    by (auto simp: called_ok_def)
  have "subseq (cn_sent (ca_connection s) @ []) (cn_sent (ca_connection s) @ write_msgs (cn_client (ca_connection s)))"
    by (intro list_emb_append_mono subseq_order.refl) simp
  then have "subseq (cn_sent (ca_connection s)) (cn_given (ca_connection s))"
    using s(2) subseq_order.trans unfolding connection_ok_def by fastforce
  then have "subseq (cn_sent (ca_connection s)) (ca_told s)" unfolding s(3) by (rule subseq_rev_drop_many)
  then show ?thesis using s by (simp add: connection_ok_def)
qed

end
