(* ===== verification/Tcp_Life.thy ===== *)
theory Tcp_Life
  imports Tcp_Client
begin

text \<open>
  \<^verbatim>\<open>Networking/src/client.hpp\<close>, the two classes derived from \<open>TCPClientBase\<close>: the life of a plain or TLS client from
  \<open>run\<close> to its destructor. Every operation under way holds a reference to the client; when the last one has completed and the
  user has let go, the client is destroyed.
\<close>

section \<open>The derived classes\<close>

text \<open>\<open>tls_name_ok\<close>: what \<open>SSL_set_tlsext_host_name\<close> returns for the server's address.\<close>

definition set_tlsext_host_name :: "bool \<Rightarrow> bool" where
  "set_tlsext_host_name tls_name_ok = (\<not> tls_name_ok)"

definition tc_run :: "tcp_client \<Rightarrow> tcp_effect list" where
  "tc_run s = [Start_resolve]"

definition plain_tcp_on_connect :: "error_code \<Rightarrow> tcp_client \<Rightarrow> tcp_client \<times> tcp_effect list" where
  "plain_tcp_on_connect ec s = tc_on_finish_connect ec s"

definition ssl_tcp_on_connect :: "error_code \<Rightarrow> tcp_client \<Rightarrow> tcp_client \<times> tcp_effect list" where
  "ssl_tcp_on_connect ec s =
     (if ec = Success then (s, [Start_handshake])
      else case tc_handle_close s of (s', es) \<Rightarrow> (s', tc_handle_error ec s @ es))"

text \<open>
  The destructor of the base calls \<open>handle_close\<close>, which closes \<open>derived().lowest_layer()\<close>: the socket is a
  member of the derived class, and that part of the object is destroyed by then.
\<close>

definition tcp_destroy :: "tcp_client \<Rightarrow> unit result" where
  "tcp_destroy s = (case tc_handle_close s of (_, es) \<Rightarrow> if Close_socket \<in> set es then Inl Use_after_free else Inr ())"

section \<open>A life\<close>

datatype tcp_op = Resolving | Connecting | Handshaking | Reading | Writing

fun op_of :: "tcp_effect \<Rightarrow> tcp_op list" where
  "op_of Start_resolve = [Resolving]"
| "op_of Start_connect = [Connecting]"
| "op_of Start_handshake = [Handshaking]"
| "op_of Start_read = [Reading]"
| "op_of (Start_write m) = [Writing]"
| "op_of _ = []"

definition ops_of :: "tcp_effect list \<Rightarrow> tcp_op list" where
  "ops_of es = concat (map op_of es)"

fun tcp_complete :: "bool \<Rightarrow> tcp_op \<Rightarrow> error_code \<Rightarrow> nat \<Rightarrow> tcp_client \<Rightarrow> (tcp_client \<times> tcp_effect list) result" where
  "tcp_complete tls Resolving ec n s = Inr (s, tc_on_resolve ec s)"
| "tcp_complete tls Connecting ec n s = Inr (if tls then ssl_tcp_on_connect ec s else plain_tcp_on_connect ec s)"
| "tcp_complete tls Handshaking ec n s = Inr (tc_on_finish_connect ec s)"
| "tcp_complete tls Reading ec n s = Inr (tc_on_read ec n s)"
| "tcp_complete tls Writing ec n s = tc_on_write ec s"

text \<open>\<open>tl_pending\<close>: the operations under way. They complete in any order and with any error code.\<close>

record tcp_life =
  tl_client :: tcp_client
  tl_pending :: "tcp_op list"
  tl_log :: "tcp_effect list"

definition life_start :: "tcp_callbacks \<Rightarrow> tcp_life" where
  "life_start cbs =
     \<lparr>tl_client = TCPClient_new cbs, tl_pending = ops_of (tc_run (TCPClient_new cbs)), tl_log = tc_run (TCPClient_new cbs)\<rparr>"

definition life_take :: "tcp_client \<times> tcp_effect list \<Rightarrow> tcp_life \<Rightarrow> tcp_life" where
  "life_take r y = \<lparr>tl_client = fst r, tl_pending = tl_pending y @ ops_of (snd r), tl_log = tl_log y @ snd r\<rparr>"

inductive life_step :: "bool \<Rightarrow> tcp_life \<Rightarrow> tcp_life \<Rightarrow> bool" for tls :: bool where
  completes: "k < length (tl_pending y) \<Longrightarrow> tcp_complete tls (tl_pending y ! k) ec n (tl_client y) = Inr r \<Longrightarrow>
     life_step tls y (life_take r (y\<lparr>tl_pending := drop_nth k (tl_pending y)\<rparr>))"
| writes: "tc_schedule_write m (tl_client y) = Inr r \<Longrightarrow> life_step tls y (life_take r y)"
| closes: "life_step tls y (life_take (tc_handle_close (tl_client y)) y)"

inductive life_reachable :: "bool \<Rightarrow> tcp_callbacks \<Rightarrow> tcp_life \<Rightarrow> bool" for tls :: bool and cbs :: tcp_callbacks where
  start: "life_reachable tls cbs (life_start cbs)"
| step: "life_reachable tls cbs y \<Longrightarrow> life_step tls y y' \<Longrightarrow> life_reachable tls cbs y'"

section \<open>The invariant of a life\<close>

text \<open>The chain: what is under way besides a write, and what was started so far.\<close>

definition no_writes :: "tcp_op list \<Rightarrow> tcp_op list" where
  "no_writes ops = filter (\<lambda>p. p \<noteq> Writing) ops"

definition set_up :: "bool \<Rightarrow> tcp_op list" where
  "set_up tls = [Resolving, Connecting] @ (if tls then [Handshaking] else [])"

fun next_op :: "bool \<Rightarrow> tcp_op \<Rightarrow> tcp_op" where
  "next_op tls Resolving = Connecting"
| "next_op tls Connecting = (if tls then Handshaking else Reading)"
| "next_op tls _ = Reading"

definition up_to :: "bool \<Rightarrow> tcp_op \<Rightarrow> nat \<Rightarrow> tcp_op list" where
  "up_to tls p k = (if p = Reading then set_up tls @ replicate (Suc k) Reading else takeWhile (\<lambda>x. x \<noteq> p) (set_up tls) @ [p])"

definition chain_ok :: "bool \<Rightarrow> tcp_op list \<Rightarrow> tcp_effect list \<Rightarrow> tcp_client \<Rightarrow> bool" where
  "chain_ok tls ps log s \<longleftrightarrow>
     (\<exists>p k. (p = Reading \<or> p \<in> set (set_up tls))
        \<and> no_writes (ops_of log) = up_to tls p k
        \<and> (ps = [p] \<or> ps = [] \<and> \<not> tc_connected s)
        \<and> (tc_connected s \<longrightarrow> p = Reading)
        \<and> count_list log User_accept \<le> (if p = Reading then 1 else 0)
        \<and> count_list log User_close + (if tc_connected s then 1 else 0) \<le> (if p = Reading then 1 else 0))"

definition life_ok :: "bool \<Rightarrow> tcp_life \<Rightarrow> bool" where
  "life_ok tls y \<longleftrightarrow>
     count_list (tl_pending y) Writing = (if write_msgs (tl_client y) = [] then 0 else 1)
     \<and> chain_ok tls (no_writes (tl_pending y)) (tl_log y) (tl_client y)"

lemma no_writes_simps [simp]:
  "no_writes (xs @ ys) = no_writes xs @ no_writes ys" "no_writes [] = []"
  "no_writes (p # ps) = (if p = Writing then no_writes ps else p # no_writes ps)"
  by (simp_all add: no_writes_def)

lemma ops_of_simps [simp]:
  "ops_of (es @ fs) = ops_of es @ ops_of fs" "ops_of [] = []" "ops_of (e # es) = op_of e @ ops_of es"
  by (simp_all add: ops_of_def)

lemma count_list_app [simp]: "count_list (xs @ ys) x = count_list xs x + count_list ys x"
  by (induction xs) simp_all

text \<open>What a handler does, in the terms of the invariant.\<close>

lemma tc_handle_error_frame:
  "ops_of (tc_handle_error ec s) = []" "count_list (tc_handle_error ec s) User_accept = 0"
  "count_list (tc_handle_error ec s) User_close = 0"
  by (simp_all add: tc_handle_error_def)

lemma tc_handle_close_frame:
  assumes "tc_handle_close s = (s', es)"
  shows "ops_of es = []" "count_list es User_accept = 0" "write_msgs s' = write_msgs s" "\<not> tc_connected s'"
    "count_list es User_close \<le> (if tc_connected s then 1 else 0)"
  using assms by (auto simp: tc_handle_close_def split: if_splits)

abbreviation "one b \<equiv> (if b then 1 else 0 :: nat)"

lemma chain_handler:
  assumes p: "p \<noteq> Writing" "tc_connected s \<longrightarrow> p = Reading" and run: "tcp_complete tls p ec n s = Inr (s', es)"
  shows "write_msgs s' = write_msgs s
     \<and> (ops_of es = [next_op tls p]
          \<and> (tc_connected s' \<longrightarrow> next_op tls p = Reading)
          \<and> count_list es User_accept + one (p = Reading) \<le> one (next_op tls p = Reading)
          \<and> count_list es User_close + one (tc_connected s') + one (p = Reading) \<le> one (tc_connected s) + one (next_op tls p = Reading)
        \<or> ops_of es = [] \<and> \<not> tc_connected s' \<and> count_list es User_accept = 0
          \<and> count_list es User_close \<le> one (tc_connected s))"
proof -
  obtain s1 es1 where c: "tc_handle_close s = (s1, es1)" by fastforce
  note f = tc_handle_close_frame [OF c] tc_handle_error_frame
  show ?thesis
    using p run c f
    by (cases p) (auto simp: tc_on_resolve_def tc_on_finish_connect_def ssl_tcp_on_connect_def plain_tcp_on_connect_def
        tc_on_read_def split: if_splits)
qed

text \<open>A write and the user's close leave the chain alone.\<close>

lemma side_handler:
  assumes "tcp_complete tls Writing ec n s = Inr (s', es) \<or> tc_schedule_write m s = Inr (s', es) \<or> tc_handle_close s = (s', es)"
  shows "no_writes (ops_of es) = [] \<and> count_list es User_accept = 0
     \<and> count_list es User_close + one (tc_connected s') \<le> one (tc_connected s)"
proof -
  obtain s1 es1 where c: "tc_handle_close (s\<lparr>write_msgs := []\<rparr>) = (s1, es1)" by fastforce
  note f = tc_handle_close_frame [OF c] tc_handle_error_frame
  from assms show ?thesis
  proof (elim disjE)
    assume "tcp_complete tls Writing ec n s = Inr (s', es)"
    then show ?thesis using f c
      by (auto simp: tc_on_write_def tc_do_write_def Let_def split: if_splits list.splits sum.splits)
  next
    assume "tc_schedule_write m s = Inr (s', es)"
    then show ?thesis
      by (auto simp: tc_schedule_write_def tc_do_write_def Let_def split: if_splits list.splits sum.splits)
  next
    assume c: "tc_handle_close s = (s', es)"
    show ?thesis using tc_handle_close_frame [OF c] by (auto split: if_splits)
  qed
qed

text \<open>The writes: one is under way exactly while messages are queued.\<close>

lemma write_handler:
  "tc_schedule_write m s = Inr (s', es) \<Longrightarrow>
     count_list (ops_of es) Writing + one (write_msgs s \<noteq> []) = one (write_msgs s' \<noteq> [])"
  "tcp_complete tls Writing ec n s = Inr (s', es) \<Longrightarrow> count_list (ops_of es) Writing = one (write_msgs s' \<noteq> [])"
  "tc_handle_close s = (s', es) \<Longrightarrow> count_list (ops_of es) Writing = 0 \<and> write_msgs s' = write_msgs s"
proof -
  show "tc_schedule_write m s = Inr (s', es) \<Longrightarrow>
     count_list (ops_of es) Writing + one (write_msgs s \<noteq> []) = one (write_msgs s' \<noteq> [])"
    by (auto simp: tc_schedule_write_def tc_do_write_def Let_def split: if_splits list.splits sum.splits)
  show "tc_handle_close s = (s', es) \<Longrightarrow> count_list (ops_of es) Writing = 0 \<and> write_msgs s' = write_msgs s"
    using tc_handle_close_frame [of s s' es] by simp
  obtain s1 es1 where c: "tc_handle_close (s\<lparr>write_msgs := []\<rparr>) = (s1, es1)" by fastforce
  show "tcp_complete tls Writing ec n s = Inr (s', es) \<Longrightarrow> count_list (ops_of es) Writing = one (write_msgs s' \<noteq> [])"
    using tc_handle_close_frame [OF c] tc_handle_error_frame c
    by (auto simp: tc_on_write_def tc_do_write_def Let_def split: if_splits list.splits sum.splits)
qed

lemma up_to_next:
  assumes "p = Reading \<or> p \<in> set (set_up tls)"
  shows "next_op tls p = Reading \<or> next_op tls p \<in> set (set_up tls)"
    and "\<exists>k'. up_to tls p k @ [next_op tls p] = up_to tls (next_op tls p) k'"
proof -
  show "next_op tls p = Reading \<or> next_op tls p \<in> set (set_up tls)" by (cases p) (auto simp: set_up_def)
  have "up_to tls p k @ [next_op tls p] = up_to tls (next_op tls p) (if p = Reading then Suc k else 0)"
    using assms by (cases p) (auto simp: up_to_def set_up_def replicate_append_same split: if_splits)
  then show "\<exists>k'. up_to tls p k @ [next_op tls p] = up_to tls (next_op tls p) k'" by blast
qed

lemma no_writes_drop_nth:
  "k < length ps \<Longrightarrow> ps ! k = Writing \<Longrightarrow> no_writes (drop_nth k ps) = no_writes ps"
  "k < length ps \<Longrightarrow> ps ! k \<noteq> Writing \<Longrightarrow> no_writes ps = [q] \<Longrightarrow> ps ! k = q \<and> no_writes (drop_nth k ps) = []"
proof -
  assume k: "k < length ps"
  have e: "no_writes ps = no_writes (take k ps) @ no_writes [ps ! k] @ no_writes (drop (Suc k) ps)"
    using id_take_nth_drop [OF k] by (metis append_Cons append_Nil no_writes_simps(1))
  show "no_writes (drop_nth k ps) = no_writes ps" if "ps ! k = Writing"
    using that e by (simp add: drop_nth_def)
  show "ps ! k = q \<and> no_writes (drop_nth k ps) = []" if "ps ! k \<noteq> Writing" "no_writes ps = [q]"
    using that e by (auto simp: drop_nth_def append_eq_Cons_conv Cons_eq_append_conv)
qed

lemma count_drop_nth: "k < length ps \<Longrightarrow> count_list (drop_nth k ps) x + one (ps ! k = x) = count_list ps x"
proof -
  assume k: "k < length ps"
  have "count_list ps x = count_list (take k ps @ [ps ! k] @ drop (Suc k) ps) x"
    using id_take_nth_drop [OF k] by simp
  then show ?thesis by (simp add: drop_nth_def)
qed

lemma no_writes_in: "no_writes ps = [] \<Longrightarrow> p \<in> set ps \<Longrightarrow> p = Writing"
  by (auto simp: no_writes_def filter_empty_conv)

section \<open>Every step keeps it\<close>

lemma chain_ok_side:
  assumes "chain_ok tls ps log s" and "no_writes (ops_of es) = []" and "count_list es User_accept = 0"
    and "count_list es User_close + one (tc_connected s') \<le> one (tc_connected s)"
  shows "chain_ok tls ps (log @ es) s'"
proof -
  from assms(1) obtain p k where c: "p = Reading \<or> p \<in> set (set_up tls)" "no_writes (ops_of log) = up_to tls p k"
    "ps = [p] \<or> ps = [] \<and> \<not> tc_connected s" "tc_connected s \<longrightarrow> p = Reading"
    "count_list log User_accept \<le> one (p = Reading)" "count_list log User_close + one (tc_connected s) \<le> one (p = Reading)"
    unfolding chain_ok_def by blast
  have "tc_connected s' \<Longrightarrow> tc_connected s" using assms(4) by (cases "tc_connected s") simp_all
  then show ?thesis
    unfolding chain_ok_def using c assms(2-4) by (intro exI [of _ p] exI [of _ k]) auto
qed

lemma chain_ok_main:
  assumes "chain_ok tls [p] log s" and p: "p \<noteq> Writing" and run: "tcp_complete tls p ec n s = Inr (s', es)"
  shows "chain_ok tls (no_writes (ops_of es)) (log @ es) s'"
proof -
  from assms(1) obtain k where c: "p = Reading \<or> p \<in> set (set_up tls)" "no_writes (ops_of log) = up_to tls p k"
    "tc_connected s \<longrightarrow> p = Reading"
    "count_list log User_accept \<le> one (p = Reading)" "count_list log User_close + one (tc_connected s) \<le> one (p = Reading)"
    unfolding chain_ok_def by auto
  from chain_handler [OF p c(3) run] consider
      (on) "ops_of es = [next_op tls p]" "tc_connected s' \<longrightarrow> next_op tls p = Reading"
        "count_list es User_accept + one (p = Reading) \<le> one (next_op tls p = Reading)"
        "count_list es User_close + one (tc_connected s') + one (p = Reading) \<le> one (tc_connected s) + one (next_op tls p = Reading)"
    | (ends) "ops_of es = []" "\<not> tc_connected s'" "count_list es User_accept = 0"
        "count_list es User_close \<le> one (tc_connected s)"
    by (elim conjE disjE) (rule that; assumption)+
  then show ?thesis
  proof cases
    case on
    have nw: "next_op tls p \<noteq> Writing" by (cases p) simp_all
    from up_to_next [OF c(1)] obtain k' where
      n: "next_op tls p = Reading \<or> next_op tls p \<in> set (set_up tls)"
        "up_to tls p k @ [next_op tls p] = up_to tls (next_op tls p) k'" by blast
    show ?thesis unfolding chain_ok_def
    proof (intro exI conjI)
      show "next_op tls p = Reading \<or> next_op tls p \<in> set (set_up tls)" by (rule n(1))
      show "no_writes (ops_of (log @ es)) = up_to tls (next_op tls p) k'" using c(2) on(1) n(2) nw by simp
      show "no_writes (ops_of es) = [next_op tls p] \<or> no_writes (ops_of es) = [] \<and> \<not> tc_connected s'" using on(1) nw by simp
      show "tc_connected s' \<longrightarrow> next_op tls p = Reading" by (rule on(2))
      show "count_list (log @ es) User_accept \<le> one (next_op tls p = Reading)"
        using on(3) c(4) by simp
      show "count_list (log @ es) User_close + one (tc_connected s') \<le> one (next_op tls p = Reading)"
        using on(4) c(5) by simp
    qed
  next
    case ends
    then show ?thesis unfolding chain_ok_def using c by (intro exI [of _ p] exI [of _ k]) auto
  qed
qed

lemma life_step_ok:
  assumes ok: "life_ok tls y" and "life_step tls y y'"
  shows "life_ok tls y'"
  using assms(2)
proof cases
  case (completes k ec n r)
  let ?ps = "tl_pending y" and ?s = "tl_client y"
  obtain s' es where r: "r = (s', es)" by fastforce
  have w: "count_list ?ps Writing = one (write_msgs ?s \<noteq> [])" and ch: "chain_ok tls (no_writes ?ps) (tl_log y) ?s"
    using ok by (simp_all add: life_ok_def)
  note cd = count_drop_nth [OF completes(2), of Writing]
  show ?thesis
  proof (cases "?ps ! k = Writing")
    case True
    then have run: "tcp_complete tls Writing ec n ?s = Inr (s', es)" using completes(3) r by simp
    note sh = side_handler [OF disjI1, OF run]
    have "count_list (drop_nth k ?ps) Writing = 0" using cd w True by (simp split: if_splits)
    then show ?thesis
      using chain_ok_side [OF ch, of es s'] sh write_handler(2) [OF run] no_writes_drop_nth(1) [OF completes(2) True]
      by (simp add: completes(1) life_ok_def life_take_def r)
  next
    case False
    then have "no_writes ?ps \<noteq> []" using no_writes_in nth_mem [OF completes(2)] by blast
    then obtain p where p: "no_writes ?ps = [p]" using ch by (auto simp: chain_ok_def)
    note d = no_writes_drop_nth(2) [OF completes(2) False p]
    have run: "tcp_complete tls p ec n ?s = Inr (s', es)" using completes(3) r d by simp
    have pw: "p \<noteq> Writing" using False d by simp
    have "tc_connected ?s \<longrightarrow> p = Reading" using ch p by (auto simp: chain_ok_def)
    note h = chain_handler [OF pw this run]
    have "next_op tls p \<noteq> Writing" by (cases p) simp_all
    then have "count_list (ops_of es) Writing = 0" "write_msgs s' = write_msgs ?s" using h by auto
    then show ?thesis
      using chain_ok_main [OF ch [unfolded p] pw run] cd w False d
      by (simp add: completes(1) life_ok_def life_take_def r)
  qed
next
  case (writes m r)
  obtain s' es where r: "r = (s', es)" by fastforce
  have run: "tc_schedule_write m (tl_client y) = Inr (s', es)" using writes(2) r by simp
  show ?thesis
    using ok chain_ok_side [of tls _ _ "tl_client y" es s'] side_handler [OF disjI2, OF disjI1, OF run] write_handler(1) [OF run]
    by (auto simp: writes(1) life_ok_def life_take_def r split: if_splits)
next
  case closes
  obtain s' es where c: "tc_handle_close (tl_client y) = (s', es)" by fastforce
  show ?thesis
    using ok chain_ok_side [of tls _ _ "tl_client y" es s'] side_handler [OF disjI2, OF disjI2, OF c] write_handler(3) [OF c]
    by (auto simp: closes life_ok_def life_take_def c)
qed

lemma life_reachable_ok: "life_reachable tls cbs y \<Longrightarrow> life_ok tls y"
proof (induction rule: life_reachable.induct)
  case start
  show ?case
    unfolding life_ok_def chain_ok_def
    by (simp add: life_start_def TCPClient_new_def tc_run_def)
      (simp add: up_to_def set_up_def)
next
  case (step y y')
  then show ?case using life_step_ok by blast
qed

lemma up_to_prefix:
  assumes "p = Reading \<or> p \<in> set (set_up tls)"
  shows "\<exists>k'. prefix (up_to tls p k) (set_up tls @ replicate k' Reading)"
    and "p = Reading \<Longrightarrow> prefix (set_up tls) (up_to tls p k)"
proof -
  have "prefix (up_to tls p k) (set_up tls @ replicate (Suc k) Reading)"
    using assms by (cases p; cases tls) (auto simp: up_to_def set_up_def)
  then show "\<exists>k'. prefix (up_to tls p k) (set_up tls @ replicate k' Reading)" by blast
  show "p = Reading \<Longrightarrow> prefix (set_up tls) (up_to tls p k)" by (simp add: up_to_def)
qed

lemma tcp_destroy_faults_iff: "tcp_destroy s = Inl Use_after_free \<longleftrightarrow> tc_connected s"
  by (auto simp: tcp_destroy_def tc_handle_close_def)

text \<open>
  C29. The life of a TCP client: whatever completes, in whatever order and with whatever errors, and whatever the user writes and closes, the
  client resolves, connects and (over TLS) shakes hands, in this order and once each, and then reads, with one operation of
  this chain under way at most and one write; the user is told of an accepted connection at most once, after the whole
  set-up, and of a close at most once, after that; and when nothing is under way any more the client is not
  connected, so that its destructor, which would close a socket that is already destroyed, has nothing to close.
\<close>

theorem tcp_life_in_order:
  assumes "life_reachable tls cbs y"
  shows "(\<exists>k. prefix (no_writes (ops_of (tl_log y))) (set_up tls @ replicate k Reading))
     \<and> length (no_writes (tl_pending y)) \<le> 1 \<and> count_list (tl_pending y) Writing \<le> 1
     \<and> count_list (tl_log y) User_accept \<le> 1 \<and> count_list (tl_log y) User_close \<le> 1
     \<and> (User_accept \<in> set (tl_log y) \<or> User_close \<in> set (tl_log y) \<longrightarrow> prefix (set_up tls) (no_writes (ops_of (tl_log y))))
     \<and> (tl_pending y = [] \<longrightarrow> tcp_destroy (tl_client y) = Inr ())"
proof -
  have ok: "life_ok tls y" by (rule life_reachable_ok [OF assms])
  then obtain p k where c: "p = Reading \<or> p \<in> set (set_up tls)" "no_writes (ops_of (tl_log y)) = up_to tls p k"
    "no_writes (tl_pending y) = [p] \<or> no_writes (tl_pending y) = [] \<and> \<not> tc_connected (tl_client y)"
    "count_list (tl_log y) User_accept \<le> one (p = Reading)"
    "count_list (tl_log y) User_close + one (tc_connected (tl_client y)) \<le> one (p = Reading)"
    unfolding life_ok_def chain_ok_def by (elim conjE exE) (rule that)
  have w: "count_list (tl_pending y) Writing \<le> 1" using ok by (simp add: life_ok_def)
  have told: "p = Reading" if "User_accept \<in> set (tl_log y) \<or> User_close \<in> set (tl_log y)"
    using that c(4,5) count_list_0_iff [of "tl_log y" User_accept] count_list_0_iff [of "tl_log y" User_close]
    by (cases "p = Reading") simp_all
  have "tcp_destroy (tl_client y) = Inr ()" if "tl_pending y = []"
    using c(3) that by (auto simp: tcp_destroy_def tc_handle_close_def)
  moreover have "length (no_writes (tl_pending y)) \<le> 1" using c(3) by auto
  moreover have "count_list (tl_log y) User_accept \<le> 1" "count_list (tl_log y) User_close \<le> 1"
    using c(4,5) by (auto split: if_splits)
  ultimately show ?thesis
    using up_to_prefix(1) [OF c(1), of k] up_to_prefix(2) [OF c(1), of k] told c(2) w by metis
qed

lemma tcp_life_in_order_witness:
  "\<exists>y. life_reachable True \<lparr>has_read = True, has_accept = True, has_close = True, has_error = True\<rparr> y
     \<and> tl_pending y = [Connecting] \<and> length (no_writes (tl_pending y)) \<le> 1"
proof -
  let ?cbs = "\<lparr>has_read = True, has_accept = True, has_close = True, has_error = True\<rparr>"
  let ?y = "life_take (TCPClient_new ?cbs, [Close_socket, Start_connect]) (life_start ?cbs\<lparr>tl_pending := []\<rparr>)"
  have "life_step True (life_start ?cbs) (life_take (TCPClient_new ?cbs, [Close_socket, Start_connect])
      (life_start ?cbs\<lparr>tl_pending := drop_nth 0 (tl_pending (life_start ?cbs))\<rparr>))"
    by (rule life_step.completes [where ec = Success and n = 0])
      (simp_all add: life_start_def tc_run_def tc_on_resolve_def)
  then have "life_step True (life_start ?cbs) ?y"
    by (simp add: life_start_def tc_run_def drop_nth_def)
  then have r: "life_reachable True ?cbs ?y" using life_reachable.start life_reachable.step by blast
  moreover have "tl_pending ?y = [Connecting]" by (simp add: life_take_def)
  ultimately show ?thesis using tcp_life_in_order [OF r] by blast
qed

end
