(* ===== verification/Certificates.thy ===== *)
theory Certificates
  imports Main
begin

text \<open>
  \<^verbatim>\<open>Networking/src/net.hpp\<close>: which errors are reported (\<open>fail\<close>) and the loading of a server's certificate, private key and
  Diffie-Hellman parameters. The files and what OpenSSL makes of them are parameters.
\<close>

section \<open>Reporting a failure\<close>

text \<open>
  What a failed call says: the error's code and message, and the place. A stream that was cut (a peer that closes a TLS
  connection without its handshake) is not reported.
\<close>

datatype error_code = Stream_truncated | Error_code int string

fun fail :: "(int \<Rightarrow> string) \<Rightarrow> error_code \<Rightarrow> string \<Rightarrow> string list" where
  "fail to_string Stream_truncated what = []"
| "fail to_string (Error_code value message) what =
     [''BeastNetworking::'' @ what @ '': '' @ message @ '' (value='' @ to_string value @ '')'' @ [CHR 0x0A]]"

section \<open>Loading a certificate\<close>

text \<open>
  \<open>exists\<close>: the result of \<open>std::filesystem::exists\<close>, and whether it set its error code. The three \<open>use\<close> functions: whether
  the call on the context reported an error. The result: whether there was an error, and the file each complaint of
  a missing file is about with what it is called there.
\<close>

record certificate_files =
  cert_chain_file :: string
  private_key_file :: string
  tmp_dh_file :: string

record ssl_loader =
  use_certificate_chain :: "string \<Rightarrow> bool"
  use_private_key :: "string \<Rightarrow> bool"
  use_tmp_dh :: "string \<Rightarrow> bool"

definition complain_missing :: "(string \<Rightarrow> bool \<times> bool) \<Rightarrow> string \<Rightarrow> string \<Rightarrow> (string \<times> string) list \<Rightarrow> (string \<times> string) list" where
  "complain_missing exists what file log =
     (case exists file of (found, ec) \<Rightarrow> if \<not> found \<or> ec then log @ [(what, file)] else log)"

definition load_server_certificate ::
  "(string \<Rightarrow> bool \<times> bool) \<Rightarrow> ssl_loader \<Rightarrow> certificate_files \<Rightarrow> bool \<times> (string \<times> string) list" where
  "load_server_certificate exists ctx files =
     (let log = complain_missing exists ''cert_chain_file'' (cert_chain_file files) [];
          log = complain_missing exists ''private_key_file'' (private_key_file files) log;
          log = complain_missing exists ''cert_chain_file'' (tmp_dh_file files) log;
          hadError = (log \<noteq> []);
          hadError = (if use_certificate_chain ctx (cert_chain_file files) then True else hadError);
          hadError = (if use_private_key ctx (private_key_file files) then True else hadError);
          hadError = (if use_tmp_dh ctx (tmp_dh_file files) then True else hadError)
      in (hadError, log))"

definition file_loaded :: "(string \<Rightarrow> bool \<times> bool) \<Rightarrow> (string \<Rightarrow> bool) \<Rightarrow> string \<Rightarrow> bool" where
  "file_loaded exists use file \<longleftrightarrow> exists file = (True, False) \<and> \<not> use file"

text \<open>It succeeds, which is the result false, exactly when all three files are there and have been loaded: no failure is lost.\<close>

lemma certificate_loaded_iff:
  "fst (load_server_certificate exists ctx files) = False \<longleftrightarrow>
     file_loaded exists (use_certificate_chain ctx) (cert_chain_file files)
   \<and> file_loaded exists (use_private_key ctx) (private_key_file files)
   \<and> file_loaded exists (use_tmp_dh ctx) (tmp_dh_file files)"
  by (auto simp: load_server_certificate_def complain_missing_def file_loaded_def split: prod.splits)

text \<open>A missing file of parameters is reported as a missing certificate chain.\<close>

lemma tmp_dh_misreported:
  assumes "exists (cert_chain_file files) = (True, False)" and "exists (private_key_file files) = (True, False)"
    and "exists (tmp_dh_file files) = (False, ec)"
  shows "load_server_certificate exists ctx files = (True, [(''cert_chain_file'', tmp_dh_file files)])"
  using assms by (simp add: load_server_certificate_def complain_missing_def Let_def)

end
