(* ===== verification/Spec2Isabelle.thy ===== *)
theory Spec2Isabelle
  imports Heap_Example IPC_Growth Pipe_Calls IPC_Example Process_Sharing Http_Close Ws_Connect Server_Connections
    Rate_Sharing Rate_Concurrent Broadcast_Order Raw_Messages Ws_Factory Unique_Id Heap_Passthrough
    Pooled_Send Tcp_Life Certificates
begin

text \<open>
  InterprocessMemPool is a C++ library of three parts: memory pools on the heap (\<^verbatim>\<open>src/MempoolHeap\<close>), the
  same pools inside a shared memory segment together with the routing of pointers between processes
  (\<^verbatim>\<open>src/MempoolIPC\<close>), and a server and client framework over Boost.Beast by which programs find each
  other and exchange messages (\<^verbatim>\<open>src/Networking\<close>). This development models all three as HOL functions,
  close to the code and with its names, and proves what makes each part correct.

  \<^bold>\<open>Conventions.\<close> An operation that can fail returns a \<open>result\<close>: a \<open>fault\<close> (a C++ exception, or undefined behaviour
  where the code would run into it) or a value. Addresses and byte counts are 64-bit words, so that their
  arithmetic wraps; numbers of elements that are only counted and compared are natural numbers. \<open>double\<close>s are
  rationals. An operation that the code does under its mutex is one function on the state; where code runs
  concurrently without one (\<open>Pipe_Concurrent\<close>) every interleaving of its steps is considered. A handler
  of the networking part is one function too: it returns the new state and the list of what it does to the outside
  (operations started, callbacks called, completion handlers called). What Boost.Asio makes of the operations, that is
  in which order and with which error codes they complete, is the list of events the theorems quantify over.
  What is not in the repository is a parameter, and its documented behaviour a named predicate
  (\<open>allocator_ok\<close>, \<open>segment_ok\<close>, \<open>semaphore_ok\<close>, \<open>shm_ok\<close>, \<open>map_ok\<close>), each shown to be
  satisfiable by the witness of the property that uses it.

  \<^bold>\<open>Memory pools on the heap\<close> (\<^verbatim>\<open>MempoolHeap/src/MemPoolHeap.h\<close>).
  \<open>Pool_Interface\<close> is the contract of a pool of blocks, a locale: blocks are lent and given back, those lent are
  distinct, and the histories of a client have the consequences proved there once.
  \<open>Heap_Pool\<close>: \<open>RawMemory\<close> and \<open>AllocatorState\<close>, which interprets the contract: memory safety, disjointness
  and alignment of the elements, exact statistics, and the size computation that wraps.
  \<open>Heap_Shared\<close>: \<open>SharedPointerAllocator\<close>: how the pool is built by a trial allocation, and that it lives exactly as
  long as its last element. \<open>Heap_Array\<close>: \<open>SharedPointerArrayAllocator\<close> and the life of the objects of its arrays;
  \<open>Heap_Example\<close>: who holds their memory, and \<^verbatim>\<open>ExampleMempoolHeap.cpp\<close>. \<open>Heap_Passthrough\<close>: \<open>Passthrough_Allocator\<close>,
  an allocator that prints what a pool requests from it, each request and its return once.

  \<^bold>\<open>Shared memory\<close> (\<^verbatim>\<open>MempoolIPC/src/MemPoolIPC.h, RouterIPC.h, UtilsIPC.h\<close>).
  \<open>IPC_Pool\<close>: the pool with offsets instead of pointers; it refines the heap pool operation by operation.
  \<open>IPC_MemPool\<close>: \<open>ObjectAllocator\<close>, \<open>ControlBlockAllocator\<close> and \<open>MemPoolIPC\<close>: the life of objects and control blocks,
  independence of the addresses at which processes map the segment, and exactly when \<open>make_pooled\<close> fails.
  \<open>IPC_Grower\<close>: \<open>MemPoolGrowerIPC\<close>, which replaces an exhausted pool by one of twice the size;
  \<open>IPC_Growth\<close>: how often, and the example programs of growing pools and of arrays.
  \<open>Pipe\<close>: \<open>PipeIPC\<close> call by call, as a refinement of a bounded queue; \<open>Pipe_Concurrent\<close>: the same calls cut into their
  atomic steps, an inductive step relation over any number of threads, with the invariant of the semaphores and the
  ring buffer; \<open>Pipe_Calls\<close>: that these calls come to an end. \<open>Router\<close>: \<open>RouterIPC\<close>: sending to every
  living pipe while removing the dead ones.
  \<open>IPC_Channel\<close> puts pool, router and pipes together: an element lives as long as a process or a pipe refers to
  it, and how large a pool has to be; \<open>IPC_Example\<close>: the two processes of \<^verbatim>\<open>Example_MemPoolIPC.cpp\<close> on it.
  \<open>Shared_Objects\<close>: named objects and mappings that are counted and destroyed with their last user;
  \<open>Shared_Removal\<close>: what crashed processes leave behind, and the removal of a segment by hand;
  \<open>Process_Sharing\<close>: any number of processes that open and close the segment and its objects, the calls on the mapping cut into
  steps, and what the example programs do before and after their work.
  \<open>Unique_Id\<close>: \<open>GenerateUniqueID\<close>, from the numbers of the random device to the identifier.

  \<^bold>\<open>Networking\<close> (\<^verbatim>\<open>Networking/src\<close>).
  \<open>Rate_Limiter\<close> (\<^verbatim>\<open>rate_limiter\<close>): how the allowance is shared, bounds on the bytes let through, and that
  every message gets through in the end; \<open>Rate_Sharing\<close>: the sessions of a server with the tracker they share,
  the bound on all allowances together and how close they come to it; \<open>Rate_Concurrent\<close>: any number of threads in the
  operations of the tracker, cut into their atomic steps.
  \<open>Send_Queue\<close>: the queue of messages that WebSocket and HTTP sessions have in common, as a locale whose laws give
  that every completion handler is called exactly once; \<open>Ws_Session\<close> and \<open>Http_Session\<close> interpret it.
  \<open>Ws_Session\<close> (\<^verbatim>\<open>websocket_session\<close>): the session once it is connected; \<open>Ws_Connect\<close>: how it gets connected,
  an inductive step relation with the order of the protocol as its invariant; \<open>Ws_Factory\<close>: its constructors and
  factories, for clients and servers.
  \<open>Http_Request\<close>: the file server of \<^verbatim>\<open>http_session.hpp\<close>. \<open>Http_Session\<close> (\<^verbatim>\<open>http_session\<close>): the
  pipeline of requests, raw messages, the choice between plain and TLS. \<open>Http_Close\<close>: how a connection ends.
  \<open>Raw_Messages\<close>: messages with a header of fixed length over plain TCP, down to their bytes.
  \<open>Shared_State\<close> (\<^verbatim>\<open>shared_state\<close>): the registers of sessions, callbacks, broadcasts.
  \<open>Strand\<close>: what is posted to the strand of a session (a locale context over \<open>Send_Queue\<close>); \<open>Broadcast_Order\<close>: all sessions
  of a server with their strands, and the order in which broadcasts arrive.
  \<open>Server_Connections\<close> (\<^verbatim>\<open>listener\<close>): the whole server, composed of the definitions of the other theories,
  from accepting a connection to the end of its sessions.
  \<open>Topic_Message\<close> and \<open>Topic_Client\<close> (\<^verbatim>\<open>MultiClientSender.hpp, MultiClientReceiver.hpp\<close>): the announcement of a
  topic, its parsing, and the table of clients a receiver keeps; \<open>Topic_Discovery\<close> composes sender and receiver with
  heartbeat and UDP receiver, from the arguments (\<^verbatim>\<open>args.hpp\<close>) to a connected client.
  \<open>Tcp_Client\<close> and \<open>Tcp_Life\<close> (\<^verbatim>\<open>client.hpp\<close>): a client with a queue of strings, calls of its
  user from any thread, and its life, plain or TLS.
  \<open>Certificates\<close> (\<^verbatim>\<open>net.hpp\<close>): reporting failures and loading certificates.
  \<open>Pooled_Send\<close> joins the two libraries as \<^verbatim>\<open>Example_Networking.cpp\<close> does: elements of a shared pool are
  sent without copying, and arriving messages are routed to the receivers of a computer. \<open>Asio_Utils\<close> (\<^verbatim>\<open>UtilsASIO.hpp\<close>): UDP receiver, heartbeat, the context of threads.

  \<^bold>\<open>Bounds.\<close> No definition has fuel: loops are structural, or their termination is proved (the loop of the router). A call
  that may block for ever (\<open>pipe_Send\<close>, \<open>pipe_Receive\<close>) returns an option, and the properties say when it
  is \<open>Some\<close>; for calls that run concurrently \<open>Pipe_Calls\<close> bounds their steps and says which of them return. Hypotheses
  on sizes are those without which the size computations of the code wrap; where the code
  does not check them this is proved as well.

  \<^bold>\<open>Not modelled.\<close> Log output, and what only names or forwards: type aliases, declarations, accessors. The
  numbers of the random device, the file system, sockets, TLS and the parsing of HTTP are parameters or events.
  Time limits of Boost streams are effects without a consequence in the model. Except where a theory says otherwise
  (\<open>Rate_Concurrent\<close>, \<open>Broadcast_Order\<close>, \<open>Strand\<close>), what a session of the server does runs on its strand one step after
  the other, and data races that the strand does not exclude appear only where a lemma states them.
\<close>

end
